(* ===== verification/Go_Prelude.thy ===== *)
theory Go_Prelude
  imports Main "HOL-Library.Word" "HOL-Library.Finite_Map" "HOL-Library.Sublist"
    "HOL-Library.Char_ord" "HOL-Library.List_Lexorder"
begin

text \<open>
  Shared ground of the development: the Go data the components use and the facts their proofs
  share.

  \<^item> \<open>uint64\<close> is \<open>u64\<close> (a 64-bit word). Go's \<open>int\<close> and \<open>time.Duration\<close> are 64-bit
    signed: they are HOL integers, with \<open>wrap64\<close> written at every addition, subtraction and
    conversion that can leave the range. Lengths of slices and counters incremented once per loop
    iteration over a slice are bounded by a slice length and carry no wrap.
  \<^item> \<open>time.Time\<close> is \<open>gotime\<close>, nanoseconds since the zero time (so \<open>IsZero\<close> is \<open>t = 0\<close>);
    \<open>Time.Sub\<close> saturates at the ends of the \<open>Duration\<close> range, as the standard library does.
  \<^item> A Go map is a finite map (\<open>fmap\<close>); reading a missing key gives the zero value
    (\<open>map_get\<close>). A Go string is its list of bytes.
  \<^item> An \<open>error\<close> is a \<open>gerror\<close>; a call that may panic returns an \<open>outcome\<close>.
\<close>

named_theorems go_arith \<open>64-bit arithmetic: wraps, range facts and clock differences\<close>

type_synonym u64 = "64 word"
type_synonym gotime = int
type_synonym duration = int
type_synonym labels = "(string, string) fmap"
type_synonym resources = "(string, u64) fmap"

definition wrap64 :: "int \<Rightarrow> int" where
  "wrap64 x = signed_take_bit 63 x"

definition in_int64 :: "int \<Rightarrow> bool" where
  "in_int64 x \<longleftrightarrow> - (2 ^ 63) \<le> x \<and> x < 2 ^ 63"

definition go_rem :: "int \<Rightarrow> int \<Rightarrow> int" where
  "go_rem a b = sgn a * (\<bar>a\<bar> mod \<bar>b\<bar>)"

definition second :: duration where "second = 1000000000"
definition minute :: duration where "minute = 60000000000"
definition hour :: duration where "hour = 3600000000000"

definition is_zero_time :: "gotime \<Rightarrow> bool" where
  "is_zero_time t \<longleftrightarrow> t = 0"

definition time_sub :: "gotime \<Rightarrow> gotime \<Rightarrow> duration" where
  "time_sub t u = max (- (2 ^ 63)) (min (2 ^ 63 - 1) (t - u))"

definition map_get :: "('k, string) fmap \<Rightarrow> 'k \<Rightarrow> string" where
  "map_get m k = (case fmlookup m k of None \<Rightarrow> [] | Some v \<Rightarrow> v)"

definition map_len :: "('k, 'v) fmap \<Rightarrow> nat" where
  "map_len m = fcard (fmdom m)"

definition has_prefix :: "string \<Rightarrow> string \<Rightarrow> bool" where
  "has_prefix s p \<longleftrightarrow> take (length p) s = p"

definition trim_left :: "char \<Rightarrow> string \<Rightarrow> string" where
  "trim_left c s = dropWhile (\<lambda>x. x = c) s"

definition trim_right :: "char \<Rightarrow> string \<Rightarrow> string" where
  "trim_right c s = rev (dropWhile (\<lambda>x. x = c) (rev s))"

datatype gerror = Opaque string | APIError int | ErrNotFound | Wrap string gerror

datatype 'a outcome = Return 'a | Panic

subsection \<open>64-bit arithmetic\<close>

lemma wrap64_id [go_arith]: "- (2 ^ 63) \<le> x \<Longrightarrow> x < 2 ^ 63 \<Longrightarrow> wrap64 x = x"
  unfolding wrap64_def by (rule signed_take_bit_int_eq_self)

lemma wrap64_diff [go_arith]:
  assumes "0 \<le> a" "a < 2 ^ 62" "0 \<le> b" "b < 2 ^ 62"
  shows "wrap64 (a - b) = a - b"
  using assms by (intro wrap64_id) simp_all

lemma in_int64_wrap64 [simp]: "in_int64 (wrap64 x)"
  by (simp add: in_int64_def wrap64_def del: power_numeral)

lemma wrap64_in_int64: "in_int64 x \<Longrightarrow> wrap64 x = x"
  by (simp add: in_int64_def wrap64_id del: power_numeral)

lemma go_rem_nonneg [go_arith]: "0 \<le> a \<Longrightarrow> 0 < b \<Longrightarrow> go_rem a b = a mod b"
  by (cases "a = 0") (auto simp: go_rem_def sgn_if)

lemma time_sub_id [go_arith]:
  "- (2 ^ 63) \<le> t - u \<Longrightarrow> t - u < 2 ^ 63 \<Longrightarrow> time_sub t u = t - u"
  by (simp add: time_sub_def)

lemma time_sub_gt_iff [go_arith]:
  "- (2 ^ 63) \<le> d \<Longrightarrow> d < 2 ^ 63 - 1 \<Longrightarrow> d < time_sub t u \<longleftrightarrow> d < t - u"
  by (auto simp: time_sub_def)

lemma time_sub_in_int64 [simp]: "in_int64 (time_sub t u)"
  by (simp add: time_sub_def in_int64_def)

lemma sint_u64_small [go_arith]:
  assumes "uint (w :: u64) < 2 ^ 63"
  shows "sint w = uint w"
proof -
  have "- (2 ^ 63) \<le> uint w" by (rule order_trans [OF _ uint_ge_0]) simp
  with assms show ?thesis by (simp add: sint_uint signed_take_bit_int_eq_self del: power_numeral)
qed

subsection \<open>Sums over clients\<close>

lemma sum_fun_upd:
  fixes f :: "nat \<Rightarrow> int"
  assumes "i < N"
  shows "(\<Sum>j<N. (f(i := v)) j) = (\<Sum>j<N. f j) - f i + v"
proof -
  have i: "i \<in> {..<N}" using assms by simp
  have "(\<Sum>j<N. (f(i := v)) j) = v + (\<Sum>j\<in>{..<N} - {i}. f j)"
    using i by (simp add: sum.remove)
  moreover have "(\<Sum>j<N. f j) = f i + (\<Sum>j\<in>{..<N} - {i}. f j)"
    using i by (simp add: sum.remove)
  ultimately show ?thesis by simp
qed

subsection \<open>Maps and strings\<close>

lemma map_get_simps [simp]:
  "map_get fmempty k = []"
  "map_get (fmupd k v m) k' = (if k' = k then v else map_get m k')"
  by (simp_all add: map_get_def)

lemma map_len_simps [simp]:
  "map_len fmempty = 0"
  "map_len (fmupd k v m) = (if k |\<in>| fmdom m then map_len m else Suc (map_len m))"
  by (simp_all add: map_len_def finsert_absorb fcard_finsert_disjoint)

lemma map_len_drop:
  "map_len (fmdrop k m) = (if k |\<in>| fmdom m then map_len m - 1 else map_len m)"
  by (simp add: map_len_def fcard_fminus_fsingleton_if)

lemma has_prefix_iff: "has_prefix s p \<longleftrightarrow> (\<exists>r. s = p @ r)"
  unfolding has_prefix_def by (metis append_eq_conv_conj append_take_drop_id)

lemma has_prefix_append [simp]: "has_prefix (p @ r) p"
  by (simp add: has_prefix_def)

end
