(* ===== verification/Orchard_Client.thy ===== *)
theory Orchard_Client
  imports Go_Prelude
begin

text \<open>
  \<^verbatim>\<open>orchard/types.go\<close> and \<^verbatim>\<open>orchard/client.go\<close>: the VM and worker records, the client
  interface, and its implementation over the official Orchard client library.

  The library is not part of the repository. Its resource types appear as records with the
  fields the code reads or writes, its string constants as the argument \<open>v1_consts\<close>, and its
  calls as the record \<open>v1_api\<close> of functions over an opaque external state \<open>'o\<close> (the
  controller, the network and the clock).
\<close>

record VM =
  vName :: string
  vImage :: string
  vCPU :: u64
  vMemory :: u64
  vNested :: bool
  vDiskSize :: u64
  vStatus :: string
  vStatusMessage :: string
  vWorker :: string
  vStartupScript :: "string option"
  vLabels :: labels
  vCreatedAt :: gotime

record Worker =
  wName :: string
  wLabels :: labels
  wResources :: resources
  wSchedulingPaused :: bool
  wLastSeen :: gotime

definition VMStatusCreating :: string where "VMStatusCreating = ''creating''"
definition VMStatusRunning :: string where "VMStatusRunning = ''running''"
definition VMStatusStopped :: string where "VMStatusStopped = ''stopped''"
definition VMStatusFailed :: string where "VMStatusFailed = ''failed''"

text \<open>The library's resource types and constants, as far as the code uses them.\<close>

record v1_VM =
  v1Name :: string
  v1Image :: string
  v1CPU :: u64
  v1Memory :: u64
  v1DiskSize :: u64
  v1Headless :: bool
  v1Nested :: bool
  v1Username :: string
  v1Password :: string
  v1OS :: string
  v1Arch :: string
  v1Runtime :: string
  v1RestartPolicy :: string
  v1StartupScript :: "string option"
  v1Labels :: labels
  v1Status :: string
  v1StatusMessage :: string
  v1Worker :: string
  v1CreatedAt :: gotime

record v1_Worker =
  v1wName :: string
  v1wLabels :: labels
  v1wResources :: resources
  v1wSchedulingPaused :: bool
  v1wLastSeen :: gotime

record v1_consts =
  OSDarwin :: string
  ArchitectureARM64 :: string
  RuntimeTart :: string
  RestartPolicyNever :: string
  v1StatusPending :: string
  v1StatusRunning :: string
  v1StatusFailed :: string

record 'o v1_api =
  vms_Create :: "v1_VM \<Rightarrow> 'o \<Rightarrow> gerror option \<times> 'o"
  vms_Get :: "string \<Rightarrow> 'o \<Rightarrow> (gerror + v1_VM) \<times> 'o"
  vms_List :: "'o \<Rightarrow> (gerror + v1_VM list) \<times> 'o"
  vms_Delete :: "string \<Rightarrow> 'o \<Rightarrow> gerror option outcome \<times> 'o"
  workers_List :: "'o \<Rightarrow> (gerror + v1_Worker list) \<times> 'o"
  workers_Delete :: "string \<Rightarrow> 'o \<Rightarrow> gerror option \<times> 'o"
  api_Check :: "'o \<Rightarrow> gerror option \<times> 'o"

text \<open>The client interface the other packages depend on.\<close>

record 'o orchard_client =
  CreateVM :: "VM \<Rightarrow> 'o \<Rightarrow> (gerror + VM) \<times> 'o"
  GetVM :: "string \<Rightarrow> 'o \<Rightarrow> (gerror + VM) \<times> 'o"
  ListVMs :: "'o \<Rightarrow> (gerror + VM list) \<times> 'o"
  DeleteVM :: "string \<Rightarrow> 'o \<Rightarrow> gerror option outcome \<times> 'o"
  ListWorkers :: "'o \<Rightarrow> (gerror + Worker list) \<times> 'o"
  DeleteWorker :: "string \<Rightarrow> 'o \<Rightarrow> gerror option \<times> 'o"
  Ping :: "'o \<Rightarrow> gerror option \<times> 'o"

subsection \<open>Type conversions\<close>

definition toV1VM :: "v1_consts \<Rightarrow> VM \<Rightarrow> v1_VM" where
  "toV1VM k vm =
     (let result = \<lparr>v1Name = vName vm, v1Image = vImage vm, v1CPU = vCPU vm,
         v1Memory = vMemory vm, v1DiskSize = vDiskSize vm, v1Headless = True,
         v1Nested = vNested vm, v1Username = ''admin'', v1Password = ''admin'',
         v1OS = OSDarwin k, v1Arch = ArchitectureARM64 k, v1Runtime = RuntimeTart k,
         v1RestartPolicy = RestartPolicyNever k, v1StartupScript = None, v1Labels = fmempty,
         v1Status = [], v1StatusMessage = [], v1Worker = [], v1CreatedAt = 0\<rparr>;
       result = (case vStartupScript vm of None \<Rightarrow> result
                 | Some sc \<Rightarrow> result\<lparr>v1StartupScript := Some sc\<rparr>)
      in if 0 < map_len (vLabels vm) then result\<lparr>v1Labels := vLabels vm\<rparr> else result)"

definition mapV1Status :: "v1_consts \<Rightarrow> string \<Rightarrow> string" where
  "mapV1Status k s =
     (if s = v1StatusPending k then VMStatusCreating
      else if s = v1StatusRunning k then VMStatusRunning
      else if s = v1StatusFailed k then VMStatusFailed
      else s)"

definition fromV1Script :: "string option \<Rightarrow> string option" where
  "fromV1Script s = (case s of None \<Rightarrow> None | Some c \<Rightarrow> Some c)"

definition fromV1VM :: "v1_consts \<Rightarrow> v1_VM \<Rightarrow> VM" where
  "fromV1VM k vm =
     \<lparr>vName = v1Name vm, vImage = v1Image vm, vCPU = v1CPU vm, vMemory = v1Memory vm,
      vNested = v1Nested vm, vDiskSize = v1DiskSize vm, vStatus = mapV1Status k (v1Status vm),
      vStatusMessage = v1StatusMessage vm, vWorker = v1Worker vm,
      vStartupScript = fromV1Script (v1StartupScript vm), vLabels = v1Labels vm,
      vCreatedAt = v1CreatedAt vm\<rparr>"

definition fromV1Worker :: "v1_Worker \<Rightarrow> Worker" where
  "fromV1Worker w =
     \<lparr>wName = v1wName w, wLabels = v1wLabels w, wResources = v1wResources w,
      wSchedulingPaused = v1wSchedulingPaused w, wLastSeen = v1wLastSeen w\<rparr>"

text \<open>\<open>errors.As\<close> with an \<open>APIError\<close> target: the first one down the wrap chain.\<close>

fun as_api_error :: "gerror \<Rightarrow> int option" where
  "as_api_error (APIError code) = Some code"
| "as_api_error (Wrap _ e) = as_api_error e"
| "as_api_error _ = None"

definition isNotFound :: "gerror \<Rightarrow> bool" where
  "isNotFound e = (case as_api_error e of Some code \<Rightarrow> code = 404 | None \<Rightarrow> False)"

text \<open>\<open>errors.Is(err, ErrNotFound)\<close>, which callers of \<open>GetVM\<close> use.\<close>

fun is_ErrNotFound :: "gerror \<Rightarrow> bool" where
  "is_ErrNotFound ErrNotFound = True"
| "is_ErrNotFound (Wrap _ e) = is_ErrNotFound e"
| "is_ErrNotFound _ = False"

subsection \<open>The official client\<close>

definition official_CreateVM :: "v1_consts \<Rightarrow> 'o v1_api \<Rightarrow> VM \<Rightarrow> 'o \<Rightarrow> (gerror + VM) \<times> 'o" where
  "official_CreateVM k api vm s =
     (let v1vm = toV1VM k vm in
      case vms_Create api v1vm s of
        (Some err, s1) \<Rightarrow> (Inl (Wrap ''creating VM'' err), s1)
      | (None, s1) \<Rightarrow>
          (case vms_Get api (vName vm) s1 of
             (Inl err, s2) \<Rightarrow> (Inr (fromV1VM k v1vm), s2)
           | (Inr created, s2) \<Rightarrow> (Inr (fromV1VM k created), s2)))"

definition official_GetVM :: "v1_consts \<Rightarrow> 'o v1_api \<Rightarrow> string \<Rightarrow> 'o \<Rightarrow> (gerror + VM) \<times> 'o" where
  "official_GetVM k api name s =
     (case vms_Get api name s of
        (Inl err, s1) \<Rightarrow>
          (if isNotFound err then (Inl (Wrap (''VM '' @ name) ErrNotFound), s1)
           else (Inl (Wrap ''getting VM'' err), s1))
      | (Inr vm, s1) \<Rightarrow> (Inr (fromV1VM k vm), s1))"

definition official_ListVMs :: "v1_consts \<Rightarrow> 'o v1_api \<Rightarrow> 'o \<Rightarrow> (gerror + VM list) \<times> 'o" where
  "official_ListVMs k api s =
     (case vms_List api s of
        (Inl err, s1) \<Rightarrow> (Inl (Wrap ''listing VMs'' err), s1)
      | (Inr v1vms, s1) \<Rightarrow> (Inr (map (fromV1VM k) v1vms), s1))"

definition official_DeleteVM :: "'o v1_api \<Rightarrow> string \<Rightarrow> 'o \<Rightarrow> gerror option outcome \<times> 'o" where
  "official_DeleteVM api name s =
     (case vms_Delete api name s of
        (Panic, s1) \<Rightarrow> (Panic, s1)
      | (Return None, s1) \<Rightarrow> (Return None, s1)
      | (Return (Some err), s1) \<Rightarrow>
          (if isNotFound err then (Return None, s1)
           else (Return (Some (Wrap ''deleting VM'' err)), s1)))"

definition official_ListWorkers :: "'o v1_api \<Rightarrow> 'o \<Rightarrow> (gerror + Worker list) \<times> 'o" where
  "official_ListWorkers api s =
     (case workers_List api s of
        (Inl err, s1) \<Rightarrow> (Inl (Wrap ''listing workers'' err), s1)
      | (Inr v1workers, s1) \<Rightarrow> (Inr (map fromV1Worker v1workers), s1))"

definition official_DeleteWorker :: "'o v1_api \<Rightarrow> string \<Rightarrow> 'o \<Rightarrow> gerror option \<times> 'o" where
  "official_DeleteWorker api name s =
     (case workers_Delete api name s of
        (None, s1) \<Rightarrow> (None, s1)
      | (Some err, s1) \<Rightarrow>
          (if isNotFound err then (None, s1) else (Some (Wrap ''deleting worker'' err), s1)))"

definition official_Ping :: "'o v1_api \<Rightarrow> 'o \<Rightarrow> gerror option \<times> 'o" where
  "official_Ping api s = api_Check api s"

definition officialClient :: "v1_consts \<Rightarrow> 'o v1_api \<Rightarrow> 'o orchard_client" where
  "officialClient k api =
     \<lparr>CreateVM = official_CreateVM k api, GetVM = official_GetVM k api,
      ListVMs = official_ListVMs k api, DeleteVM = official_DeleteVM api,
      ListWorkers = official_ListWorkers api, DeleteWorker = official_DeleteWorker api,
      Ping = official_Ping api\<rparr>"

text \<open>A VM in a terminal state occupies no slot: the test the code repeats at every count.\<close>

definition vm_terminal :: "VM \<Rightarrow> bool" where
  "vm_terminal vm \<longleftrightarrow> vStatus vm = VMStatusStopped \<or> vStatus vm = VMStatusFailed"

lemmas status_defs = VMStatusCreating_def VMStatusRunning_def VMStatusStopped_def VMStatusFailed_def

subsection \<open>Lemmas\<close>

lemma toV1VM_labels [simp]: "v1Labels (toV1VM k vm) = vLabels vm"
proof -
  have "map_len m = 0 \<longleftrightarrow> m = fmempty" for m :: labels
    by (auto simp: map_len_def) (metis fmrestrict_fset_dom fmrestrict_fset_null)
  then show ?thesis by (simp add: toV1VM_def Let_def split: option.split)
qed

lemma toV1VM_fields [simp]:
  "v1Name (toV1VM k vm) = vName vm" "v1Image (toV1VM k vm) = vImage vm"
  "v1CPU (toV1VM k vm) = vCPU vm" "v1Memory (toV1VM k vm) = vMemory vm"
  "v1DiskSize (toV1VM k vm) = vDiskSize vm" "v1Nested (toV1VM k vm) = vNested vm"
  "v1StartupScript (toV1VM k vm) = vStartupScript vm"
  "v1RestartPolicy (toV1VM k vm) = RestartPolicyNever k"
  "v1Status (toV1VM k vm) = []" "v1StatusMessage (toV1VM k vm) = []"
  "v1Worker (toV1VM k vm) = []" "v1CreatedAt (toV1VM k vm) = 0"
  by (simp_all add: toV1VM_def Let_def split: option.split)

lemma fromV1Script_id [simp]: "fromV1Script s = s"
  by (simp add: fromV1Script_def split: option.split)

subsection \<open>Properties\<close>

text \<open>A VM specification survives the conversion to the library's type and back: everything a
  caller specifies comes back unchanged, and exactly the fields Orchard owns (status, status
  message, worker and creation time) are blank. This is what \<open>CreateVM\<close> returns when the read
  after the creation fails.\<close>

theorem v1_roundtrip:
  "fromV1VM k (toV1VM k vm) =
     vm\<lparr>vStatus := mapV1Status k [], vStatusMessage := [], vWorker := [], vCreatedAt := 0\<rparr>"
  by (simp add: fromV1VM_def)

end
