(* ===== verification/Worker_Model.thy ===== *)
theory Worker_Model
  imports Orchard_Client
begin

text \<open>
  Workers as capacity: \<^verbatim>\<open>bridge/worker.go\<close> (which workers are live), the label matchers and the
  slot counts of \<^verbatim>\<open>bridge/cleanup.go\<close>, \<^verbatim>\<open>bridge/stateview.go\<close> and \<^verbatim>\<open>manager/manager.go\<close>.

  The code has three copies of the label test and three slot-summing loops. \<open>label_test\<close> and
  \<open>slot_counter\<close> state once what each copy promises; the interpretations show that every copy
  keeps it, and the clients use the shared lemmas.
\<close>

definition DefaultWorkerStaleAfter :: duration where
  "DefaultWorkerStaleAfter = 2 * minute"

definition WorkerLive :: "Worker \<Rightarrow> duration \<Rightarrow> gotime \<Rightarrow> bool" where
  "WorkerLive w staleAfter now =
     (if staleAfter \<le> 0 then True
      else if is_zero_time (wLastSeen w) then True
      else time_sub now (wLastSeen w) \<le> staleAfter)"

definition LiveWorkers :: "Worker list \<Rightarrow> duration \<Rightarrow> gotime \<Rightarrow> Worker list" where
  "LiveWorkers workers staleAfter now = filter (\<lambda>w. WorkerLive w staleAfter now) workers"

text \<open>Ranging over a Go map visits every entry once, in no fixed order; the three tests below
  return false at the first entry that differs.\<close>

definition range_all :: "(string \<Rightarrow> string \<Rightarrow> bool) \<Rightarrow> labels \<Rightarrow> bool" where
  "range_all P m \<longleftrightarrow> fBall (fmdom m) (\<lambda>k. P k (map_get m k))"

definition workerMatchesLabels :: "Worker \<Rightarrow> labels \<Rightarrow> bool" where
  "workerMatchesLabels w vmLabels = range_all (\<lambda>k v. map_get (wLabels w) k = v) vmLabels"

definition labelsSuperset :: "labels \<Rightarrow> labels \<Rightarrow> bool" where
  "labelsSuperset have_l want_l = range_all (\<lambda>k v. map_get have_l k = v) want_l"

definition workerMatchesAllLabels :: "Worker \<Rightarrow> labels \<Rightarrow> bool" where
  "workerMatchesAllLabels w want_l = range_all (\<lambda>k v. map_get (wLabels w) k = v) want_l"

definition resourceTartVMs :: string where
  "resourceTartVMs = ''org.cirruslabs.tart-vms''"

definition CapacityForLabels :: "Worker list \<Rightarrow> labels \<Rightarrow> int" where
  "CapacityForLabels workers vmLabels =
     foldl (\<lambda>total w.
        if wSchedulingPaused w then total
        else if \<not> workerMatchesLabels w vmLabels then total
        else case fmlookup (wResources w) resourceTartVMs of
               Some n \<Rightarrow> wrap64 (total + sint n)
             | None \<Rightarrow> total) 0 workers"

text \<open>The total \<open>pushMaxCapacity\<close> hands to \<open>SetMax\<close>.\<close>

definition maxCapacityTotal :: "Worker list \<Rightarrow> int" where
  "maxCapacityTotal workers =
     foldl (\<lambda>total w.
        if wSchedulingPaused w then total
        else case fmlookup (wResources w) resourceTartVMs of
               Some n \<Rightarrow> wrap64 (total + sint n)
             | None \<Rightarrow> total) 0 workers"

text \<open>The loop of \<open>discoverCapacity\<close>, over the workers it found live.\<close>

definition discoverTotal :: "Worker list \<Rightarrow> int" where
  "discoverTotal workers =
     foldl (\<lambda>total w.
        case fmlookup (wResources w) resourceTartVMs of
          Some n \<Rightarrow> wrap64 (total + sint n)
        | None \<Rightarrow> total) 0 workers"

text \<open>Slots a worker advertises, and their exact sum over a fleet.\<close>

definition worker_slots :: "Worker \<Rightarrow> int" where
  "worker_slots w = (case fmlookup (wResources w) resourceTartVMs of
     Some n \<Rightarrow> uint n | None \<Rightarrow> 0)"

definition fleet_slots :: "Worker list \<Rightarrow> int" where
  "fleet_slots ws = (\<Sum>w\<leftarrow>ws. worker_slots w)"

subsection \<open>Live workers\<close>

lemma LiveWorkers_subset: "set (LiveWorkers ws d t) \<subseteq> set ws"
  by (auto simp: LiveWorkers_def)

lemma LiveWorkers_iff: "w \<in> set (LiveWorkers ws d t) \<longleftrightarrow> w \<in> set ws \<and> WorkerLive w d t"
  by (simp add: LiveWorkers_def)

lemma WorkerLive_mono:
  assumes "WorkerLive w d t" and "0 < d" and "d \<le> e"
  shows "WorkerLive w e t"
  using assms by (auto simp: WorkerLive_def split: if_splits)

lemma WorkerLive_antimono_time:
  assumes "WorkerLive w d t" and "u \<le> t"
  shows "WorkerLive w d u"
  using assms by (auto simp: WorkerLive_def time_sub_def split: if_splits)

lemma not_live_stale:
  "\<not> WorkerLive w d t \<longleftrightarrow> 0 < d \<and> wLastSeen w \<noteq> 0 \<and> d < time_sub t (wLastSeen w)"
  by (auto simp: WorkerLive_def is_zero_time_def)

subsection \<open>Label tests\<close>

lemma range_all_iff:
  "range_all P m \<longleftrightarrow> (\<forall>k v. fmlookup m k = Some v \<longrightarrow> P k v)"
  unfolding range_all_def map_get_def
  by (auto simp: fmdom_notI dest: fmdomI split: option.split)

locale label_test =
  fixes test :: "labels \<Rightarrow> labels \<Rightarrow> bool"
  assumes test_iff: "test h w \<longleftrightarrow> (\<forall>k v. fmlookup w k = Some v \<longrightarrow> map_get h k = v)"
begin

lemma test_empty [simp]: "test h fmempty"
  by (simp add: test_iff)

lemma test_refl [simp]: "test h h"
  by (simp add: test_iff map_get_def)

lemma test_upd:
  "test h (fmupd k v w) \<longleftrightarrow> map_get h k = v \<and> test h (fmdrop k w)"
  by (auto simp: test_iff)

lemma test_mono:
  assumes "test h w" and "w' \<subseteq>\<^sub>f w"
  shows "test h w'"
  using assms by (auto simp: test_iff fmsubset_alt_def fmpred_iff)

end

interpretation worker_match: label_test "\<lambda>h. workerMatchesLabels \<lparr>wName = n, wLabels = h,
    wResources = r, wSchedulingPaused = p, wLastSeen = t\<rparr>" for n r p t
  by unfold_locales (simp add: workerMatchesLabels_def range_all_iff)

interpretation manager_match: label_test "\<lambda>h. workerMatchesAllLabels \<lparr>wName = n, wLabels = h,
    wResources = r, wSchedulingPaused = p, wLastSeen = t\<rparr>" for n r p t
  by unfold_locales (simp add: workerMatchesAllLabels_def range_all_iff)

interpretation superset_match: label_test labelsSuperset
  by unfold_locales (simp add: labelsSuperset_def range_all_iff)

lemma workerMatchesLabels_superset: "workerMatchesLabels w l = labelsSuperset (wLabels w) l"
  by (simp add: workerMatchesLabels_def labelsSuperset_def)

lemma workerMatchesAllLabels_superset: "workerMatchesAllLabels w l = labelsSuperset (wLabels w) l"
  by (simp add: workerMatchesAllLabels_def labelsSuperset_def)

lemmas matches_superset = workerMatchesLabels_superset workerMatchesAllLabels_superset

subsection \<open>Slot counts\<close>

lemma worker_slots_nonneg [simp]: "0 \<le> worker_slots w"
  by (simp add: worker_slots_def split: option.split)

lemma fleet_slots_simps [simp]:
  "fleet_slots [] = 0"
  "fleet_slots (w # ws) = worker_slots w + fleet_slots ws"
  "fleet_slots (ws @ vs) = fleet_slots ws + fleet_slots vs"
  by (simp_all add: fleet_slots_def)

lemma fleet_slots_nonneg [simp]: "0 \<le> fleet_slots ws"
  by (induction ws) simp_all

lemma fleet_slots_filter_le: "fleet_slots (filter P ws) \<le> fleet_slots ws"
  by (induction ws) (simp_all add: add_increasing)

lemma fleet_slots_filter_mono:
  assumes "\<And>w. w \<in> set ws \<Longrightarrow> P w \<Longrightarrow> Q w"
  shows "fleet_slots (filter P ws) \<le> fleet_slots (filter Q ws)"
  using assms by (induction ws) (auto simp: add_increasing)

locale slot_counter =
  fixes count :: "Worker list \<Rightarrow> int"
    and counted :: "Worker \<Rightarrow> bool"
  assumes count_Nil: "count [] = 0"
    and count_snoc: "count (ws @ [w]) =
      (if counted w then
         case fmlookup (wResources w) resourceTartVMs of
           Some n \<Rightarrow> wrap64 (count ws + sint n) | None \<Rightarrow> count ws
       else count ws)"
begin

lemma count_filter: "count (filter counted ws) = count ws"
  by (induction ws rule: rev_induct) (simp_all add: count_Nil count_snoc split: option.split)

lemma count_exact:
  assumes "fleet_slots (filter counted ws) < 2 ^ 63"
  shows "count ws = fleet_slots (filter counted ws)"
  using assms
proof (induction ws rule: rev_induct)
  case Nil
  then show ?case by (simp add: count_Nil)
next
  case (snoc w ws)
  let ?f = "fleet_slots (filter counted ws)"
  have le: "?f \<le> fleet_slots (filter counted (ws @ [w]))" by simp
  then have IH: "count ws = ?f" using snoc by linarith
  show ?case
  proof (cases "counted w")
    case False
    then show ?thesis using IH by (simp add: count_snoc)
  next
    case True
    then have tot: "?f + worker_slots w < 2 ^ 63" using snoc.prems by simp
    show ?thesis
    proof (cases "fmlookup (wResources w) resourceTartVMs")
      case None
      then show ?thesis using True IH by (simp add: count_snoc worker_slots_def)
    next
      case (Some n)
      then have n: "?f + uint n < 2 ^ 63" using tot by (simp add: worker_slots_def)
      moreover have "0 \<le> ?f" "0 \<le> uint n" by simp_all
      ultimately have "sint n = uint n" "wrap64 (?f + uint n) = ?f + uint n"
        by (intro sint_u64_small wrap64_id; linarith)+
      then show ?thesis using True Some IH by (simp add: count_snoc worker_slots_def)
    qed
  qed
qed

lemma count_nonneg: "fleet_slots (filter counted ws) < 2 ^ 63 \<Longrightarrow> 0 \<le> count ws"
  by (simp add: count_exact)

lemma count_bounded: "fleet_slots ws < 2 ^ 63 \<Longrightarrow> 0 \<le> count ws \<and> count ws \<le> fleet_slots ws"
  using fleet_slots_filter_le [of counted ws] by (simp add: count_exact)

end

interpretation label_count: slot_counter "\<lambda>ws. CapacityForLabels ws l"
    "\<lambda>w. \<not> wSchedulingPaused w \<and> workerMatchesLabels w l" for l
  by unfold_locales (simp_all add: CapacityForLabels_def split: option.split)

interpretation max_count: slot_counter maxCapacityTotal "\<lambda>w. \<not> wSchedulingPaused w"
  by unfold_locales (simp_all add: maxCapacityTotal_def split: option.split)

interpretation discover_count: slot_counter discoverTotal "\<lambda>w. True"
  by unfold_locales (simp_all add: discoverTotal_def split: option.split)

end
