(* ===== verification/VM_Naming.thy ===== *)
theory VM_Naming
  imports Orchard_Client
begin

text \<open>
  \<^verbatim>\<open>bridge/vm.go\<close>: how VM names are generated from scale-set names, and the startup script.

  A scale-set name is sanitised rune by rune: \<open>strings.ToLower\<close> and then the replacement of
  every rune outside \<^verbatim>\<open>[a-z0-9-]\<close> by one hyphen. \<open>utf8_runes\<close> decodes the bytes as Go does (an
  invalid byte is one rune \<open>0xFFFD\<close>). Outside ASCII only U+0130 and U+212A lower to an ASCII
  letter; every other such rune stays outside ASCII and becomes a hyphen, so \<open>lower_rune\<close> leaves
  it alone. The UUID comes from a third-party package and is an argument; \<open>uuid_ok\<close> is its
  documented form.
\<close>

definition vmNamePrefix :: string where
  "vmNamePrefix = ''gha-orchard-''"

definition IsManagedVM :: "string \<Rightarrow> bool" where
  "IsManagedVM name = has_prefix name vmNamePrefix"

definition utf8_cont :: "nat \<Rightarrow> bool" where
  "utf8_cont b \<longleftrightarrow> 128 \<le> b \<and> b \<le> 191"

definition decode_rune :: "nat \<Rightarrow> nat list \<Rightarrow> nat \<times> nat" where
  "decode_rune b bs =
     (let bad = (65533, 0) in
      if b < 128 then (b, 0)
      else if 194 \<le> b \<and> b \<le> 223 then
        (case bs of
           c1 # _ \<Rightarrow> if utf8_cont c1 then ((b - 192) * 64 + (c1 - 128), 1) else bad
         | _ \<Rightarrow> bad)
      else if 224 \<le> b \<and> b \<le> 239 then
        (case bs of
           c1 # c2 # _ \<Rightarrow>
             if (if b = 224 then 160 else 128) \<le> c1 \<and> c1 \<le> (if b = 237 then 159 else 191)
                \<and> utf8_cont c2
             then ((b - 224) * 4096 + (c1 - 128) * 64 + (c2 - 128), 2) else bad
         | _ \<Rightarrow> bad)
      else if 240 \<le> b \<and> b \<le> 244 then
        (case bs of
           c1 # c2 # c3 # _ \<Rightarrow>
             if (if b = 240 then 144 else 128) \<le> c1 \<and> c1 \<le> (if b = 244 then 143 else 191)
                \<and> utf8_cont c2 \<and> utf8_cont c3
             then ((b - 240) * 262144 + (c1 - 128) * 4096 + (c2 - 128) * 64 + (c3 - 128), 3)
             else bad
         | _ \<Rightarrow> bad)
      else bad)"

fun utf8_runes :: "nat list \<Rightarrow> nat list" where
  "utf8_runes [] = []"
| "utf8_runes (b # bs) = (case decode_rune b bs of (r, n) \<Rightarrow> r # utf8_runes (drop n bs))"

definition lower_rune :: "nat \<Rightarrow> nat" where
  "lower_rune r =
     (if 65 \<le> r \<and> r \<le> 90 then r + 32
      else if r = 304 then 105
      else if r = 8490 then 107
      else r)"

definition alnum_hyphen :: "nat \<Rightarrow> bool" where
  "alnum_hyphen r \<longleftrightarrow> (97 \<le> r \<and> r \<le> 122) \<or> (48 \<le> r \<and> r \<le> 57) \<or> r = 45"

definition sanitize_rune :: "nat \<Rightarrow> char" where
  "sanitize_rune r =
     (let l = lower_rune r in if alnum_hyphen l then char_of l else CHR ''-'')"

definition VMNamePrefixForScaleSet :: "string \<Rightarrow> string" where
  "VMNamePrefixForScaleSet scaleSetName =
     (let sanitized = map sanitize_rune (utf8_runes (map of_char scaleSetName));
          sanitized = trim_left CHR ''-'' (trim_right CHR ''-'' sanitized)
      in vmNamePrefix @ sanitized @ ''-'')"

definition VMName :: "string \<Rightarrow> string \<Rightarrow> string" where
  "VMName scaleSetName uuid =
     (let short = take 8 uuid;
          name = VMNamePrefixForScaleSet scaleSetName @ short
      in if 63 < length name then trim_right CHR ''-'' (take 63 name) else name)"

definition uuid_ok :: "string \<Rightarrow> bool" where
  "uuid_ok u \<longleftrightarrow> length u = 36 \<and>
     list_all (\<lambda>c. c \<in> set ''0123456789abcdef'') (take 8 u)"

definition label_safe :: "string \<Rightarrow> bool" where
  "label_safe s \<longleftrightarrow> s \<noteq> [] \<and> length s \<le> 63 \<and>
     list_all (\<lambda>c. alnum_hyphen (of_char c)) s \<and> hd s \<noteq> CHR ''-'' \<and> last s \<noteq> CHR ''-''"

text \<open>The startup script. \<open>text_lines\<close> joins lines with newlines; \<open>dec_int\<close> is \<^verbatim>\<open>%d\<close>.\<close>

definition newline :: char where "newline = CHR 0x0A"

fun text_lines :: "string list \<Rightarrow> string" where
  "text_lines [] = []"
| "text_lines [l] = l"
| "text_lines (l # ls) = l @ [newline] @ text_lines ls"

fun dec_nat :: "nat \<Rightarrow> string" where
  "dec_nat n = (if n < 10 then [char_of (48 + n)] else dec_nat (n div 10) @ [char_of (48 + n mod 10)])"

declare dec_nat.simps [simp del]

definition dec_int :: "int \<Rightarrow> string" where
  "dec_int i = (if i < 0 then CHR ''-'' # dec_nat (nat (- i)) else dec_nat (nat i))"

definition docker_setup :: "int \<Rightarrow> string" where
  "docker_setup dockerPort =
     text_lines
       [[],
        ''# Install Docker CLI and connect to host Docker daemon via TCP'',
        ''# stdin must be redirected: Orchard pipes the script to bash, and brew'',
        ''# would otherwise consume the remaining script lines from stdin.'',
        ''brew install docker docker-compose docker-buildx < /dev/null'',
        [],
        ''# Register Compose/Buildx as Docker CLI plugins (brew installs them outside'',
        ''# the default plugin search path).'',
        ''mkdir -p ~/.docker'',
        ''echo '{\"cliPluginsExtraDirs\":[\"/opt/homebrew/lib/docker/cli-plugins\"]}' > ~/.docker/config.json'',
        [],
        ''DOCKER_HOST_IP=$(route -n get default | awk '/gateway:/ {print $2}')'',
        ''export DOCKER_HOST=\"tcp://${DOCKER_HOST_IP}:''] @
     dec_int dockerPort @
     text_lines
       [''\"'',
        []]"

definition StartupScript :: "string \<Rightarrow> int \<Rightarrow> string" where
  "StartupScript jitConfig dockerPort =
     (let dockerSetup = (if 0 < dockerPort then docker_setup dockerPort else []) in
     text_lines
       [''#!/bin/bash'',
        ''set -euo pipefail'',
        [],
        ''export ACTIONS_RUNNER_INPUT_JITCONFIG=\"''] @
     jitConfig @
     text_lines
       [''\"'',
        [],
        ''source ~/.zprofile'',
        []] @
     dockerSetup @
     text_lines
       [[],
        ''# Download the latest GitHub Actions runner to avoid version deprecation.'',
        ''DOWNLOAD_URL=$(curl -sS 'https://api.github.com/repos/actions/runner/releases/latest' '' @ [CHR 0x5C],
        ''  | grep -o '\"browser_download_url\": *\"[^\"]*actions-runner-osx-arm64-[0-9.]*'' @ [CHR 0x5C] @ ''.tar'' @ [CHR 0x5C] @ ''.gz\"' '' @ [CHR 0x5C],
        ''  | cut -d'\"' -f4)'',
        [],
        ''RUNNER_DIR=\"$HOME/actions-runner\"'',
        ''rm -rf \"$RUNNER_DIR\" && mkdir -p \"$RUNNER_DIR\" && cd \"$RUNNER_DIR\"'',
        ''curl -sL \"$DOWNLOAD_URL\" | tar xz'',
        [],
        ''./run.sh'',
        []])"

text \<open>The test \<open>Snapshot.ManagedVMsForScaleSet\<close> applies to one name: the scale set's prefix,
  followed by a remainder without a hyphen.\<close>

definition nameForScaleSet :: "string \<Rightarrow> string \<Rightarrow> bool" where
  "nameForScaleSet scaleSetName name =
     (let prefix = VMNamePrefixForScaleSet scaleSetName in
      if \<not> has_prefix name prefix then False
      else if CHR ''-'' \<in> set (drop (length prefix) name) then False
      else True)"

text \<open>The sanitised scale-set name inside the prefix, for the proofs.\<close>

definition sanitized :: "string \<Rightarrow> string" where
  "sanitized ss = trim_left CHR ''-'' (trim_right CHR ''-''
     (map sanitize_rune (utf8_runes (map of_char ss))))"

subsection \<open>Trimming\<close>

lemma trim_right_append:
  assumes "x \<in> set ys" and "x \<noteq> c"
  shows "trim_right c (xs @ ys) = xs @ trim_right c ys"
  using assms by (simp add: trim_right_def dropWhile_append1 [where x = x])

lemma trim_right_last: "trim_right c s = [] \<or> last (trim_right c s) \<noteq> c"
  by (metis (mono_tags, lifting) hd_dropWhile last_rev rev_is_Nil_conv trim_right_def)

lemma set_trim_right: "set (trim_right c s) \<subseteq> set s"
  by (auto simp: trim_right_def dest: set_dropWhileD)

lemma length_trim_right: "length (trim_right c s) \<le> length s"
  using length_dropWhile_le [of _ "rev s"] by (simp add: trim_right_def)

lemma trim_right_id: "s = [] \<or> last s \<noteq> c \<Longrightarrow> trim_right c s = s"
  by (cases s rule: rev_cases) (simp_all add: trim_right_def)

lemma set_trim_left: "set (trim_left c s) \<subseteq> set s"
  by (auto simp: trim_left_def dest: set_dropWhileD)

lemma trim_left_hd: "trim_left c s = [] \<or> hd (trim_left c s) \<noteq> c"
  by (metis (mono_tags, lifting) hd_dropWhile trim_left_def)

subsection \<open>Shape of the prefix\<close>

lemma prefix_eq: "VMNamePrefixForScaleSet ss = vmNamePrefix @ sanitized ss @ ''-''"
  by (simp add: VMNamePrefixForScaleSet_def sanitized_def)

lemma vmNamePrefix_length [simp]: "length vmNamePrefix = 12"
  by (simp add: vmNamePrefix_def)

lemma prefix_length: "length (VMNamePrefixForScaleSet ss) = 13 + length (sanitized ss)"
  by (simp add: prefix_eq)

lemma sanitize_rune_ok: "alnum_hyphen (of_char (sanitize_rune r))"
proof -
  have "of_char (char_of l :: char) = l" if "alnum_hyphen l" for l :: nat
  proof -
    have "l < 256" using that by (auto simp: alnum_hyphen_def)
    then show ?thesis by simp
  qed
  then show ?thesis by (auto simp: sanitize_rune_def Let_def alnum_hyphen_def)
qed

lemma sanitized_chars: "c \<in> set (sanitized ss) \<Longrightarrow> alnum_hyphen (of_char c)"
  using set_trim_left set_trim_right sanitize_rune_ok unfolding sanitized_def by fastforce

lemma sanitized_hyphen_chars: "\<forall>c\<in>set (sanitized ss @ ''-''). alnum_hyphen (of_char c)"
  using sanitized_chars by (auto simp: alnum_hyphen_def)

lemma sanitized_hd: "sanitized ss = [] \<or> hd (sanitized ss) \<noteq> CHR ''-''"
  unfolding sanitized_def by (rule trim_left_hd)

lemma prefix_chars: "c \<in> set (VMNamePrefixForScaleSet ss) \<Longrightarrow> alnum_hyphen (of_char c)"
  using sanitized_chars by (auto simp: prefix_eq vmNamePrefix_def alnum_hyphen_def)

lemma hex_ok: "c \<in> set ''0123456789abcdef'' \<Longrightarrow> alnum_hyphen (of_char c) \<and> c \<noteq> CHR ''-''"
  by (auto simp: alnum_hyphen_def)

lemma uuid_short:
  assumes "uuid_ok u"
  shows "length (take 8 u) = 8" and "CHR ''-'' \<notin> set (take n (take 8 u))"
    and "c \<in> set (take 8 u) \<Longrightarrow> alnum_hyphen (of_char c)"
proof -
  have hex: "alnum_hyphen (of_char c) \<and> c \<noteq> CHR ''-''" if "c \<in> set (take 8 u)" for c
    using assms that by (intro hex_ok) (simp add: uuid_ok_def list_all_iff del: set_simps)
  show "length (take 8 u) = 8" using assms by (simp add: uuid_ok_def)
  show "CHR ''-'' \<notin> set (take n (take 8 u))"
    using hex [of "CHR ''-''"] in_set_takeD by fast
  show "c \<in> set (take 8 u) \<Longrightarrow> alnum_hyphen (of_char c)" using hex by blast
qed

subsection \<open>Generated names\<close>

lemma VMName_short:
  assumes "length (VMNamePrefixForScaleSet ss) \<le> 55" and "uuid_ok u"
  shows "VMName ss u = VMNamePrefixForScaleSet ss @ take 8 u"
  using assms uuid_short(1) [of u] by (simp add: VMName_def Let_def)

lemma VMName_cut:
  assumes "55 < length (VMNamePrefixForScaleSet ss)" "length (VMNamePrefixForScaleSet ss) < 63"
    and "uuid_ok u"
  shows "VMName ss u =
    VMNamePrefixForScaleSet ss @ take (63 - length (VMNamePrefixForScaleSet ss)) (take 8 u)"
proof -
  let ?p = "VMNamePrefixForScaleSet ss" and ?s = "take 8 u"
  let ?r = "take (63 - length ?p) ?s"
  have len: "length ?s = 8" and hy: "CHR ''-'' \<notin> set ?r"
    using uuid_short [OF assms(3)] by blast+
  have "?r \<noteq> []" using assms(2) len by auto
  then obtain x where x: "x \<in> set ?r" "x \<noteq> CHR ''-''" using hy by (metis last_in_set)
  have "trim_right CHR ''-'' ?r = ?r"
    using hy by (intro trim_right_id) (metis last_in_set)
  then have "trim_right CHR ''-'' (?p @ ?r) = ?p @ ?r"
    using trim_right_append [OF x, of ?p] by (simp only:)
  moreover have "63 < length (?p @ ?s)" using assms(1) len by simp
  moreover have "take 63 (?p @ ?s) = ?p @ ?r" using assms(2) by simp
  ultimately show ?thesis by (simp add: VMName_def Let_def del: append_assoc take_take)
qed

lemma VMName_long:
  assumes "63 \<le> length (VMNamePrefixForScaleSet ss)" and "uuid_ok u"
  shows "VMName ss u = trim_right CHR ''-'' (take 63 (VMNamePrefixForScaleSet ss))"
  using assms uuid_short(1) [of u] by (simp add: VMName_def Let_def)

text \<open>For every length of prefix, the name is the prefix and some of the UUID's first eight
  digits, as long as the prefix leaves room for one.\<close>

lemma VMName_shape:
  assumes "length (VMNamePrefixForScaleSet ss) \<le> 62" and "uuid_ok u"
  obtains r where "VMName ss u = VMNamePrefixForScaleSet ss @ r" and "CHR ''-'' \<notin> set r"
    and "r \<noteq> []" and "\<forall>c\<in>set r. alnum_hyphen (of_char c)"
    and "length (VMNamePrefixForScaleSet ss) + length r \<le> 63"
proof -
  let ?p = "VMNamePrefixForScaleSet ss"
  let ?r = "take (min 8 (63 - length ?p)) (take 8 u)"
  note u = uuid_short [OF assms(2)]
  have "VMName ss u = ?p @ ?r"
    using assms VMName_short [of ss u] VMName_cut [of ss u]
    by (cases "length ?p \<le> 55") (auto simp: min_def)
  moreover have "?r \<noteq> []" using u(1) assms(1) by auto
  moreover have "length ?p + length ?r \<le> 63" using u(1) assms(1) by auto
  moreover have "\<forall>c\<in>set ?r. alnum_hyphen (of_char c)" using u(3) in_set_takeD by fast
  ultimately show thesis using u(2) by (intro that)
qed

lemma split_last_sep:
  assumes "p @ [c] @ r = q @ [c] @ s" and "c \<notin> set r" and "c \<notin> set s"
  shows "p = q \<and> r = s"
  using assms
proof (induction p arbitrary: q)
  case Nil
  then show ?case by (cases q) auto
next
  case (Cons x p)
  then show ?case by (cases q) auto
qed

lemma prefix_snoc: "VMNamePrefixForScaleSet ss = (vmNamePrefix @ sanitized ss) @ [CHR ''-'']"
  by (simp add: prefix_eq)

lemma nameForScaleSet_append:
  assumes "CHR ''-'' \<notin> set r"
  shows "nameForScaleSet ss' (VMNamePrefixForScaleSet ss @ r) \<longleftrightarrow>
    VMNamePrefixForScaleSet ss' = VMNamePrefixForScaleSet ss"
proof
  let ?p = "VMNamePrefixForScaleSet ss" and ?p' = "VMNamePrefixForScaleSet ss'"
  assume "nameForScaleSet ss' (?p @ r)"
  then have "has_prefix (?p @ r) ?p'" "CHR ''-'' \<notin> set (drop (length ?p') (?p @ r))"
    by (simp_all add: nameForScaleSet_def Let_def split: if_splits)
  then obtain r' where r': "?p @ r = ?p' @ r'" "CHR ''-'' \<notin> set r'"
    by (metis append_eq_conv_conj has_prefix_iff)
  then have "vmNamePrefix @ sanitized ss = vmNamePrefix @ sanitized ss' \<and> r = r'"
    using assms by (intro split_last_sep [where c = "CHR ''-''"]) (simp_all add: prefix_snoc)
  then show "?p' = ?p" by (simp add: prefix_eq)
next
  assume "VMNamePrefixForScaleSet ss' = VMNamePrefixForScaleSet ss"
  then show "nameForScaleSet ss' (VMNamePrefixForScaleSet ss @ r)"
    using assms by (simp add: nameForScaleSet_def Let_def)
qed

lemma nameForScaleSet_managed: "nameForScaleSet ss name \<Longrightarrow> IsManagedVM name"
  by (auto simp: nameForScaleSet_def IsManagedVM_def has_prefix_iff prefix_eq Let_def
      split: if_splits)

lemma VMName_long_body:
  assumes "63 \<le> length (VMNamePrefixForScaleSet ss)" and "uuid_ok u"
  obtains r where "VMName ss u = vmNamePrefix @ r" and "r \<noteq> []" and "length r \<le> 51"
    and "\<forall>c\<in>set r. alnum_hyphen (of_char c)" and "last r \<noteq> CHR ''-''"
proof -
  let ?b = "take 51 (sanitized ss @ ''-'')"
  have len: "50 \<le> length (sanitized ss)" using assms(1) by (simp add: prefix_length)
  have hd: "hd (sanitized ss) \<noteq> CHR ''-''" using sanitized_hd [of ss] len by auto
  have x: "hd (sanitized ss) \<in> set ?b" using len by (cases "sanitized ss") auto
  have "take 63 (VMNamePrefixForScaleSet ss) = vmNamePrefix @ ?b" by (simp add: prefix_eq)
  then have eq: "VMName ss u = vmNamePrefix @ trim_right CHR ''-'' ?b"
    using VMName_long [OF assms] trim_right_append [OF x hd] by simp
  have ne: "trim_right CHR ''-'' ?b \<noteq> []"
    using x hd by (auto simp: trim_right_def dropWhile_eq_Nil_conv)
  show thesis
  proof (rule that [OF eq ne])
    show "length (trim_right CHR ''-'' ?b) \<le> 51"
      using length_trim_right [of "CHR ''-''" ?b] by simp
    show "last (trim_right CHR ''-'' ?b) \<noteq> CHR ''-''" using ne trim_right_last by blast
    have "set (trim_right CHR ''-'' ?b) \<subseteq> set (sanitized ss @ ''-'')"
      using set_trim_right [of "CHR ''-''" ?b] set_take_subset [of 51 "sanitized ss @ ''-''"] by blast
    then show "\<forall>c\<in>set (trim_right CHR ''-'' ?b). alnum_hyphen (of_char c)"
      using sanitized_hyphen_chars [of ss] by blast
  qed
qed

lemma VMName_body:
  assumes "uuid_ok u"
  obtains r where "VMName ss u = vmNamePrefix @ r" and "r \<noteq> []" and "length r \<le> 51"
    and "\<forall>c\<in>set r. alnum_hyphen (of_char c)" and "last r \<noteq> CHR ''-''"
proof (cases "length (VMNamePrefixForScaleSet ss) \<le> 62")
  case True
  then obtain r where r: "VMName ss u = VMNamePrefixForScaleSet ss @ r" "CHR ''-'' \<notin> set r" "r \<noteq> []"
      "\<forall>c\<in>set r. alnum_hyphen (of_char c)"
      "length (VMNamePrefixForScaleSet ss) + length r \<le> 63"
    using VMName_shape [OF True assms] by metis
  show thesis
  proof (rule that)
    show "VMName ss u = vmNamePrefix @ (sanitized ss @ ''-'' @ r)" using r(1) by (simp add: prefix_eq)
    show "length (sanitized ss @ ''-'' @ r) \<le> 51" using r(5) by (simp add: prefix_length)
    show "last (sanitized ss @ ''-'' @ r) \<noteq> CHR ''-''" using r(2,3) by (cases r rule: rev_cases) auto
    show "\<forall>c\<in>set (sanitized ss @ ''-'' @ r). alnum_hyphen (of_char c)"
      using sanitized_hyphen_chars [of ss] r(4) by auto
  qed simp
next
  case False
  then have "63 \<le> length (VMNamePrefixForScaleSet ss)" by simp
  then show thesis using VMName_long_body [OF _ assms] that by metis
qed

lemma utf8_runes_ascii: "\<forall>b\<in>set bs. b < 128 \<Longrightarrow> utf8_runes bs = bs"
  by (induction bs) (simp_all add: decode_rune_def Let_def)

lemma prefix_ascii:
  assumes "\<forall>c\<in>set ss. of_char c < (128 :: nat)"
  shows "VMNamePrefixForScaleSet ss = vmNamePrefix @ trim_left CHR ''-'' (trim_right CHR ''-''
     (map (\<lambda>c. sanitize_rune (of_char c)) ss)) @ ''-''"
  using assms by (simp add: VMNamePrefixForScaleSet_def utf8_runes_ascii o_def)

lemmas prefix_eval = prefix_ascii vmNamePrefix_def trim_left_def trim_right_def sanitize_rune_def
  lower_rune_def alnum_hyphen_def Let_def char_of_def bit_0

subsection \<open>Properties\<close>

text \<open>C38. Every generated VM name is a valid Kubernetes label value (at most 63 characters from
  \<^verbatim>\<open>[a-z0-9-]\<close>, no hyphen at either end) and is recognised as managed, whatever the scale set is
  called.\<close>

theorem VMName_label_safe:
  assumes "uuid_ok u"
  shows "label_safe (VMName ss u) \<and> IsManagedVM (VMName ss u)"
proof -
  obtain r where r: "VMName ss u = vmNamePrefix @ r" "r \<noteq> []" "length r \<le> 51"
      "\<forall>c\<in>set r. alnum_hyphen (of_char c)" "last r \<noteq> CHR ''-''"
    using VMName_body [OF assms] by metis
  have "hd vmNamePrefix \<noteq> CHR ''-''" "vmNamePrefix \<noteq> []"
    "\<forall>c\<in>set vmNamePrefix. alnum_hyphen (of_char c)"
    by (simp_all add: vmNamePrefix_def alnum_hyphen_def)
  then show ?thesis
    using r by (auto simp: label_safe_def IsManagedVM_def list_all_iff hd_append)
qed

theorem VMName_label_safe_witness:
  "label_safe (VMName ''macOS Tahoe!'' ''0a1b2c3d-0000-4000-8000-000000000000'') \<and>
   IsManagedVM (VMName ''macOS Tahoe!'' ''0a1b2c3d-0000-4000-8000-000000000000'')"
  by (rule VMName_label_safe) (simp add: uuid_ok_def)

text \<open>C37. Hydration finds exactly its own VMs: as long as the scale set's prefix leaves room for
  one UUID digit, a VM created for scale set \<open>ss\<close> is attributed to scale set \<open>ss'\<close> exactly
  when both have the same prefix. A VM of \<^verbatim>\<open>foo-large\<close> is never taken for one of \<^verbatim>\<open>foo\<close>.\<close>

theorem VMName_owner:
  assumes "uuid_ok u" and "length (VMNamePrefixForScaleSet ss) \<le> 62"
  shows "nameForScaleSet ss' (VMName ss u) \<longleftrightarrow>
    VMNamePrefixForScaleSet ss' = VMNamePrefixForScaleSet ss"
proof -
  obtain r where "VMName ss u = VMNamePrefixForScaleSet ss @ r" "CHR ''-'' \<notin> set r"
    using VMName_shape [OF assms(2,1)] by metis
  then show ?thesis by (simp add: nameForScaleSet_append)
qed

theorem VMName_owner_witness:
  "nameForScaleSet ''foo'' (VMName ''Foo'' ''0a1b2c3d-0000-4000-8000-000000000000'') \<and>
   \<not> nameForScaleSet ''foo'' (VMName ''foo-large'' ''0a1b2c3d-0000-4000-8000-000000000000'')"
proof -
  let ?u = "''0a1b2c3d-0000-4000-8000-000000000000''"
  have u: "uuid_ok ?u" by (simp add: uuid_ok_def)
  have p: "VMNamePrefixForScaleSet ''foo'' = ''gha-orchard-foo-''"
    "VMNamePrefixForScaleSet ''Foo'' = ''gha-orchard-foo-''"
    "VMNamePrefixForScaleSet ''foo-large'' = ''gha-orchard-foo-large-''"
    by (simp_all add: prefix_eval)
  show ?thesis
    using VMName_owner [OF u, of "''Foo''" "''foo''"] VMName_owner [OF u, of "''foo-large''" "''foo''"]
    by (simp add: p)
qed

text \<open>C36. Names are unique per UUID prefix while the scale-set prefix has at most 55 characters;
  once it has 63 or more, the UUID is cut off entirely: every VM of the scale set gets the same
  name, and hydration does not recognise it.\<close>

theorem VMName_uniqueness:
  assumes "uuid_ok u" and "uuid_ok v"
  shows "(length (VMNamePrefixForScaleSet ss) \<le> 55 \<longrightarrow>
           (VMName ss u = VMName ss v \<longleftrightarrow> take 8 u = take 8 v)) \<and>
         (63 \<le> length (VMNamePrefixForScaleSet ss) \<longrightarrow>
           VMName ss u = VMName ss v \<and> \<not> nameForScaleSet ss (VMName ss u))"
proof (intro conjI impI)
  assume "length (VMNamePrefixForScaleSet ss) \<le> 55"
  then show "VMName ss u = VMName ss v \<longleftrightarrow> take 8 u = take 8 v"
    using assms by (simp add: VMName_short)
next
  assume long: "63 \<le> length (VMNamePrefixForScaleSet ss)"
  show "VMName ss u = VMName ss v" using VMName_long [OF long] assms by simp
  obtain r where r: "VMName ss u = vmNamePrefix @ r" "length r \<le> 51" "last r \<noteq> CHR ''-''" "r \<noteq> []"
    using VMName_long_body [OF long assms(1)] by metis
  show "\<not> nameForScaleSet ss (VMName ss u)"
  proof
    assume "nameForScaleSet ss (VMName ss u)"
    then have "has_prefix (VMName ss u) (VMNamePrefixForScaleSet ss)"
      by (simp add: nameForScaleSet_def Let_def split: if_splits)
    then obtain q where q: "vmNamePrefix @ r = VMNamePrefixForScaleSet ss @ q"
      using r(1) by (auto simp: has_prefix_iff)
    then have "12 + length r = length (VMNamePrefixForScaleSet ss) + length q"
      using vmNamePrefix_length by (metis length_append)
    then have "length (VMNamePrefixForScaleSet ss) + length q \<le> 63" using r(2) by linarith
    then have "length q = 0" using long by linarith
    then have "q = []" by simp
    then have "r = sanitized ss @ ''-''" using q by (simp add: prefix_eq)
    then show False using r(3) by simp
  qed
qed

theorem VMName_uniqueness_witness:
  "VMName (replicate 50 CHR ''a'') ''0a1b2c3d-0000-4000-8000-000000000000'' =
   VMName (replicate 50 CHR ''a'') ''ffffffff-0000-4000-8000-000000000000'' \<and>
   VMName ''ci'' ''0a1b2c3d-0000-4000-8000-000000000000'' \<noteq>
   VMName ''ci'' ''ffffffff-0000-4000-8000-000000000000''"
proof -
  let ?u = "''0a1b2c3d-0000-4000-8000-000000000000''"
  let ?v = "''ffffffff-0000-4000-8000-000000000000''"
  have u: "uuid_ok ?u" "uuid_ok ?v" by (simp_all add: uuid_ok_def)
  have "length (VMNamePrefixForScaleSet (replicate 50 CHR ''a'')) = 63"
    "length (VMNamePrefixForScaleSet ''ci'') = 15"
    by (simp_all add: prefix_eval map_replicate_const)
  then show ?thesis
    using VMName_uniqueness [OF u, of "replicate 50 CHR ''a''"] VMName_uniqueness [OF u, of "''ci''"]
    by simp
qed

end
