(* ===== verification/Autosize_Model.thy ===== *)
theory Autosize_Model
  imports Worker_Model VM_Naming
begin

text \<open>
  \<^verbatim>\<open>bridge/autosize.go\<close>: which workers an AutoSize scale set may use, which of them are free,
  and how large a VM each one gets. Sizes are 64-bit words, so the reserve subtraction is the
  code's wrapping one and its guards are what keeps it from wrapping.
\<close>

definition resourceLogicalCores :: string where
  "resourceLogicalCores = ''org.cirruslabs.logical-cores''"

definition resourceMemoryMiB :: string where
  "resourceMemoryMiB = ''org.cirruslabs.memory-mib''"

definition PinLabelKey :: string where
  "PinLabelKey = ''orchard-gh-bridge/worker-name''"

definition DefaultAutoSizeReserveCPU :: u64 where "DefaultAutoSizeReserveCPU = 4"
definition DefaultAutoSizeReserveMemoryMiB :: u64 where "DefaultAutoSizeReserveMemoryMiB = 4096"

definition ExclusionSchedulingPaused :: string where
  "ExclusionSchedulingPaused = ''scheduling_paused''"
definition ExclusionMissingPinLabel :: string where
  "ExclusionMissingPinLabel = ''missing_pin_label''"
definition ExclusionDuplicatePinLabel :: string where
  "ExclusionDuplicatePinLabel = ''duplicate_pin_label''"
definition ExclusionMissingResources :: string where
  "ExclusionMissingResources = ''missing_resources''"
definition ExclusionBelowReserves :: string where
  "ExclusionBelowReserves = ''below_reserves''"

definition PinIdentity :: "Worker \<Rightarrow> string" where
  "PinIdentity w = map_get (wLabels w) PinLabelKey"

definition PinCounts :: "Worker list \<Rightarrow> (string, nat) fmap" where
  "PinCounts workers =
     foldl (\<lambda>out w. let pin = PinIdentity w in
        if pin \<noteq> [] then
          fmupd pin (Suc (case fmlookup out pin of None \<Rightarrow> 0 | Some n \<Rightarrow> n)) out
        else out) fmempty workers"

definition AutoSizeExclusionReason ::
    "Worker \<Rightarrow> (string, nat) fmap \<Rightarrow> u64 \<Rightarrow> u64 \<Rightarrow> string" where
  "AutoSizeExclusionReason w pinCounts reserveCPU reserveMemMiB =
     (if wSchedulingPaused w then ExclusionSchedulingPaused
      else let pin = PinIdentity w in
        if pin = [] then ExclusionMissingPinLabel
        else if 1 < (case fmlookup pinCounts pin of None \<Rightarrow> 0 | Some n \<Rightarrow> n)
          then ExclusionDuplicatePinLabel
        else case (fmlookup (wResources w) resourceLogicalCores,
                   fmlookup (wResources w) resourceMemoryMiB) of
               (Some cores, Some mem) \<Rightarrow>
                 if cores \<le> reserveCPU \<or> mem \<le> reserveMemMiB then ExclusionBelowReserves
                 else []
             | _ \<Rightarrow> ExclusionMissingResources)"

definition autoSizeCandidates :: "Worker list \<Rightarrow> labels \<Rightarrow> u64 \<Rightarrow> u64 \<Rightarrow> Worker list" where
  "autoSizeCandidates workers vmLabels reserveCPU reserveMemMiB =
     (let counts = PinCounts workers in
      filter (\<lambda>w. workerMatchesLabels w vmLabels \<and>
                  AutoSizeExclusionReason w counts reserveCPU reserveMemMiB = []) workers)"

definition WorkerCountForLabels :: "Worker list \<Rightarrow> labels \<Rightarrow> u64 \<Rightarrow> u64 \<Rightarrow> int" where
  "WorkerCountForLabels workers vmLabels reserveCPU reserveMemMiB =
     int (length (autoSizeCandidates workers vmLabels reserveCPU reserveMemMiB))"

definition managedPinIdentities :: "VM list \<Rightarrow> Worker list \<Rightarrow> string set" where
  "managedPinIdentities vms workers =
     (let pinByName = foldl (\<lambda>m w. fmupd (wName w) (PinIdentity w) m) fmempty workers in
      foldl (\<lambda>out vm.
        if \<not> IsManagedVM (vName vm) then out
        else if vStatus vm = VMStatusStopped \<or> vStatus vm = VMStatusFailed then out
        else case (if vWorker vm \<noteq> [] then fmlookup pinByName (vWorker vm) else None) of
               Some pin \<Rightarrow> if pin \<noteq> [] then insert pin out else out
             | None \<Rightarrow> let target = map_get (vLabels vm) PinLabelKey in
                 if target \<noteq> [] then insert target out else out) {} vms)"

definition freeAutoSizeWorkers ::
    "Worker list \<Rightarrow> VM list \<Rightarrow> labels \<Rightarrow> u64 \<Rightarrow> u64 \<Rightarrow> Worker list" where
  "freeAutoSizeWorkers workers vms vmLabels reserveCPU reserveMemMiB =
     (let inUse = managedPinIdentities vms workers;
          candidates = autoSizeCandidates workers vmLabels reserveCPU reserveMemMiB
      in filter (\<lambda>w. PinIdentity w \<notin> inUse) candidates)"

definition AutoSizedVM :: "Worker \<Rightarrow> u64 \<Rightarrow> u64 \<Rightarrow> gerror + u64 \<times> u64" where
  "AutoSizedVM w reserveCPU reserveMemMiB =
     (let cores = (case fmlookup (wResources w) resourceLogicalCores of None \<Rightarrow> 0 | Some n \<Rightarrow> n);
          mem = (case fmlookup (wResources w) resourceMemoryMiB of None \<Rightarrow> 0 | Some n \<Rightarrow> n) in
      if cores = 0 \<or> mem = 0 then Inl (Opaque ''missing logical-cores or memory-mib resource'')
      else if cores \<le> reserveCPU then Inl (Opaque ''reserve would leave VM with 0 cores'')
      else if mem \<le> reserveMemMiB then Inl (Opaque ''reserve would leave VM with 0 MiB'')
      else Inr (cores - reserveCPU, mem - reserveMemMiB))"

definition AutoSizeReserves :: "u64 \<Rightarrow> u64 \<Rightarrow> u64 \<times> u64" where
  "AutoSizeReserves cpu memMiB =
     (let cpu = (if cpu = 0 then DefaultAutoSizeReserveCPU else cpu);
          memMiB = (if memMiB = 0 then DefaultAutoSizeReserveMemoryMiB else memMiB)
      in (cpu, memMiB))"

text \<open>Specification side: the VMs that occupy a machine, and the identity each one holds.\<close>

definition vm_occupies :: "VM \<Rightarrow> bool" where
  "vm_occupies vm \<longleftrightarrow> IsManagedVM (vName vm) \<and> \<not> vm_terminal vm"

definition held_pin :: "Worker list \<Rightarrow> VM \<Rightarrow> string" where
  "held_pin workers vm =
     (if vWorker vm \<noteq> [] \<and> vWorker vm \<in> wName ` set workers
      then PinIdentity (last (filter (\<lambda>w. wName w = vWorker vm) workers))
      else map_get (vLabels vm) PinLabelKey)"

text \<open>A worker and a VM for the witnesses.\<close>

definition ex_worker :: "string \<Rightarrow> string \<Rightarrow> Worker" where
  "ex_worker name pin = \<lparr>wName = name, wLabels = fmap_of_list [(PinLabelKey, pin)],
     wResources = fmap_of_list [(resourceTartVMs, 1), (resourceLogicalCores, 10),
       (resourceMemoryMiB, 32768)],
     wSchedulingPaused = False, wLastSeen = 0\<rparr>"

definition ex_vm :: "string \<Rightarrow> string \<Rightarrow> string \<Rightarrow> string \<Rightarrow> VM" where
  "ex_vm name status worker pin = \<lparr>vName = name, vImage = ''img'', vCPU = 4, vMemory = 8192,
     vNested = False, vDiskSize = 0, vStatus = status, vStatusMessage = [], vWorker = worker,
     vStartupScript = None, vLabels = fmap_of_list [(PinLabelKey, pin)], vCreatedAt = 1\<rparr>"

lemmas exclusion_defs = ExclusionSchedulingPaused_def ExclusionMissingPinLabel_def
  ExclusionDuplicatePinLabel_def ExclusionMissingResources_def ExclusionBelowReserves_def

subsection \<open>Pin counts\<close>

lemma PinCounts_lookup:
  "fmlookup (PinCounts ws) p =
    (let n = length (filter (\<lambda>w. PinIdentity w = p) ws) in
     if p = [] \<or> n = 0 then None else Some n)"
proof (induction ws rule: rev_induct)
  case Nil
  then show ?case by (simp add: PinCounts_def)
next
  case (snoc w ws)
  then show ?case by (auto simp: PinCounts_def Let_def split: if_splits option.splits)
qed

lemma PinCounts_le_one:
  assumes "p \<noteq> []" and "\<not> 1 < (case fmlookup (PinCounts ws) p of None \<Rightarrow> 0 | Some n \<Rightarrow> n)"
  shows "length (filter (\<lambda>w. PinIdentity w = p) ws) \<le> 1"
  using assms by (auto simp: PinCounts_lookup Let_def split: if_splits)

lemma filter_le_one_unique:
  assumes "length (filter P xs) \<le> 1" and "i < length xs" "j < length xs" and "P (xs ! i)" "P (xs ! j)"
  shows "i = j"
proof (rule ccontr)
  assume "i \<noteq> j"
  then have "card {i, j} = 2" by simp
  moreover have "{i, j} \<subseteq> {k. k < length xs \<and> P (xs ! k)}" using assms by auto
  ultimately have "2 \<le> card {k. k < length xs \<and> P (xs ! k)}"
    by (metis card_mono finite_Collect_conjI finite_Collect_less_nat)
  then show False using assms(1) by (simp add: length_filter_conv_card)
qed

subsection \<open>Eligibility\<close>

lemma eligible_iff:
  "AutoSizeExclusionReason w counts rc rm = [] \<longleftrightarrow>
     \<not> wSchedulingPaused w \<and> PinIdentity w \<noteq> [] \<and>
     \<not> 1 < (case fmlookup counts (PinIdentity w) of None \<Rightarrow> 0 | Some n \<Rightarrow> n) \<and>
     (\<exists>cores mem. fmlookup (wResources w) resourceLogicalCores = Some cores \<and>
        fmlookup (wResources w) resourceMemoryMiB = Some mem \<and> rc < cores \<and> rm < mem)"
  by (auto simp: AutoSizeExclusionReason_def exclusion_defs Let_def not_le split: option.split)

lemma candidates_iff:
  "w \<in> set (autoSizeCandidates ws l rc rm) \<longleftrightarrow>
     w \<in> set ws \<and> workerMatchesLabels w l \<and> AutoSizeExclusionReason w (PinCounts ws) rc rm = []"
  by (auto simp: autoSizeCandidates_def Let_def)

lemma candidates_distinct_pins: "distinct (map PinIdentity (autoSizeCandidates ws l rc rm))"
proof -
  let ?P = "\<lambda>w. workerMatchesLabels w l \<and> AutoSizeExclusionReason w (PinCounts ws) rc rm = []"
  have "distinct (map PinIdentity (filter ?P vs))"
    if "\<And>w. w \<in> set vs \<Longrightarrow> ?P w \<Longrightarrow> length (filter (\<lambda>v. PinIdentity v = PinIdentity w) vs) \<le> 1"
    for vs
    using that
  proof (induction vs)
    case Nil
    then show ?case by simp
  next
    case (Cons v vs)
    have tail: "length (filter (\<lambda>u. PinIdentity u = PinIdentity w) vs) \<le> 1"
      if "w \<in> set vs" "?P w" for w
      using Cons.prems [of w] that by (simp split: if_splits)
    have "PinIdentity v \<notin> PinIdentity ` set (filter ?P vs)" if "?P v"
    proof
      assume "PinIdentity v \<in> PinIdentity ` set (filter ?P vs)"
      then obtain u where "u \<in> set vs" "PinIdentity u = PinIdentity v" by auto
      then have "filter (\<lambda>u. PinIdentity u = PinIdentity v) vs \<noteq> []"
        by (auto simp: filter_empty_conv)
      then show False using Cons.prems [of v] that by (simp add: Suc_le_eq)
    qed
    then show ?case using Cons.IH tail by auto
  qed
  moreover have "length (filter (\<lambda>v. PinIdentity v = PinIdentity w) ws) \<le> 1"
    if "w \<in> set ws" "?P w" for w
    using that PinCounts_le_one [of "PinIdentity w" ws] by (simp add: eligible_iff)
  ultimately show ?thesis unfolding autoSizeCandidates_def Let_def by blast
qed

lemma candidate_fits:
  assumes "w \<in> set (autoSizeCandidates ws l rc rm)"
  obtains cores mem where "fmlookup (wResources w) resourceLogicalCores = Some cores"
    and "fmlookup (wResources w) resourceMemoryMiB = Some mem"
    and "rc < cores" and "rm < mem"
    and "AutoSizedVM w rc rm = Inr (cores - rc, mem - rm)"
proof -
  obtain cores mem where r: "fmlookup (wResources w) resourceLogicalCores = Some cores"
      "fmlookup (wResources w) resourceMemoryMiB = Some mem" "rc < cores" "rm < mem"
    using assms by (auto simp: candidates_iff eligible_iff)
  moreover have "cores \<noteq> 0" "mem \<noteq> 0" using r(3,4) by auto
  ultimately show thesis using that by (simp add: AutoSizedVM_def Let_def not_le)
qed

lemma free_candidates:
  "set (freeAutoSizeWorkers ws vms l rc rm) \<subseteq> set (autoSizeCandidates ws l rc rm)"
  by (auto simp: freeAutoSizeWorkers_def Let_def)

lemma free_distinct_pins: "distinct (map PinIdentity (freeAutoSizeWorkers ws vms l rc rm))"
  using candidates_distinct_pins by (simp add: freeAutoSizeWorkers_def Let_def distinct_map_filter)

subsection \<open>Identities in use\<close>

lemma pinByName_lookup:
  "fmlookup (foldl (\<lambda>m w. fmupd (wName w) (PinIdentity w) m) fmempty ws) n =
    (if n \<in> wName ` set ws then Some (PinIdentity (last (filter (\<lambda>w. wName w = n) ws))) else None)"
  by (induction ws rule: rev_induct) auto

lemma managedPin_iff:
  "p \<in> managedPinIdentities vms ws \<longleftrightarrow>
     p \<noteq> [] \<and> (\<exists>vm \<in> set vms. vm_occupies vm \<and> held_pin ws vm = p)"
proof -
  have "p \<in> managedPinIdentities vms ws \<longleftrightarrow>
    (\<exists>vm \<in> set vms. vm_occupies vm \<and> held_pin ws vm \<noteq> [] \<and> held_pin ws vm = p)"
    unfolding managedPinIdentities_def Let_def pinByName_lookup
    by (induction vms rule: rev_induct)
      (auto simp: vm_occupies_def vm_terminal_def held_pin_def split: if_splits)
  then show ?thesis by auto
qed

lemma free_not_held:
  assumes "w \<in> set (freeAutoSizeWorkers ws vms l rc rm)" and "vm \<in> set vms" and "vm_occupies vm"
  shows "held_pin ws vm \<noteq> PinIdentity w"
proof -
  have "PinIdentity w \<noteq> []"
    using assms(1) free_candidates by (fastforce simp: candidates_iff eligible_iff)
  moreover have "PinIdentity w \<notin> managedPinIdentities vms ws"
    using assms(1) by (simp add: freeAutoSizeWorkers_def Let_def)
  ultimately show ?thesis using assms(2,3) by (auto simp: managedPin_iff)
qed

lemma unique_pin_iff:
  assumes "w \<in> set ws" and "PinIdentity w \<noteq> []"
  shows "\<not> 1 < (case fmlookup (PinCounts ws) (PinIdentity w) of None \<Rightarrow> 0 | Some n \<Rightarrow> n) \<longleftrightarrow>
    length (filter (\<lambda>v. PinIdentity v = PinIdentity w) ws) = 1"
proof -
  have "filter (\<lambda>v. PinIdentity v = PinIdentity w) ws \<noteq> []"
    using assms(1) by (auto simp: filter_empty_conv)
  then have n: "0 < length (filter (\<lambda>v. PinIdentity v = PinIdentity w) ws)" by simp
  then have e: "(case fmlookup (PinCounts ws) (PinIdentity w) of None \<Rightarrow> 0 | Some n \<Rightarrow> n) =
      length (filter (\<lambda>v. PinIdentity v = PinIdentity w) ws)"
    using assms(2) by (simp add: PinCounts_lookup Let_def)
  show ?thesis unfolding e using n by linarith
qed

lemma free_iff:
  "w \<in> set (freeAutoSizeWorkers ws vms l rc rm) \<longleftrightarrow>
     w \<in> set (autoSizeCandidates ws l rc rm) \<and>
     (\<forall>vm\<in>set vms. vm_occupies vm \<longrightarrow> held_pin ws vm \<noteq> PinIdentity w)"
proof -
  have "PinIdentity w \<noteq> []" if "w \<in> set (autoSizeCandidates ws l rc rm)"
    using that by (simp add: candidates_iff eligible_iff)
  then show ?thesis by (auto simp: freeAutoSizeWorkers_def Let_def managedPin_iff)
qed

lemmas autosize_eval = ex_worker_def ex_vm_def freeAutoSizeWorkers_def autoSizeCandidates_def
  managedPinIdentities_def AutoSizeExclusionReason_def PinCounts_def PinIdentity_def
  workerMatchesLabels_superset labelsSuperset_def range_all_def AutoSizedVM_def
  resourceLogicalCores_def resourceMemoryMiB_def resourceTartVMs_def PinLabelKey_def
  exclusion_defs status_defs IsManagedVM_def has_prefix_def vmNamePrefix_def map_get_def

subsection \<open>Properties\<close>

text \<open>C23. The free AutoSize workers are exactly the live workers that match the scale set's labels,
  are not paused, are the only holder of their pin identity, have more cores and memory than the
  reserves, and whose identity no non-terminal managed VM holds, neither through the worker it
  runs on nor (pending, or on a vanished worker) through its own pin label.\<close>

theorem freeAutoSizeWorkers_spec:
  "w \<in> set (freeAutoSizeWorkers ws vms l rc rm) \<longleftrightarrow>
     w \<in> set ws \<and> workerMatchesLabels w l \<and> \<not> wSchedulingPaused w \<and> PinIdentity w \<noteq> [] \<and>
     length (filter (\<lambda>v. PinIdentity v = PinIdentity w) ws) = 1 \<and>
     (\<exists>cores mem. fmlookup (wResources w) resourceLogicalCores = Some cores \<and>
        fmlookup (wResources w) resourceMemoryMiB = Some mem \<and> rc < cores \<and> rm < mem) \<and>
     (\<forall>vm\<in>set vms. vm_occupies vm \<longrightarrow> held_pin ws vm \<noteq> PinIdentity w)"
  using unique_pin_iff [of w ws] by (auto simp: free_iff candidates_iff eligible_iff)

theorem freeAutoSizeWorkers_spec_witness:
  "vm_occupies (ex_vm ''gha-orchard-ci-1'' ''running'' ''old-name'' ''mini-1'') \<and>
   held_pin [ex_worker ''a'' ''mini-1'', ex_worker ''b'' ''mini-2'']
     (ex_vm ''gha-orchard-ci-1'' ''running'' ''old-name'' ''mini-1'') \<noteq>
   PinIdentity (ex_worker ''b'' ''mini-2'')"
proof -
  let ?vm = "ex_vm ''gha-orchard-ci-1'' ''running'' ''old-name'' ''mini-1''"
  have "ex_worker ''b'' ''mini-2'' \<in> set (freeAutoSizeWorkers
      [ex_worker ''a'' ''mini-1'', ex_worker ''b'' ''mini-2''] [?vm] fmempty 4 4096)"
    by (simp add: autosize_eval)
  moreover have "vm_occupies ?vm"
    by (simp add: vm_occupies_def vm_terminal_def autosize_eval)
  ultimately show ?thesis by (subst (asm) freeAutoSizeWorkers_spec) simp
qed

text \<open>Sizing never fails or wraps on a worker the bridge can pick: the VM gets exactly the
  advertised cores and memory minus the reserves, and at least one of each, so the skip branch of
  the scale-up loop is never taken.\<close>

theorem AutoSizedVM_exact:
  assumes "w \<in> set (freeAutoSizeWorkers ws vms l rc rm)"
  shows "\<exists>cpu mem cores total. AutoSizedVM w rc rm = Inr (cpu, mem) \<and>
    fmlookup (wResources w) resourceLogicalCores = Some cores \<and>
    fmlookup (wResources w) resourceMemoryMiB = Some total \<and>
    unat cpu + unat rc = unat cores \<and> unat mem + unat rm = unat total \<and> 0 < unat cpu \<and> 0 < unat mem"
proof -
  obtain cores mem where r: "fmlookup (wResources w) resourceLogicalCores = Some cores"
      "fmlookup (wResources w) resourceMemoryMiB = Some mem" "rc < cores" "rm < mem"
      "AutoSizedVM w rc rm = Inr (cores - rc, mem - rm)"
    using candidate_fits [OF subsetD [OF free_candidates assms]] by metis
  have "unat (cores - rc) = unat cores - unat rc" "unat (mem - rm) = unat mem - unat rm"
    using r(3,4) by (simp_all add: unat_sub)
  moreover have "unat rc < unat cores" "unat rm < unat mem"
    using r(3,4) by (simp_all add: word_less_nat_alt)
  ultimately have "unat (cores - rc) + unat rc = unat cores" "unat (mem - rm) + unat rm = unat mem"
    "0 < unat (cores - rc)" "0 < unat (mem - rm)" by linarith+
  then show ?thesis using r(1,2,5) by blast
qed

theorem AutoSizedVM_exact_witness:
  "\<exists>cpu mem cores total. AutoSizedVM (ex_worker ''b'' ''mini-2'') 4 4096 = Inr (cpu, mem) \<and>
    fmlookup (wResources (ex_worker ''b'' ''mini-2'')) resourceLogicalCores = Some cores \<and>
    fmlookup (wResources (ex_worker ''b'' ''mini-2'')) resourceMemoryMiB = Some total \<and>
    unat cpu + unat (4 :: u64) = unat cores \<and> unat mem + unat (4096 :: u64) = unat total \<and>
    0 < unat cpu \<and> 0 < unat mem"
  by (rule AutoSizedVM_exact [where ws = "[ex_worker ''b'' ''mini-2'']" and vms = "[]" and l = fmempty])
    (simp add: autosize_eval)

end
