(* ===== verification/State_View.thy ===== *)
theory State_View
  imports Autosize_Model
begin

text \<open>
  \<^verbatim>\<open>bridge/stateview.go\<close>: the cached view of Orchard that scaling, cleanup and share recomputation
  read. \<open>Get\<close> here is the call of a goroutine that finds no refresh in flight: a cache hit, or the
  refresh it leads, with every external call threading the external state \<open>'o\<close>. The
  coalescing of concurrent calls is the subject of \<open>State_View_Conc\<close>.

  \<open>snapshot_provider\<close> is the contract the callers use: no snapshot means an error, every snapshot
  handed out is well formed (its worker list is the live part of the full list), and every
  operation keeps that.
\<close>

record 'o env = "'o orchard_client" +
  time_Now :: "'o \<Rightarrow> gotime \<times> 'o"
  uuid_New :: "'o \<Rightarrow> string \<times> 'o"

record Snapshot =
  sVMs :: "VM list"
  sWorkers :: "Worker list"
  sAllWorkers :: "Worker list"
  sFetchedAt :: gotime
  sWorkersByName :: "(string, Worker) fmap"

record StateView =
  ttl :: duration
  staleAfter :: duration
  snap :: "Snapshot option"
  lastErr :: "gerror option"

definition DefaultStateViewTTL :: duration where
  "DefaultStateViewTTL = 5 * second"

definition NewStateView :: "duration \<Rightarrow> duration \<Rightarrow> StateView" where
  "NewStateView ttl0 staleAfter0 =
     \<lparr>ttl = (if ttl0 \<le> 0 then DefaultStateViewTTL else ttl0),
      staleAfter = (if staleAfter0 \<le> 0 then DefaultWorkerStaleAfter else staleAfter0),
      snap = None, lastErr = None\<rparr>"

definition newSnapshot :: "VM list \<Rightarrow> Worker list \<Rightarrow> gotime \<Rightarrow> duration \<Rightarrow> Snapshot" where
  "newSnapshot vms workers at stale =
     (let live = LiveWorkers workers stale at;
          idx = foldl (\<lambda>idx w. fmupd (wName w) w idx) fmempty live
      in \<lparr>sVMs = vms, sWorkers = live, sAllWorkers = workers, sFetchedAt = at,
          sWorkersByName = idx\<rparr>)"

definition refresh :: "'o env \<Rightarrow> StateView \<Rightarrow> 'o \<Rightarrow> (gerror + Snapshot) \<times> 'o" where
  "refresh E s st =
     (case ListVMs E st of
        (Inl err, st1) \<Rightarrow> (Inl err, st1)
      | (Inr vms, st1) \<Rightarrow>
          (case ListWorkers E st1 of
             (Inl err, st2) \<Rightarrow> (Inl err, st2)
           | (Inr workers, st2) \<Rightarrow>
               (case time_Now E st2 of
                  (now, st3) \<Rightarrow> (Inr (newSnapshot vms workers now (staleAfter s)), st3))))"

definition fresh_snap :: "'o env \<Rightarrow> StateView \<Rightarrow> 'o \<Rightarrow> Snapshot option \<times> 'o" where
  "fresh_snap E s st =
     (case snap s of
        None \<Rightarrow> (None, st)
      | Some sn \<Rightarrow>
          (case time_Now E st of
             (now, st1) \<Rightarrow>
               (if time_sub now (sFetchedAt sn) < ttl s then Some sn else None, st1)))"

definition Get :: "'o env \<Rightarrow> StateView \<Rightarrow> 'o \<Rightarrow>
    (Snapshot option \<times> gerror option) \<times> StateView \<times> 'o" where
  "Get E s st =
     (case fresh_snap E s st of
        (Some sn, st1) \<Rightarrow> ((Some sn, None), s, st1)
      | (None, st1) \<Rightarrow>
          (let lastSnap = snap s in
           case refresh E s st1 of
             (Inl err, st2) \<Rightarrow> ((lastSnap, Some err), s\<lparr>lastErr := Some err\<rparr>, st2)
           | (Inr sn, st2) \<Rightarrow> ((Some sn, None), s\<lparr>snap := Some sn, lastErr := None\<rparr>, st2)))"

definition Invalidate :: "StateView \<Rightarrow> StateView" where
  "Invalidate s = s\<lparr>snap := None\<rparr>"

definition ManagedVMsForScaleSet :: "Snapshot \<Rightarrow> string \<Rightarrow> VM list" where
  "ManagedVMsForScaleSet s scaleSetName =
     filter (\<lambda>vm. nameForScaleSet scaleSetName (vName vm)) (sVMs s)"

definition ManagedVMsMatchingLabels :: "Snapshot \<Rightarrow> labels \<Rightarrow> VM list" where
  "ManagedVMsMatchingLabels s vmLabels =
     filter (\<lambda>vm.
       if \<not> IsManagedVM (vName vm) then False
       else if vWorker vm \<noteq> [] then
         (case fmlookup (sWorkersByName s) (vWorker vm) of
            Some w \<Rightarrow> workerMatchesLabels w vmLabels
          | None \<Rightarrow> False)
       else labelsSuperset (vLabels vm) vmLabels) (sVMs s)"

text \<open>From \<^verbatim>\<open>bridge/bridge.go\<close>: VMs not in a terminal state.\<close>

definition countActiveVMs :: "VM list \<Rightarrow> int" where
  "countActiveVMs vms =
     foldl (\<lambda>n vm. if vStatus vm = VMStatusStopped \<or> vStatus vm = VMStatusFailed then n
                   else n + 1) 0 vms"

text \<open>Well-formedness.\<close>

definition snapshot_ok :: "duration \<Rightarrow> Snapshot \<Rightarrow> bool" where
  "snapshot_ok stale s \<longleftrightarrow>
     s = newSnapshot (sVMs s) (sAllWorkers s) (sFetchedAt s) stale"

definition view_ok :: "StateView \<Rightarrow> bool" where
  "view_ok s \<longleftrightarrow> 0 < ttl s \<and> 0 < staleAfter s \<and>
     (case snap s of None \<Rightarrow> True | Some sn \<Rightarrow> snapshot_ok (staleAfter s) sn)"

subsection \<open>Snapshots\<close>

lemma newSnapshot_fields [simp]:
  "sVMs (newSnapshot vms ws t d) = vms"
  "sWorkers (newSnapshot vms ws t d) = LiveWorkers ws d t"
  "sAllWorkers (newSnapshot vms ws t d) = ws"
  "sFetchedAt (newSnapshot vms ws t d) = t"
  by (simp_all add: newSnapshot_def Let_def)

lemma newSnapshot_ok [simp]: "snapshot_ok d (newSnapshot vms ws t d)"
  by (simp add: snapshot_ok_def)

lemma byName_lookup:
  "fmlookup (sWorkersByName (newSnapshot vms ws t d)) n =
    (if n \<in> wName ` set (LiveWorkers ws d t)
     then Some (last (filter (\<lambda>w. wName w = n) (LiveWorkers ws d t))) else None)"
proof -
  have "fmlookup (foldl (\<lambda>idx w. fmupd (wName w) w idx) fmempty vs) n =
      (if n \<in> wName ` set vs then Some (last (filter (\<lambda>w. wName w = n) vs)) else None)" for vs :: "Worker list"
    by (induction vs rule: rev_induct) auto
  then show ?thesis by (simp add: newSnapshot_def Let_def)
qed

lemma snapshot_ok_workers:
  assumes "snapshot_ok d s"
  shows "sWorkers s = LiveWorkers (sAllWorkers s) d (sFetchedAt s)"
  using assms newSnapshot_fields(2) unfolding snapshot_ok_def by metis

lemma snapshot_ok_live:
  "snapshot_ok d s \<Longrightarrow> w \<in> set (sWorkers s) \<Longrightarrow>
    w \<in> set (sAllWorkers s) \<and> WorkerLive w d (sFetchedAt s)"
  by (simp add: snapshot_ok_workers LiveWorkers_iff)

lemma snapshot_ok_byName:
  assumes "snapshot_ok d s" and "fmlookup (sWorkersByName s) n = Some w"
  shows "w \<in> set (sWorkers s)" and "wName w = n"
proof -
  let ?L = "LiveWorkers (sAllWorkers s) d (sFetchedAt s)"
  have "fmlookup (sWorkersByName (newSnapshot (sVMs s) (sAllWorkers s) (sFetchedAt s) d)) n = Some w"
    using assms unfolding snapshot_ok_def by metis
  then have n: "n \<in> wName ` set ?L" and w: "w = last (filter (\<lambda>w. wName w = n) ?L)"
    by (simp_all add: byName_lookup split: if_splits)
  from n have "filter (\<lambda>w. wName w = n) ?L \<noteq> []" by (auto simp: filter_empty_conv)
  then have "w \<in> set (filter (\<lambda>w. wName w = n) ?L)" using w last_in_set by metis
  then show "w \<in> set (sWorkers s)" "wName w = n"
    using snapshot_ok_workers [OF assms(1)] by simp_all
qed

lemma countActiveVMs_eq: "countActiveVMs vms = int (length (filter (\<lambda>vm. \<not> vm_terminal vm) vms))"
  by (induction vms rule: rev_induct) (simp_all add: countActiveVMs_def vm_terminal_def)

lemma countActiveVMs_nonneg [simp]: "0 \<le> countActiveVMs vms"
  by (simp add: countActiveVMs_eq)

lemma ManagedVMsForScaleSet_managed:
  "vm \<in> set (ManagedVMsForScaleSet s ss) \<Longrightarrow> vm \<in> set (sVMs s) \<and> IsManagedVM (vName vm)"
  by (auto simp: ManagedVMsForScaleSet_def nameForScaleSet_managed)

subsection \<open>Reading and invalidating\<close>

lemma refresh_ok:
  assumes "refresh E s st = (Inr sn, st')"
  shows "snapshot_ok (staleAfter s) sn"
  using assms by (auto simp: refresh_def split: prod.splits sum.splits)

lemma fresh_snap_cached: "fst (fresh_snap E s st) = Some sn \<Longrightarrow> snap s = Some sn"
  by (auto simp: fresh_snap_def split: option.splits prod.splits if_splits)

lemma Get_cases:
  obtains (hit) sn st1 where "fresh_snap E s st = (Some sn, st1)" and "snap s = Some sn"
      and "Get E s st = ((Some sn, None), s, st1)"
    | (refreshed) sn st1 st2 where "fresh_snap E s st = (None, st1)"
      and "refresh E s st1 = (Inr sn, st2)"
      and "Get E s st = ((Some sn, None), s\<lparr>snap := Some sn, lastErr := None\<rparr>, st2)"
    | (failed) err st1 st2 where "fresh_snap E s st = (None, st1)"
      and "refresh E s st1 = (Inl err, st2)"
      and "Get E s st = ((snap s, Some err), s\<lparr>lastErr := Some err\<rparr>, st2)"
  using fresh_snap_cached [of E s st]
  by (cases "fresh_snap E s st" rule: prod.exhaust; cases "fst (fresh_snap E s st)";
      cases "refresh E s (snd (fresh_snap E s st))"; cases "fst (refresh E s (snd (fresh_snap E s st)))")
    (auto simp: Get_def Let_def)

locale snapshot_provider =
  fixes inv :: "'s \<Rightarrow> bool"
    and good :: "'s \<Rightarrow> 'sn \<Rightarrow> bool"
    and get :: "'s \<Rightarrow> 'o \<Rightarrow> ('sn option \<times> 'e option) \<times> 's \<times> 'o"
    and invalidate :: "'s \<Rightarrow> 's"
    and cached :: "'s \<Rightarrow> 'sn option"
  assumes get_inv: "inv s \<Longrightarrow> get s st = (r, s', st') \<Longrightarrow> inv s'"
    and get_good: "inv s \<Longrightarrow> get s st = ((Some sn, e), s', st') \<Longrightarrow> good s sn"
    and get_none: "get s st = ((None, e), s', st') \<Longrightarrow> e \<noteq> None"
    and get_cached: "get s st = ((x, e), s', st') \<Longrightarrow> cached s' = x"
    and good_frame: "get s st = (r, s', st') \<Longrightarrow> good s' = good s"
    and invalidate_inv: "inv s \<Longrightarrow> inv (invalidate s)"
    and invalidate_good: "good (invalidate s) = good s"
    and invalidate_cached: "cached (invalidate s) = None"
begin

lemma error_free_has_snapshot:
  assumes "get s st = ((sn, None), s', st')"
  obtains x where "sn = Some x"
  using assms get_none [of s st None s' st'] that by (cases sn) simp_all

lemma get_twice_good:
  assumes "inv s" and "get s st = (r, s1, st1)" and "get s1 st1 = ((Some sn, e), s2, st2)"
  shows "good s sn"
  using assms get_inv get_good good_frame by metis

lemma get_after_invalidate:
  assumes "inv s" and "get (invalidate s) st = ((Some sn, e), s', st')"
  shows "good s sn \<and> inv s' \<and> cached s' = Some sn"
  using assms get_inv get_good get_cached invalidate_inv invalidate_good by metis

end

lemma view_ok_new [simp]: "view_ok (NewStateView t d)"
  by (simp add: view_ok_def NewStateView_def DefaultStateViewTTL_def DefaultWorkerStaleAfter_def
      second_def minute_def)

lemma Get_inv: "view_ok s \<Longrightarrow> Get E s st = (r, s', st') \<Longrightarrow> view_ok s'"
  by (cases rule: Get_cases [of E s st]) (auto simp: view_ok_def dest: refresh_ok split: option.splits)

lemma Get_good:
  "view_ok s \<Longrightarrow> Get E s st = ((Some sn, e), s', st') \<Longrightarrow> snapshot_ok (staleAfter s) sn"
  by (cases rule: Get_cases [of E s st]) (auto simp: view_ok_def dest: refresh_ok)

interpretation view: snapshot_provider view_ok "\<lambda>s. snapshot_ok (staleAfter s)" "Get E" Invalidate snap
  for E :: "'o env"
proof unfold_locales
  show "\<And>s st r s' st'. view_ok s \<Longrightarrow> Get E s st = (r, s', st') \<Longrightarrow> view_ok s'"
    by (rule Get_inv)
  show "\<And>s st sn e s' st'. view_ok s \<Longrightarrow> Get E s st = ((Some sn, e), s', st') \<Longrightarrow>
      snapshot_ok (staleAfter s) sn"
    by (rule Get_good)
  show "e \<noteq> None" if "Get E s st = ((None, e), s', st')" for s st e s' st'
    using that by (cases rule: Get_cases [of E s st]) auto
  show "snap s' = sn" if "Get E s st = ((sn, e), s', st')" for s st sn e s' st'
    using that by (cases rule: Get_cases [of E s st]) auto
  show "snapshot_ok (staleAfter s') = snapshot_ok (staleAfter s)"
    if "Get E s st = (r, s', st')" for s st r s' st'
    using that by (cases rule: Get_cases [of E s st]) auto
qed (auto simp: view_ok_def Invalidate_def)

end
