(* ===== verification/Capacity_Model.thy ===== *)
theory Capacity_Model
  imports Go_Prelude
begin

text \<open>
  \<^verbatim>\<open>bridge/capacity.go\<close>: the global VM slot counter all scale sets share. Every method holds the
  mutex for its whole body (\<open>SetMax\<close> up to the callback calls), so each is one atomic step.
  Callbacks are opaque values of type \<open>'cb\<close>: \<open>SetMax\<close> returns the ones to call.

  \<open>slot_pool\<close> is what the bridge and the cleanup loop rely on: an acquire grants what is asked
  up to what is free, a release gives back, and neither touches the limit. The interpretation
  \<open>cap\<close> shows that the 64-bit counter keeps it as long as \<open>cap_ok\<close> holds, that is, below
  \<open>2 ^ 62\<close> slots. \<open>pool_step\<close> interleaves any number of goroutines over one pool.
\<close>

record 'cb capacity =
  current :: int
  cmax :: int
  callbacks :: "'cb list"

definition NewCapacity :: "int \<Rightarrow> 'cb capacity" where
  "NewCapacity m = \<lparr>current = 0, cmax = m, callbacks = []\<rparr>"

definition OnWorkersChanged :: "'cb \<Rightarrow> 'cb capacity \<Rightarrow> 'cb capacity" where
  "OnWorkersChanged fn c = c\<lparr>callbacks := callbacks c @ [fn]\<rparr>"

definition TryAcquire :: "int \<Rightarrow> 'cb capacity \<Rightarrow> int \<times> 'cb capacity" where
  "TryAcquire n c =
     (let available = wrap64 (cmax c - current c) in
      if available \<le> 0 then (0, c)
      else let acquired = min n available in
           (acquired, c\<lparr>current := wrap64 (current c + acquired)\<rparr>))"

definition Release :: "int \<Rightarrow> 'cb capacity \<Rightarrow> 'cb capacity" where
  "Release n c =
     (let x = wrap64 (current c - n) in c\<lparr>current := (if x < 0 then 0 else x)\<rparr>)"

definition Available :: "'cb capacity \<Rightarrow> int" where
  "Available c = wrap64 (cmax c - current c)"

definition InUse :: "'cb capacity \<Rightarrow> int" where
  "InUse c = current c"

definition Reconcile :: "int \<Rightarrow> 'cb capacity \<Rightarrow> 'cb capacity" where
  "Reconcile actual c = c\<lparr>current := actual\<rparr>"

definition AdoptExisting :: "int \<Rightarrow> 'cb capacity \<Rightarrow> 'cb capacity" where
  "AdoptExisting n c = c\<lparr>current := wrap64 (current c + n)\<rparr>"

definition SetMax :: "int \<Rightarrow> 'cb capacity \<Rightarrow> 'cb capacity \<times> 'cb list" where
  "SetMax m c = (c\<lparr>cmax := m\<rparr>, if cmax c \<noteq> m then callbacks c else [])"

definition Max_slots :: "'cb capacity \<Rightarrow> int" where
  "Max_slots c = cmax c"

definition cap_ok :: "'cb capacity \<Rightarrow> bool" where
  "cap_ok c \<longleftrightarrow> 0 \<le> current c \<and> current c < 2 ^ 62 \<and> - (2 ^ 62) \<le> cmax c \<and> cmax c < 2 ^ 62"

text \<open>Goroutines \<open>0..<N\<close> sharing one pool: each acquires, or gives back slots it holds.\<close>

record 'cb pool_sys =
  pool :: "'cb capacity"
  held :: "nat \<Rightarrow> int"

inductive pool_step :: "nat \<Rightarrow> 'cb pool_sys \<Rightarrow> 'cb pool_sys \<Rightarrow> bool" for N where
  pool_acquire: "i < N \<Longrightarrow> 0 \<le> n \<Longrightarrow> TryAcquire n (pool s) = (a, c) \<Longrightarrow>
     pool_step N s (s\<lparr>pool := c, held := (held s)(i := held s i + a)\<rparr>)"
| pool_release: "i < N \<Longrightarrow> 0 \<le> m \<Longrightarrow> m \<le> held s i \<Longrightarrow>
     pool_step N s (s\<lparr>pool := Release m (pool s), held := (held s)(i := held s i - m)\<rparr>)"

inductive pool_reach :: "nat \<Rightarrow> 'cb capacity \<Rightarrow> 'cb pool_sys \<Rightarrow> bool" for N c0 where
  pool_start: "pool_reach N c0 \<lparr>pool = c0, held = (\<lambda>_. 0)\<rparr>"
| pool_next: "pool_reach N c0 s \<Longrightarrow> pool_step N s t \<Longrightarrow> pool_reach N c0 t"

subsection \<open>The interface\<close>

locale slot_pool =
  fixes invar :: "'c \<Rightarrow> bool"
    and used :: "'c \<Rightarrow> int"
    and limit :: "'c \<Rightarrow> int"
    and try_acquire :: "int \<Rightarrow> 'c \<Rightarrow> int \<times> 'c"
    and release :: "int \<Rightarrow> 'c \<Rightarrow> 'c"
  assumes acquire_amount: "invar c \<Longrightarrow> 0 \<le> n \<Longrightarrow>
      fst (try_acquire n c) = max 0 (min n (limit c - used c))"
    and acquire_used: "invar c \<Longrightarrow> 0 \<le> n \<Longrightarrow>
      used (snd (try_acquire n c)) = used c + fst (try_acquire n c)"
    and acquire_limit: "limit (snd (try_acquire n c)) = limit c"
    and release_used: "invar c \<Longrightarrow> 0 \<le> n \<Longrightarrow> n < 2 ^ 62 \<Longrightarrow>
      used (release n c) = max 0 (used c - n)"
    and release_limit: "limit (release n c) = limit c"
    and invar_acquire: "invar c \<Longrightarrow> 0 \<le> n \<Longrightarrow> invar (snd (try_acquire n c))"
    and invar_release: "invar c \<Longrightarrow> 0 \<le> n \<Longrightarrow> n < 2 ^ 62 \<Longrightarrow> invar (release n c)"
    and used_bounds: "invar c \<Longrightarrow> 0 \<le> used c \<and> used c < 2 ^ 62"
begin

lemma grant_bounds:
  assumes "invar c" and "0 \<le> n"
  shows "0 \<le> fst (try_acquire n c)" and "fst (try_acquire n c) \<le> n"
  using assms by (simp_all add: acquire_amount)

lemma grant_within_limit:
  assumes "invar c" and "0 \<le> n" and "0 < fst (try_acquire n c)"
  shows "used (snd (try_acquire n c)) \<le> limit c"
  using assms by (simp add: acquire_amount acquire_used)

lemma grant_keeps_within_limit:
  assumes "invar c" and "0 \<le> n" and "used c \<le> limit c"
  shows "used (snd (try_acquire n c)) \<le> limit c"
  using assms by (simp add: acquire_amount acquire_used)

lemma grant_small:
  assumes "invar c" and "0 \<le> n"
  shows "fst (try_acquire n c) < 2 ^ 62"
proof -
  have "used (snd (try_acquire n c)) < 2 ^ 62"
    using assms invar_acquire used_bounds by blast
  with assms show ?thesis using used_bounds [of c] by (simp add: acquire_used)
qed

lemma acquire_result:
  assumes "invar c" and "0 \<le> n" and "try_acquire n c = (a, c')"
  shows "invar c'" and "used c' = used c + a" and "limit c' = limit c"
    and "0 \<le> a" and "a \<le> n" and "a < 2 ^ 62"
    and "used c \<le> limit c \<Longrightarrow> used c' \<le> limit c"
  using assms(3) invar_acquire [OF assms(1,2)] acquire_used [OF assms(1,2)]
    acquire_limit [of n c] grant_bounds [OF assms(1,2)] grant_small [OF assms(1,2)]
    grant_keeps_within_limit [OF assms(1,2)] by simp_all

lemma batch_accounting:
  assumes ok: "invar c" and n: "0 \<le> n" and a: "try_acquire n c = (a, c')"
    and k: "0 \<le> k" "k \<le> a"
  shows "used (release (a - k) c') = used c + k"
proof -
  note r = acquire_result [OF ok n a]
  show ?thesis using r k used_bounds [OF ok] release_used [OF r(1), of "a - k"] by simp
qed

end

subsection \<open>The counter keeps it\<close>

lemma NewCapacity_sel [simp]:
  "current (NewCapacity m) = 0" "cmax (NewCapacity m) = m" "callbacks (NewCapacity m) = []"
  by (simp_all add: NewCapacity_def)

lemma TryAcquire_current [simp]: "cmax (snd (TryAcquire n c)) = cmax c"
  by (simp add: TryAcquire_def Let_def)

lemma Release_cmax [simp]: "cmax (Release n c) = cmax c"
  by (simp add: Release_def Let_def)

lemma available_exact: "cap_ok c \<Longrightarrow> wrap64 (cmax c - current c) = cmax c - current c"
  unfolding cap_ok_def by (rule wrap64_id) simp_all

lemma TryAcquire_amount:
  assumes "cap_ok c" and "0 \<le> n"
  shows "fst (TryAcquire n c) = max 0 (min n (cmax c - current c))"
  using assms by (simp add: TryAcquire_def available_exact Let_def)

lemma TryAcquire_used:
  assumes "cap_ok c" and "0 \<le> n"
  shows "current (snd (TryAcquire n c)) = current c + fst (TryAcquire n c)"
proof -
  have "wrap64 (current c + min n (cmax c - current c)) = current c + min n (cmax c - current c)"
    if "0 < cmax c - current c"
    using assms that by (intro wrap64_id) (auto simp: cap_ok_def)
  then show ?thesis using assms by (simp add: TryAcquire_def available_exact Let_def)
qed

lemma Release_used:
  assumes "cap_ok c" and "0 \<le> n" and "n < 2 ^ 62"
  shows "current (Release n c) = max 0 (current c - n)"
proof -
  have "wrap64 (current c - n) = current c - n"
    using assms by (intro wrap64_id) (auto simp: cap_ok_def)
  then show ?thesis by (simp add: Release_def Let_def)
qed

lemma cap_ok_acquire: "cap_ok c \<Longrightarrow> 0 \<le> n \<Longrightarrow> cap_ok (snd (TryAcquire n c))"
  using TryAcquire_used [of c n] TryAcquire_amount [of c n] by (auto simp: cap_ok_def)

lemma cap_ok_release: "cap_ok c \<Longrightarrow> 0 \<le> n \<Longrightarrow> n < 2 ^ 62 \<Longrightarrow> cap_ok (Release n c)"
  using Release_used [of c n] by (auto simp: cap_ok_def)

interpretation cap: slot_pool cap_ok current cmax TryAcquire Release
proof unfold_locales
  show "\<And>c. cap_ok c \<Longrightarrow> 0 \<le> current c \<and> current c < 2 ^ 62" by (simp add: cap_ok_def)
qed (simp_all add: TryAcquire_amount TryAcquire_used Release_used cap_ok_acquire cap_ok_release)

subsection \<open>Interleavings\<close>

definition pool_inv :: "nat \<Rightarrow> 'cb capacity \<Rightarrow> 'cb pool_sys \<Rightarrow> bool" where
  "pool_inv N c0 s \<longleftrightarrow> cap_ok (pool s) \<and> cmax (pool s) = cmax c0 \<and>
     current (pool s) = current c0 + (\<Sum>i<N. held s i) \<and>
     current (pool s) \<le> cmax c0 \<and> (\<forall>i. 0 \<le> held s i)"

lemma held_le_current:
  assumes "pool_inv N c0 s" and "cap_ok c0" and "i < N"
  shows "held s i \<le> current (pool s)"
proof -
  have "held s i \<le> (\<Sum>i<N. held s i)"
    using assms by (intro member_le_sum) (auto simp: pool_inv_def)
  then show ?thesis using assms by (simp add: pool_inv_def cap_ok_def)
qed

lemma pool_step_inv:
  assumes "pool_step N s t" and inv: "pool_inv N c0 s" and ok: "cap_ok c0"
  shows "pool_inv N c0 t"
  using assms(1)
proof (cases rule: pool_step.cases)
  case (pool_acquire i n a c)
  have s: "cap_ok (pool s)" using inv by (simp add: pool_inv_def)
  note r = cap.acquire_result [OF s pool_acquire(3,4)]
  show ?thesis
    using inv pool_acquire r by (auto simp: pool_inv_def sum_fun_upd simp del: fun_upd_apply) auto
next
  case (pool_release i m)
  have s: "cap_ok (pool s)" using inv by (simp add: pool_inv_def)
  have le: "m \<le> current (pool s)" using held_le_current [OF inv ok] pool_release by force
  then have m: "m < 2 ^ 62" using s by (simp add: cap_ok_def)
  have "cap_ok (Release m (pool s))" "current (Release m (pool s)) = current (pool s) - m"
    using cap.invar_release [OF s _ m] cap.release_used [OF s _ m] le pool_release by auto
  then show ?thesis
    using inv pool_release by (auto simp: pool_inv_def sum_fun_upd simp del: fun_upd_apply) auto
qed

lemma pool_reach_inv:
  assumes "pool_reach N c0 s" and "cap_ok c0" and "current c0 \<le> cmax c0"
  shows "pool_inv N c0 s"
  using assms
proof (induction rule: pool_reach.induct)
  case pool_start
  then show ?case by (simp add: pool_inv_def)
next
  case (pool_next s t)
  then show ?case by (blast intro: pool_step_inv)
qed

subsection \<open>Properties\<close>

text \<open>C20. Goroutines that share one pool never hand out more slots than the limit, whatever the
  interleaving of their acquires and releases, and no slot is lost: the counter is always what it
  was at the start plus exactly what the goroutines hold.\<close>

theorem pool_never_overcommits:
  assumes "pool_reach N c0 s" and "cap_ok c0" and "current c0 \<le> cmax c0"
  shows "InUse (pool s) \<le> Max_slots (pool s) \<and> Max_slots (pool s) = cmax c0 \<and>
    InUse (pool s) = current c0 + (\<Sum>i<N. held s i) \<and> (\<forall>i. 0 \<le> held s i) \<and>
    Available (pool s) = cmax c0 - InUse (pool s)"
  using pool_reach_inv [OF assms] available_exact [of "pool s"]
  by (simp add: pool_inv_def InUse_def Max_slots_def Available_def)

theorem pool_never_overcommits_witness:
  "\<exists>s. pool_reach 2 (NewCapacity 3 :: nat capacity) s \<and> held s 1 = 3 \<and> InUse (pool s) = 3 \<and> Available (pool s) = 0"
proof -
  let ?c = "NewCapacity 3 :: nat capacity"
  let ?s = "\<lparr>pool = ?c, held = (\<lambda>_. 0)\<rparr>" and ?t = "\<lparr>pool = ?c\<lparr>current := 3\<rparr>, held = (\<lambda>_. 0)(1 := 3)\<rparr>"
  have "TryAcquire 5 (pool ?s) = (3, ?c\<lparr>current := 3\<rparr>)"
    by (simp add: TryAcquire_def wrap64_def)
  then have "pool_step 2 ?s (?s\<lparr>pool := ?c\<lparr>current := 3\<rparr>, held := (held ?s)(1 := held ?s 1 + 3)\<rparr>)"
    by (intro pool_acquire [where n = 5]) simp_all
  then have "pool_step 2 ?s ?t" by simp
  then have r: "pool_reach 2 ?c ?t" by (rule pool_next [OF pool_start])
  have "cap_ok ?c" by (simp add: cap_ok_def)
  from pool_never_overcommits [OF r this] show ?thesis
    using r by (intro exI [of _ ?t]) (simp add: InUse_def Available_def wrap64_def)
qed

end
