(* ===== verification/Config_Model.thy ===== *)
theory Config_Model
  imports Go_Prelude
begin

text \<open>
  \<^verbatim>\<open>config/config.go\<close>: the configuration, its defaults, environment overrides and validation.

  \<open>time.ParseDuration\<close> and \<open>strconv.ParseInt\<close> are written out from the standard library; the one
  floating-point step of the former (the nanoseconds of a fraction) is the argument \<open>fns\<close>. The
  file system, the environment and the YAML decoder are arguments of \<open>Load\<close>. \<open>Validate\<close> collects
  the failed checks in the code's order, one constructor of \<open>config_error\<close> per message; the
  message text is not modelled.
\<close>

definition Cfg_DefaultWorkerStaleAfter :: duration where
  "Cfg_DefaultWorkerStaleAfter = 2 * minute"
definition DefaultWorkerPruneAfter :: duration where
  "DefaultWorkerPruneAfter = hour"
definition DefaultMaxPendingAge :: duration where
  "DefaultMaxPendingAge = 10 * minute"

record OrchardConfig =
  oAddress :: string
  oUsername :: string
  oPassword :: string
  oInsecure :: bool

record GitHubConfig =
  ghAppID :: int
  ghInstallationID :: int
  ghPrivateKeyPath :: string
  ghPrivateKey :: string
  ghToken :: string

record AutoSizeConfig =
  asEnabled :: bool
  asReserveCPU :: u64
  asReserveMemoryMiB :: u64

record VMConfig =
  vcImage :: string
  vcCPU :: u64
  vcMemory :: u64
  vcDockerPort :: int
  vcDiskSize :: u64
  vcLabels :: labels
  vcAutoSize :: AutoSizeConfig

record ScaleSetConfig =
  ssName :: string
  ssGitHubConfigURL :: string
  ssLabels :: "string list"
  ssRunnerGroup :: string
  ssMaxRunners :: int
  ssVM :: VMConfig

record HealthConfig =
  hPort :: int

record MetricsConfig =
  mEnabled :: bool
  mPort :: int

record Config =
  LogLevel :: string
  MaxVMs :: int
  MaxVMAge :: string
  WorkerStaleAfter :: string
  WorkerPruneAfter :: string
  MaxPendingAge :: string
  cOrchard :: OrchardConfig
  cGitHub :: GitHubConfig
  ScaleSets :: "ScaleSetConfig list"
  cHealth :: HealthConfig
  cMetrics :: MetricsConfig

datatype config_error =
    AddressRequired
  | MaxVMAgeInvalid string | MaxVMAgeNotPositive
  | StaleAfterInvalid string | StaleAfterNotPositive
  | PendingAgeInvalid string | PendingAgeNotPositive
  | PruneAfterInvalid string | PruneAfterNegative
  | PruneNotAboveStale duration duration
  | GitHubAuthRequired
  | NoScaleSets
  | NameRequired nat | URLRequired nat | ImageRequired nat

subsection \<open>Standard library: integers and durations from text\<close>

definition is_digit :: "char \<Rightarrow> bool" where
  "is_digit c \<longleftrightarrow> 48 \<le> (of_char c :: nat) \<and> (of_char c :: nat) \<le> 57"

definition digit_val :: "char \<Rightarrow> nat" where
  "digit_val c = of_char c - 48"

text \<open>\<open>strconv.ParseInt(v, 10, 64)\<close>: an optional sign, then one or more digits, in range.\<close>

definition parse_int64 :: "string \<Rightarrow> int option" where
  "parse_int64 v =
     (let neg = (v \<noteq> [] \<and> hd v = CHR ''-'');
          body = (if v \<noteq> [] \<and> (hd v = CHR ''-'' \<or> hd v = CHR ''+'') then tl v else v);
          n = int (foldl (\<lambda>x c. x * 10 + digit_val c) 0 body);
          r = (if neg then - n else n)
      in if body = [] \<or> \<not> list_all is_digit body then None
         else if in_int64 r then Some r else None)"

fun leadingInt :: "nat \<Rightarrow> string \<Rightarrow> (nat \<times> string) option" where
  "leadingInt x [] = Some (x, [])"
| "leadingInt x (c # s) =
     (if \<not> is_digit c then Some (x, c # s)
      else if 2 ^ 63 div 10 < x then None
      else let y = x * 10 + digit_val c in
           if 2 ^ 63 < y then None else leadingInt y s)"

fun leadingFraction :: "nat \<Rightarrow> nat \<Rightarrow> bool \<Rightarrow> string \<Rightarrow> nat \<times> nat \<times> string" where
  "leadingFraction x scale overflow [] = (x, scale, [])"
| "leadingFraction x scale overflow (c # s) =
     (if \<not> is_digit c then (x, scale, c # s)
      else if overflow then leadingFraction x scale True s
      else if (2 ^ 63 - 1) div 10 < x then leadingFraction x scale True s
      else let y = x * 10 + digit_val c in
           if 2 ^ 63 < y then leadingFraction x scale True s
           else leadingFraction y (scale * 10) False s)"

definition unitMap :: "string \<Rightarrow> nat option" where
  "unitMap u =
     (if u = ''ns'' then Some 1
      else if u = ''us'' then Some 1000
      else if u = [CHR 0xC2, CHR 0xB5, CHR ''s''] then Some 1000
      else if u = [CHR 0xCE, CHR 0xBC, CHR ''s''] then Some 1000
      else if u = ''ms'' then Some 1000000
      else if u = ''s'' then Some 1000000000
      else if u = ''m'' then Some 60000000000
      else if u = ''h'' then Some 3600000000000
      else None)"

definition unit_char :: "char \<Rightarrow> bool" where
  "unit_char c \<longleftrightarrow> c \<noteq> CHR ''.'' \<and> \<not> is_digit c"

text \<open>The number and optional fraction at the front of \<open>s\<close>: value, fraction, scale and rest.\<close>

definition parse_number :: "string \<Rightarrow> (nat \<times> nat \<times> nat \<times> string) option" where
  "parse_number s =
     (case leadingInt 0 s of
        None \<Rightarrow> None
      | Some (v, s1) \<Rightarrow>
          (let pre = (length s1 \<noteq> length s) in
           if s1 \<noteq> [] \<and> hd s1 = CHR ''.'' then
             (case leadingFraction 0 1 False (tl s1) of
                (f, scale, s2) \<Rightarrow>
                  if \<not> pre \<and> length s2 = length (tl s1) then None else Some (v, f, scale, s2))
           else if \<not> pre then None else Some (v, 0, 1, s1)))"

lemma leadingInt_length: "leadingInt x s = Some (v, r) \<Longrightarrow> length r \<le> length s"
  by (induction x s rule: leadingInt.induct) (auto simp: Let_def split: if_splits)

lemma leadingFraction_length: "leadingFraction x k b s = (f, k', r) \<Longrightarrow> length r \<le> length s"
  by (induction x k b s rule: leadingFraction.induct)
    (auto simp: Let_def le_SucI split: if_splits)

lemma parse_number_length:
  assumes "parse_number s = Some (v, f, k, r)"
  shows "length r \<le> length s"
proof -
  obtain s1 where s1: "leadingInt 0 s = Some (v, s1)" "length s1 \<le> length s"
    using assms leadingInt_length
    by (force simp: parse_number_def Let_def split: option.splits if_splits prod.splits)
  then show ?thesis
    using assms leadingFraction_length [of 0 1 False "tl s1" f k r]
    by (auto simp: parse_number_def Let_def split: if_splits prod.splits)
qed

function parse_duration_loop ::
    "(nat \<Rightarrow> nat \<Rightarrow> nat \<Rightarrow> nat) \<Rightarrow> nat \<Rightarrow> string \<Rightarrow> nat option" where
  "parse_duration_loop fns d s =
     (if s = [] then Some d
      else if \<not> (hd s = CHR ''.'' \<or> is_digit (hd s)) then None
      else case parse_number s of
        None \<Rightarrow> None
      | Some (v, f, scale, s2) \<Rightarrow>
          (let u = takeWhile unit_char s2 in
           if u = [] then None
           else case unitMap u of
             None \<Rightarrow> None
           | Some un \<Rightarrow>
               if 2 ^ 63 div un < v then None
               else let v2 = v * un;
                        v3 = (if 0 < f then (v2 + fns f un scale) mod 2 ^ 64 else v2) in
                 if 0 < f \<and> 2 ^ 63 < v3 then None
                 else let d2 = (d + v3) mod 2 ^ 64 in
                   if 2 ^ 63 < d2 then None
                   else parse_duration_loop fns d2 (dropWhile unit_char s2)))"
  by pat_completeness auto
termination
proof (relation "measure (\<lambda>(fns, d, s). length s)", goal_cases)
  case 1
  show ?case by simp
next
  case (2 fns d s p v q f r scale s2 u un v2 v3 d2)
  have "parse_number s = Some (v, f, scale, s2)"
    using \<open>parse_number s = Some p\<close> \<open>(v, q) = p\<close> \<open>(f, r) = q\<close> \<open>(scale, s2) = r\<close> by simp
  then have "length s2 \<le> length s" by (rule parse_number_length)
  moreover have "0 < length (takeWhile unit_char s2)" using 2 by simp
  moreover have "length s2 = length (takeWhile unit_char s2) + length (dropWhile unit_char s2)"
    by (metis length_append takeWhile_dropWhile_id)
  ultimately have "length (dropWhile unit_char s2) < length s" by linarith
  then show ?case by simp
qed

declare parse_duration_loop.simps [simp del]

definition ParseDuration :: "(nat \<Rightarrow> nat \<Rightarrow> nat \<Rightarrow> nat) \<Rightarrow> string \<Rightarrow> duration option" where
  "ParseDuration fns orig =
     (let neg = (orig \<noteq> [] \<and> hd orig = CHR ''-'');
          s = (if orig \<noteq> [] \<and> (hd orig = CHR ''-'' \<or> hd orig = CHR ''+'') then tl orig else orig)
      in if s = ''0'' then Some 0
         else if s = [] then None
         else case parse_duration_loop fns 0 s of
           None \<Rightarrow> None
         | Some d \<Rightarrow>
             if neg then Some (- int d)
             else if 2 ^ 63 - 1 < d then None
             else Some (int d))"

subsection \<open>Effective durations\<close>

definition MaxVMAgeDuration :: "(nat \<Rightarrow> nat \<Rightarrow> nat \<Rightarrow> nat) \<Rightarrow> Config \<Rightarrow> duration" where
  "MaxVMAgeDuration fns c =
     (if MaxVMAge c = [] then 0
      else case ParseDuration fns (MaxVMAge c) of None \<Rightarrow> 0 | Some d \<Rightarrow> d)"

definition WorkerStaleAfterDuration :: "(nat \<Rightarrow> nat \<Rightarrow> nat \<Rightarrow> nat) \<Rightarrow> Config \<Rightarrow> duration" where
  "WorkerStaleAfterDuration fns c =
     (if WorkerStaleAfter c = [] then 0
      else case ParseDuration fns (WorkerStaleAfter c) of None \<Rightarrow> 0 | Some d \<Rightarrow> d)"

definition effectiveWorkerStaleAfter :: "(nat \<Rightarrow> nat \<Rightarrow> nat \<Rightarrow> nat) \<Rightarrow> Config \<Rightarrow> duration" where
  "effectiveWorkerStaleAfter fns c =
     (if WorkerStaleAfter c = [] then Cfg_DefaultWorkerStaleAfter
      else case ParseDuration fns (WorkerStaleAfter c) of None \<Rightarrow> 0 | Some d \<Rightarrow> d)"

definition WorkerPruneDefaultSuppressed :: "(nat \<Rightarrow> nat \<Rightarrow> nat \<Rightarrow> nat) \<Rightarrow> Config \<Rightarrow> bool" where
  "WorkerPruneDefaultSuppressed fns c \<longleftrightarrow>
     WorkerPruneAfter c = [] \<and> DefaultWorkerPruneAfter \<le> effectiveWorkerStaleAfter fns c"

definition WorkerPruneAfterDuration :: "(nat \<Rightarrow> nat \<Rightarrow> nat \<Rightarrow> nat) \<Rightarrow> Config \<Rightarrow> duration" where
  "WorkerPruneAfterDuration fns c =
     (if WorkerPruneAfter c = [] then
        (if WorkerPruneDefaultSuppressed fns c then 0 else DefaultWorkerPruneAfter)
      else case ParseDuration fns (WorkerPruneAfter c) of
             None \<Rightarrow> 0
           | Some d \<Rightarrow> if d < 0 then 0 else d)"

definition MaxPendingAgeDuration :: "(nat \<Rightarrow> nat \<Rightarrow> nat \<Rightarrow> nat) \<Rightarrow> Config \<Rightarrow> duration" where
  "MaxPendingAgeDuration fns c =
     (if MaxPendingAge c = [] then 0
      else case ParseDuration fns (MaxPendingAge c) of None \<Rightarrow> 0 | Some d \<Rightarrow> d)"

definition GitHubPrivateKeyPEM :: "(string \<Rightarrow> gerror + string) \<Rightarrow> Config \<Rightarrow> gerror + string" where
  "GitHubPrivateKeyPEM readFile c =
     (if ghPrivateKey (cGitHub c) \<noteq> [] then Inr (ghPrivateKey (cGitHub c))
      else if ghPrivateKeyPath (cGitHub c) \<noteq> [] then
        (case readFile (ghPrivateKeyPath (cGitHub c)) of
           Inl err \<Rightarrow> Inl (Wrap ''reading private key file'' err)
         | Inr data \<Rightarrow> Inr data)
      else Inl (Opaque ''no private key configured''))"

subsection \<open>Defaults, overrides, validation\<close>

definition default_scale_set :: "ScaleSetConfig \<Rightarrow> ScaleSetConfig" where
  "default_scale_set ss =
     (let ss = (if ssRunnerGroup ss = [] then ss\<lparr>ssRunnerGroup := ''default''\<rparr> else ss);
          ss = (if vcCPU (ssVM ss) = 0 then ss\<lparr>ssVM := (ssVM ss)\<lparr>vcCPU := 4\<rparr>\<rparr> else ss)
      in if vcMemory (ssVM ss) = 0 then ss\<lparr>ssVM := (ssVM ss)\<lparr>vcMemory := 8192\<rparr>\<rparr> else ss)"

definition default_log_level :: "Config \<Rightarrow> Config" where
  "default_log_level cfg = (if LogLevel cfg = [] then cfg\<lparr>LogLevel := ''info''\<rparr> else cfg)"

definition default_username :: "Config \<Rightarrow> Config" where
  "default_username cfg =
     (if oUsername (cOrchard cfg) = []
      then cfg\<lparr>cOrchard := (cOrchard cfg)\<lparr>oUsername := ''bootstrap-admin''\<rparr>\<rparr> else cfg)"

definition default_health_port :: "Config \<Rightarrow> Config" where
  "default_health_port cfg =
     (if hPort (cHealth cfg) = 0 then cfg\<lparr>cHealth := (cHealth cfg)\<lparr>hPort := 8080\<rparr>\<rparr> else cfg)"

definition default_metrics_port :: "Config \<Rightarrow> Config" where
  "default_metrics_port cfg =
     (if mPort (cMetrics cfg) = 0 then cfg\<lparr>cMetrics := (cMetrics cfg)\<lparr>mPort := 9090\<rparr>\<rparr> else cfg)"

definition applyDefaults :: "Config \<Rightarrow> Config" where
  "applyDefaults cfg =
     (let cfg = default_metrics_port (default_health_port (default_username (default_log_level cfg)))
      in cfg\<lparr>ScaleSets := map default_scale_set (ScaleSets cfg)\<rparr>)"

definition applyEnvOverrides :: "(string \<Rightarrow> string) \<Rightarrow> Config \<Rightarrow> Config" where
  "applyEnvOverrides getenv cfg =
     (let v = getenv ''ORCHARD_GH_BRIDGE_GITHUB_TOKEN'';
          cfg = (if v \<noteq> [] then cfg\<lparr>cGitHub := (cGitHub cfg)\<lparr>ghToken := v\<rparr>\<rparr> else cfg);
          v = getenv ''ORCHARD_GH_BRIDGE_GITHUB_PRIVATE_KEY'';
          cfg = (if v \<noteq> [] then cfg\<lparr>cGitHub := (cGitHub cfg)\<lparr>ghPrivateKey := v\<rparr>\<rparr> else cfg);
          v = getenv ''ORCHARD_GH_BRIDGE_GITHUB_APP_ID'';
          cfg = (if v \<noteq> [] then
                   (case parse_int64 v of
                      Some i \<Rightarrow> cfg\<lparr>cGitHub := (cGitHub cfg)\<lparr>ghAppID := i\<rparr>\<rparr> | None \<Rightarrow> cfg)
                 else cfg);
          v = getenv ''ORCHARD_GH_BRIDGE_GITHUB_INSTALLATION_ID'';
          cfg = (if v \<noteq> [] then
                   (case parse_int64 v of
                      Some i \<Rightarrow> cfg\<lparr>cGitHub := (cGitHub cfg)\<lparr>ghInstallationID := i\<rparr>\<rparr> | None \<Rightarrow> cfg)
                 else cfg);
          v = getenv ''ORCHARD_GH_BRIDGE_ORCHARD_PASSWORD''
      in if v \<noteq> [] then cfg\<lparr>cOrchard := (cOrchard cfg)\<lparr>oPassword := v\<rparr>\<rparr> else cfg)"

definition scale_set_errors :: "nat \<times> ScaleSetConfig \<Rightarrow> config_error list" where
  "scale_set_errors = (\<lambda>(i, ss).
     (if ssName ss = [] then [NameRequired i] else []) @
     (if ssGitHubConfigURL ss = [] then [URLRequired i] else []) @
     (if vcImage (ssVM ss) = [] then [ImageRequired i] else []))"

definition validation_errors :: "(nat \<Rightarrow> nat \<Rightarrow> nat \<Rightarrow> nat) \<Rightarrow> Config \<Rightarrow> config_error list" where
  "validation_errors fns c =
     (if oAddress (cOrchard c) = [] then [AddressRequired] else []) @
     (if MaxVMAge c = [] then []
      else case ParseDuration fns (MaxVMAge c) of
             None \<Rightarrow> [MaxVMAgeInvalid (MaxVMAge c)]
           | Some d \<Rightarrow> if d \<le> 0 then [MaxVMAgeNotPositive] else []) @
     (if WorkerStaleAfter c = [] then []
      else case ParseDuration fns (WorkerStaleAfter c) of
             None \<Rightarrow> [StaleAfterInvalid (WorkerStaleAfter c)]
           | Some d \<Rightarrow> if d \<le> 0 then [StaleAfterNotPositive] else []) @
     (if MaxPendingAge c = [] then []
      else case ParseDuration fns (MaxPendingAge c) of
             None \<Rightarrow> [PendingAgeInvalid (MaxPendingAge c)]
           | Some d \<Rightarrow> if d \<le> 0 then [PendingAgeNotPositive] else []) @
     (if WorkerPruneAfter c = [] then []
      else case ParseDuration fns (WorkerPruneAfter c) of
             None \<Rightarrow> [PruneAfterInvalid (WorkerPruneAfter c)]
           | Some d \<Rightarrow> if d < 0 then [PruneAfterNegative] else []) @
     (let prune = WorkerPruneAfterDuration fns c; stale = effectiveWorkerStaleAfter fns c in
      if WorkerPruneAfter c \<noteq> [] \<and> 0 < prune \<and> 0 < stale \<and> prune \<le> stale
      then [PruneNotAboveStale prune stale] else []) @
     (let hasApp = (ghAppID (cGitHub c) \<noteq> 0 \<and> ghInstallationID (cGitHub c) \<noteq> 0 \<and>
                    (ghPrivateKey (cGitHub c) \<noteq> [] \<or> ghPrivateKeyPath (cGitHub c) \<noteq> []));
          hasPAT = (ghToken (cGitHub c) \<noteq> [])
      in if \<not> hasApp \<and> \<not> hasPAT then [GitHubAuthRequired] else []) @
     (if length (ScaleSets c) = 0 then [NoScaleSets] else []) @
     concat (map scale_set_errors (enumerate 0 (ScaleSets c)))"

definition Validate :: "(nat \<Rightarrow> nat \<Rightarrow> nat \<Rightarrow> nat) \<Rightarrow> Config \<Rightarrow> config_error list option" where
  "Validate fns c = (let errs = validation_errors fns c in if 0 < length errs then Some errs else None)"

datatype load_error = ReadingConfigFile gerror | ParsingConfigFile gerror
  | ValidatingConfig "config_error list"

definition Load :: "(string \<Rightarrow> gerror + string) \<Rightarrow> (string \<Rightarrow> gerror + Config) \<Rightarrow>
    (string \<Rightarrow> string) \<Rightarrow> (nat \<Rightarrow> nat \<Rightarrow> nat \<Rightarrow> nat) \<Rightarrow> string \<Rightarrow> load_error + Config" where
  "Load readFile yamlUnmarshal getenv fns path =
     (case readFile path of
        Inl err \<Rightarrow> Inl (ReadingConfigFile err)
      | Inr data \<Rightarrow>
          (case yamlUnmarshal data of
             Inl err \<Rightarrow> Inl (ParsingConfigFile err)
           | Inr cfg \<Rightarrow>
               (let cfg = applyEnvOverrides getenv (applyDefaults cfg) in
                case Validate fns cfg of
                  Some errs \<Rightarrow> Inl (ValidatingConfig errs)
                | None \<Rightarrow> Inr cfg)))"

subsection \<open>Lemmas\<close>

lemma parse_duration_loop_bound:
  "parse_duration_loop fns d s = Some r \<Longrightarrow> d \<le> 2 ^ 63 \<Longrightarrow> r \<le> 2 ^ 63"
proof (induction fns d s arbitrary: r rule: parse_duration_loop.induct)
  case (1 fns d s)
  show ?case
  proof (cases "s = []")
    case True
    then show ?thesis using "1.prems" by (simp add: parse_duration_loop.simps)
  next
    case False
    then show ?thesis using "1.prems"
      by (subst (asm) parse_duration_loop.simps)
        (auto simp: Let_def not_less split: if_splits option.splits prod.splits dest!: "1.IH" [rotated -2])
  qed
qed

lemma Validate_None_iff: "Validate fns c = None \<longleftrightarrow> validation_errors fns c = []"
  by (simp add: Validate_def Let_def)

lemma valid_prune_explicit:
  assumes "Validate fns c = None" and "WorkerPruneAfter c \<noteq> []"
  shows "WorkerPruneAfterDuration fns c \<le> 0 \<or> effectiveWorkerStaleAfter fns c \<le> 0 \<or>
    effectiveWorkerStaleAfter fns c < WorkerPruneAfterDuration fns c"
  using assms by (auto simp: Validate_None_iff validation_errors_def Let_def split: if_splits)

lemma valid_stale_positive:
  assumes "Validate fns c = None"
  shows "0 < effectiveWorkerStaleAfter fns c"
  using assms
  by (auto simp: Validate_None_iff validation_errors_def effectiveWorkerStaleAfter_def
      Cfg_DefaultWorkerStaleAfter_def minute_def split: if_splits option.splits)

lemma prune_nonneg: "0 \<le> WorkerPruneAfterDuration fns c"
  by (auto simp: WorkerPruneAfterDuration_def DefaultWorkerPruneAfter_def hour_def
      split: option.split)

lemma valid_prune_above_stale:
  assumes "Validate fns c = None"
  shows "WorkerPruneAfterDuration fns c = 0 \<or>
    effectiveWorkerStaleAfter fns c < WorkerPruneAfterDuration fns c"
proof (cases "WorkerPruneAfter c = []")
  case True
  then show ?thesis
    by (auto simp: WorkerPruneAfterDuration_def WorkerPruneDefaultSuppressed_def)
next
  case False
  then show ?thesis
    using valid_prune_explicit [OF assms] valid_stale_positive [OF assms] prune_nonneg [of fns c]
    by linarith
qed

lemma Load_valid:
  assumes "Load rf yu ge fns p = Inr cfg"
  shows "Validate fns cfg = None"
  using assms by (auto simp: Load_def Let_def split: sum.splits option.splits)

lemma ParseDuration_range: "ParseDuration fns s = Some d \<Longrightarrow> in_int64 d"
  by (auto simp: ParseDuration_def in_int64_def Let_def split: if_splits option.splits
      dest!: parse_duration_loop_bound)

lemma default_scale_set_idem [simp]:
  "default_scale_set (default_scale_set ss) = default_scale_set ss"
  by (simp add: default_scale_set_def Let_def)

lemma applyDefaults_eq:
  "applyDefaults c = c\<lparr>LogLevel := (if LogLevel c = [] then ''info'' else LogLevel c),
     cOrchard := (cOrchard c)\<lparr>oUsername :=
       (if oUsername (cOrchard c) = [] then ''bootstrap-admin'' else oUsername (cOrchard c))\<rparr>,
     cHealth := (cHealth c)\<lparr>hPort := (if hPort (cHealth c) = 0 then 8080 else hPort (cHealth c))\<rparr>,
     cMetrics := (cMetrics c)\<lparr>mPort := (if mPort (cMetrics c) = 0 then 9090 else mPort (cMetrics c))\<rparr>,
     ScaleSets := map default_scale_set (ScaleSets c)\<rparr>"
proof -
  have 1: "default_log_level c = c\<lparr>LogLevel := (if LogLevel c = [] then ''info'' else LogLevel c)\<rparr>" for c
    by (simp add: default_log_level_def)
  have 2: "default_username c = c\<lparr>cOrchard := (cOrchard c)\<lparr>oUsername :=
      (if oUsername (cOrchard c) = [] then ''bootstrap-admin'' else oUsername (cOrchard c))\<rparr>\<rparr>" for c
    by (simp add: default_username_def)
  have 3: "default_health_port c = c\<lparr>cHealth := (cHealth c)\<lparr>hPort :=
      (if hPort (cHealth c) = 0 then 8080 else hPort (cHealth c))\<rparr>\<rparr>" for c
    by (simp add: default_health_port_def)
  have 4: "default_metrics_port c = c\<lparr>cMetrics := (cMetrics c)\<lparr>mPort :=
      (if mPort (cMetrics c) = 0 then 9090 else mPort (cMetrics c))\<rparr>\<rparr>" for c
    by (simp add: default_metrics_port_def)
  show ?thesis by (simp add: applyDefaults_def Let_def 1 2 3 4)
qed

lemma positive_check:
  "(if s = [] then [] else case ParseDuration fns s of
      None \<Rightarrow> [e] | Some d \<Rightarrow> if d \<le> 0 then [e'] else []) = [] \<longleftrightarrow>
    s = [] \<or> (\<exists>d > 0. ParseDuration fns s = Some d)"
  by (auto split: option.split)

lemma scale_set_check:
  "concat (map scale_set_errors (enumerate n xs)) = [] \<longleftrightarrow>
    (\<forall>ss \<in> set xs. ssName ss \<noteq> [] \<and> ssGitHubConfigURL ss \<noteq> [] \<and> vcImage (ssVM ss) \<noteq> [])"
  by (induction xs arbitrary: n) (auto simp: scale_set_errors_def split: if_splits)

lemma auth_check:
  "(let a = A; b = B in if \<not> a \<and> \<not> b then [e] else []) = [] \<longleftrightarrow> A \<or> B"
  by simp

lemma valid_stale_positive':
  "WorkerStaleAfter c = [] \<or> (\<exists>d > 0. ParseDuration fns (WorkerStaleAfter c) = Some d) \<Longrightarrow>
    0 < effectiveWorkerStaleAfter fns c"
  by (auto simp: effectiveWorkerStaleAfter_def Cfg_DefaultWorkerStaleAfter_def minute_def)

lemma prune_check:
  assumes "0 < effectiveWorkerStaleAfter fns c"
  shows "(if WorkerPruneAfter c = [] then []
      else case ParseDuration fns (WorkerPruneAfter c) of
             None \<Rightarrow> [PruneAfterInvalid (WorkerPruneAfter c)]
           | Some d \<Rightarrow> if d < 0 then [PruneAfterNegative] else []) = [] \<and>
     (let prune = WorkerPruneAfterDuration fns c; stale = effectiveWorkerStaleAfter fns c in
      if WorkerPruneAfter c \<noteq> [] \<and> 0 < prune \<and> 0 < stale \<and> prune \<le> stale
      then [PruneNotAboveStale prune stale] else []) = [] \<longleftrightarrow>
    WorkerPruneAfter c = [] \<or>
      (\<exists>d \<ge> 0. ParseDuration fns (WorkerPruneAfter c) = Some d \<and>
        (d = 0 \<or> effectiveWorkerStaleAfter fns c < d))"
  using assms by (auto simp: WorkerPruneAfterDuration_def Let_def split: option.splits)

text \<open>A configuration for the witnesses.\<close>

definition ex_vmconfig :: VMConfig where
  "ex_vmconfig = \<lparr>vcImage = ''img'', vcCPU = 0, vcMemory = 0, vcDockerPort = 0, vcDiskSize = 0,
     vcLabels = fmempty,
     vcAutoSize = \<lparr>asEnabled = False, asReserveCPU = 0, asReserveMemoryMiB = 0\<rparr>\<rparr>"

definition ex_config :: "string \<Rightarrow> string \<Rightarrow> Config" where
  "ex_config stale prune = \<lparr>LogLevel = [], MaxVMs = 0, MaxVMAge = [], WorkerStaleAfter = stale,
     WorkerPruneAfter = prune, MaxPendingAge = [],
     cOrchard = \<lparr>oAddress = ''http://o'', oUsername = [], oPassword = [], oInsecure = False\<rparr>,
     cGitHub = \<lparr>ghAppID = 0, ghInstallationID = 0, ghPrivateKeyPath = [], ghPrivateKey = [],
       ghToken = ''t''\<rparr>,
     ScaleSets = [\<lparr>ssName = ''ci'', ssGitHubConfigURL = ''https://g'', ssLabels = [],
       ssRunnerGroup = [], ssMaxRunners = 0, ssVM = ex_vmconfig\<rparr>],
     cHealth = \<lparr>hPort = 0\<rparr>, cMetrics = \<lparr>mEnabled = False, mPort = 0\<rparr>\<rparr>"

lemma ex_config_sel [simp]:
  "WorkerStaleAfter (ex_config a b) = a" "WorkerPruneAfter (ex_config a b) = b"
  "MaxVMAge (ex_config a b) = []" "MaxPendingAge (ex_config a b) = []"
  "oAddress (cOrchard (ex_config a b)) = ''http://o''" "ghToken (cGitHub (ex_config a b)) = ''t''"
  "ScaleSets (ex_config a b) = [\<lparr>ssName = ''ci'', ssGitHubConfigURL = ''https://g'', ssLabels = [],
       ssRunnerGroup = [], ssMaxRunners = 0, ssVM = ex_vmconfig\<rparr>]" "vcImage ex_vmconfig = ''img''"
  by (simp_all add: ex_config_def ex_vmconfig_def)

lemmas duration_eval = ParseDuration_def parse_duration_loop.simps parse_number_def is_digit_def
  digit_val_def unit_char_def unitMap_def Let_def

lemma ParseDuration_5m: "ParseDuration fns ''5m'' = Some 300000000000"
  by (simp add: duration_eval)

lemma ParseDuration_1h30m: "ParseDuration fns ''1h30m'' = Some 5400000000000"
  by (simp add: duration_eval)

lemma ex_config_loads:
  "Load (\<lambda>_. Inr []) (\<lambda>_. Inr (ex_config ''5m'' ''1h30m'')) (\<lambda>_. []) (\<lambda>_ _ _. 0) ''c'' =
    Inr (applyDefaults (ex_config ''5m'' ''1h30m''))"
proof -
  let ?cfg = "applyDefaults (ex_config ''5m'' ''1h30m'')"
  have "Validate (\<lambda>_ _ _. 0) ?cfg = None"
    by (simp add: Validate_None_iff validation_errors_def applyDefaults_eq Let_def
        default_scale_set_def effectiveWorkerStaleAfter_def WorkerPruneAfterDuration_def
        scale_set_errors_def ParseDuration_5m ParseDuration_1h30m)
  then show ?thesis by (simp add: Load_def applyEnvOverrides_def Let_def)
qed

lemma ex_config_prune:
  "WorkerPruneAfterDuration (\<lambda>_ _ _. 0) (applyDefaults (ex_config ''5m'' ''1h30m'')) = 5400000000000"
  by (simp add: applyDefaults_eq WorkerPruneAfterDuration_def ParseDuration_1h30m)

subsection \<open>Properties\<close>

text \<open>Every configuration the program starts with keeps pruning behind staleness: the worker
  staleness threshold is positive, and the prune threshold is either off or strictly above it,
  whether the two were set, left to their defaults, or read from the environment.\<close>

theorem Load_prune_above_stale:
  assumes "Load readFile yamlUnmarshal getenv fns path = Inr cfg"
  shows "0 < effectiveWorkerStaleAfter fns cfg \<and>
    (WorkerPruneAfterDuration fns cfg = 0 \<or>
     effectiveWorkerStaleAfter fns cfg < WorkerPruneAfterDuration fns cfg)"
  using Load_valid [OF assms] valid_stale_positive valid_prune_above_stale by blast

theorem Load_prune_above_stale_witness:
  "\<exists>cfg. Load (\<lambda>_. Inr []) (\<lambda>_. Inr (ex_config ''5m'' ''1h30m'')) (\<lambda>_. []) (\<lambda>_ _ _. 0) ''c'' = Inr cfg \<and>
     0 < effectiveWorkerStaleAfter (\<lambda>_ _ _. 0) cfg \<and>
     (WorkerPruneAfterDuration (\<lambda>_ _ _. 0) cfg = 0 \<or>
      effectiveWorkerStaleAfter (\<lambda>_ _ _. 0) cfg < WorkerPruneAfterDuration (\<lambda>_ _ _. 0) cfg)"
  using ex_config_loads Load_prune_above_stale [OF ex_config_loads] by blast

text \<open>C32. Validation accepts exactly the configurations that meet every documented requirement.\<close>

theorem Validate_accepts_iff:
  "Validate fns c = None \<longleftrightarrow>
     oAddress (cOrchard c) \<noteq> [] \<and>
     (MaxVMAge c = [] \<or> (\<exists>d > 0. ParseDuration fns (MaxVMAge c) = Some d)) \<and>
     (WorkerStaleAfter c = [] \<or> (\<exists>d > 0. ParseDuration fns (WorkerStaleAfter c) = Some d)) \<and>
     (MaxPendingAge c = [] \<or> (\<exists>d > 0. ParseDuration fns (MaxPendingAge c) = Some d)) \<and>
     (WorkerPruneAfter c = [] \<or>
      (\<exists>d \<ge> 0. ParseDuration fns (WorkerPruneAfter c) = Some d \<and>
        (d = 0 \<or> effectiveWorkerStaleAfter fns c < d))) \<and>
     ((ghAppID (cGitHub c) \<noteq> 0 \<and> ghInstallationID (cGitHub c) \<noteq> 0 \<and>
       (ghPrivateKey (cGitHub c) \<noteq> [] \<or> ghPrivateKeyPath (cGitHub c) \<noteq> [])) \<or>
      ghToken (cGitHub c) \<noteq> []) \<and>
     ScaleSets c \<noteq> [] \<and>
     (\<forall>ss \<in> set (ScaleSets c). ssName ss \<noteq> [] \<and> ssGitHubConfigURL ss \<noteq> [] \<and> vcImage (ssVM ss) \<noteq> [])"
  unfolding Validate_None_iff validation_errors_def append_is_Nil_conv positive_check
    scale_set_check auth_check
  using prune_check [of fns c] valid_stale_positive' [of c fns] by auto

theorem Validate_accepts_iff_witness:
  "Validate (\<lambda>_ _ _. 0) (ex_config ''5m'' ''1h30m'') = None \<and>
   Validate (\<lambda>_ _ _. 0) (ex_config ''1h30m'' ''5m'') \<noteq> None"
  using Validate_accepts_iff [of "\<lambda>_ _ _. 0" "ex_config ''5m'' ''1h30m''"]
    Validate_accepts_iff [of "\<lambda>_ _ _. 0" "ex_config ''1h30m'' ''5m''"]
  by (simp add: effectiveWorkerStaleAfter_def ParseDuration_5m ParseDuration_1h30m)

text \<open>A parsed duration always fits Go's 64-bit \<open>Duration\<close>, whatever the digits, units and
  fractions were, so no threshold derived from the configuration has overflowed.\<close>

theorem config_durations_in_range:
  "in_int64 (MaxVMAgeDuration fns c) \<and> in_int64 (WorkerStaleAfterDuration fns c) \<and>
   in_int64 (WorkerPruneAfterDuration fns c) \<and> in_int64 (MaxPendingAgeDuration fns c)"
proof -
  have "in_int64 0" "in_int64 DefaultWorkerPruneAfter"
    by (simp_all add: in_int64_def DefaultWorkerPruneAfter_def hour_def)
  then show ?thesis
    by (auto simp: MaxVMAgeDuration_def WorkerStaleAfterDuration_def WorkerPruneAfterDuration_def
        MaxPendingAgeDuration_def split: option.splits dest: ParseDuration_range)
qed

text \<open>Defaulting is idempotent and leaves no field the program would read as unset.\<close>

theorem applyDefaults_complete:
  "applyDefaults (applyDefaults c) = applyDefaults c \<and>
   LogLevel (applyDefaults c) \<noteq> [] \<and> oUsername (cOrchard (applyDefaults c)) \<noteq> [] \<and>
   hPort (cHealth (applyDefaults c)) \<noteq> 0 \<and> mPort (cMetrics (applyDefaults c)) \<noteq> 0 \<and>
   list_all (\<lambda>ss. ssRunnerGroup ss \<noteq> [] \<and> vcCPU (ssVM ss) \<noteq> 0 \<and> vcMemory (ssVM ss) \<noteq> 0)
     (ScaleSets (applyDefaults c))"
proof -
  have "applyDefaults (applyDefaults c) = applyDefaults c"
    by (simp add: applyDefaults_eq o_def)
  moreover have "ssRunnerGroup (default_scale_set ss) \<noteq> [] \<and> vcCPU (ssVM (default_scale_set ss)) \<noteq> 0 \<and>
      vcMemory (ssVM (default_scale_set ss)) \<noteq> 0" for ss
    by (simp add: default_scale_set_def Let_def)
  ultimately show ?thesis by (simp add: applyDefaults_eq list_all_iff)
qed

end
