(* ===== verification/Bridge_Model.thy ===== *)
theory Bridge_Model
  imports State_View Capacity_Model Config_Model
begin

text \<open>
  \<^verbatim>\<open>bridge/bridge.go\<close>: the scaler of one scale set. Its own state is the record \<open>bridge\<close>; the
  state it shares with the other scale sets and the cleanup loop (capacity, view, the world
  outside) is \<open>sys\<close>, an extensible record so that the manager can add its own fields. The two
  callbacks the manager installs are the record \<open>hooks\<close>, \<open>None\<close> for \<open>nil\<close>. The GitHub client is
  the record \<open>gh_client\<close> of functions over the external state.

  Each handler is one definition that threads bridge and system state through every call the code
  makes; a loop over the acquired slots recurses on the slots left. A handler returns the runner
  count and error in a \<open>Return\<close>, or \<open>Panic\<close> where the Go code would.
\<close>

record ('o, 'cb) sys =
  sysExt :: 'o
  sysCap :: "'cb capacity"
  sysView :: "StateView option"

record 'o gh_client =
  GenerateJitRunnerConfig :: "string \<Rightarrow> int \<Rightarrow> 'o \<Rightarrow> (gerror + string) \<times> 'o"
  RemoveRunner :: "int \<Rightarrow> 'o \<Rightarrow> gerror option outcome \<times> 'o"
  GetRunnerByName :: "string \<Rightarrow> 'o \<Rightarrow> (gerror + int option) outcome \<times> 'o"

record bridge =
  scaleSetName :: string
  scaleSetID :: int
  vmConfig :: VMConfig
  activeVMs :: "(string, string) fmap"
  placementCursor :: u64

record 'w hooks =
  onVMChange :: "('w \<Rightarrow> 'w) option"
  onDeleteFailed :: "(string \<Rightarrow> 'w \<Rightarrow> 'w) option"

definition NewBridge :: "string \<Rightarrow> int \<Rightarrow> VMConfig \<Rightarrow> bridge" where
  "NewBridge name sid vmc =
     \<lparr>scaleSetName = name, scaleSetID = sid, vmConfig = vmc, activeVMs = fmempty,
      placementCursor = 0\<rparr>"

definition ActiveVMCount :: "bridge \<Rightarrow> int" where
  "ActiveVMCount b = int (map_len (activeVMs b))"

definition PurgeActiveVM :: "string \<Rightarrow> bridge \<Rightarrow> bridge" where
  "PurgeActiveVM vm b = b\<lparr>activeVMs := fmdrop vm (activeVMs b)\<rparr>"

definition mergePinLabel :: "labels \<Rightarrow> string \<Rightarrow> labels" where
  "mergePinLabel base pin = fmupd PinLabelKey pin base"

definition vmSpec :: "bridge \<Rightarrow> string \<Rightarrow> string \<Rightarrow> u64 \<Rightarrow> u64 \<Rightarrow> labels \<Rightarrow> VM" where
  "vmSpec b name script cpu memory ls =
     \<lparr>vName = name, vImage = vcImage (vmConfig b), vCPU = cpu, vMemory = memory, vNested = False,
      vDiskSize = vcDiskSize (vmConfig b), vStatus = [], vStatusMessage = [], vWorker = [],
      vStartupScript = Some script, vLabels = ls, vCreatedAt = 0\<rparr>"

text \<open>The shared view, when there is one.\<close>

definition state_Get :: "'o env \<Rightarrow> ('o, 'cb, 'z) sys_scheme \<Rightarrow>
    (Snapshot option \<times> gerror option) \<times> ('o, 'cb, 'z) sys_scheme" where
  "state_Get E w =
     (case sysView w of
        None \<Rightarrow> ((None, None), w)
      | Some v \<Rightarrow>
          (case Get E v (sysExt w) of
             (r, v', st) \<Rightarrow> (r, w\<lparr>sysExt := st, sysView := Some v'\<rparr>)))"

definition state_Invalidate :: "('o, 'cb, 'z) sys_scheme \<Rightarrow> ('o, 'cb, 'z) sys_scheme" where
  "state_Invalidate w = w\<lparr>sysView := map_option Invalidate (sysView w)\<rparr>"

definition notifyChange :: "'w hooks \<Rightarrow> 'w \<Rightarrow> 'w" where
  "notifyChange H w = (case onVMChange H of None \<Rightarrow> w | Some fn \<Rightarrow> fn w)"

definition HydrateFromOrchard :: "'o env \<Rightarrow> bridge \<Rightarrow> ('o, 'cb, 'z) sys_scheme \<Rightarrow>
    (int \<times> gerror option) \<times> bridge \<times> ('o, 'cb, 'z) sys_scheme" where
  "HydrateFromOrchard E b w =
     (if sysView w = None then ((0, None), b, w)
      else case state_Get E w of
        ((None, err), w1) \<Rightarrow> ((0, err), b, w1)
      | ((Some sn, err), w1) \<Rightarrow>
          (case foldl (\<lambda>(act, adopted) vm.
                  if vStatus vm = VMStatusStopped \<or> vStatus vm = VMStatusFailed then (act, adopted)
                  else (fmupd (vName vm) (vName vm) act, adopted + 1))
                (activeVMs b, 0) (ManagedVMsForScaleSet sn (scaleSetName b)) of
             (act, adopted) \<Rightarrow> ((adopted, err), b\<lparr>activeVMs := act\<rparr>, w1)))"

definition createOneVM :: "'o env \<Rightarrow> 'o gh_client \<Rightarrow> u64 \<Rightarrow> u64 \<Rightarrow> labels \<Rightarrow> bridge \<Rightarrow>
    ('o, 'cb, 'z) sys_scheme \<Rightarrow> gerror option \<times> bridge \<times> ('o, 'cb, 'z) sys_scheme" where
  "createOneVM E gh cpu memory ls b w =
     (case uuid_New E (sysExt w) of
        (uuid, st1) \<Rightarrow>
          (let vmName = VMName (scaleSetName b) uuid in
           case GenerateJitRunnerConfig gh vmName (scaleSetID b) st1 of
             (Inl err, st2) \<Rightarrow> (Some (Wrap ''generating JIT config'' err), b, w\<lparr>sysExt := st2\<rparr>)
           | (Inr jit, st2) \<Rightarrow>
               (let script = StartupScript jit (vcDockerPort (vmConfig b));
                    vm = vmSpec b vmName script cpu memory ls in
                case CreateVM E vm st2 of
                  (Inl err, st3) \<Rightarrow> (Some (Wrap ''creating VM'' err), b, w\<lparr>sysExt := st3\<rparr>)
                | (Inr _, st3) \<Rightarrow>
                    (None, b\<lparr>activeVMs := fmupd vmName vmName (activeVMs b)\<rparr>,
                     w\<lparr>sysExt := st3\<rparr>))))"

text \<open>The production path: the test hook \<open>testCreateOneVM\<close> is \<open>nil\<close> outside unit tests.\<close>

definition doCreateOneVM :: "'o env \<Rightarrow> 'o gh_client \<Rightarrow> u64 \<Rightarrow> u64 \<Rightarrow> labels \<Rightarrow> bridge \<Rightarrow>
    ('o, 'cb, 'z) sys_scheme \<Rightarrow> gerror option \<times> bridge \<times> ('o, 'cb, 'z) sys_scheme" where
  "doCreateOneVM E gh cpu memory ls b w = createOneVM E gh cpu memory ls b w"

text \<open>The loop over the acquired slots, \<open>left\<close> of them still to go.\<close>

fun create_loop :: "'o env \<Rightarrow> 'o gh_client \<Rightarrow> ('o, 'cb, 'z) sys_scheme hooks \<Rightarrow> nat \<Rightarrow> int \<Rightarrow>
    int \<Rightarrow> bridge \<Rightarrow> ('o, 'cb, 'z) sys_scheme \<Rightarrow>
    (int \<times> gerror option) \<times> bridge \<times> ('o, 'cb, 'z) sys_scheme" where
  "create_loop E gh H 0 acquired created b w = ((created, None), b, w)"
| "create_loop E gh H (Suc left) acquired created b w =
     (case createOneVM E gh (vcCPU (vmConfig b)) (vcMemory (vmConfig b)) (vcLabels (vmConfig b)) b w of
        (Some err, b1, w1) \<Rightarrow>
          ((created, Some err), b1,
           notifyChange H (w1\<lparr>sysCap := Release (acquired - created) (sysCap w1)\<rparr>))
      | (None, b1, w1) \<Rightarrow> create_loop E gh H left acquired (created + 1) b1 w1)"

fun autosize_loop :: "'o env \<Rightarrow> 'o gh_client \<Rightarrow> ('o, 'cb, 'z) sys_scheme hooks \<Rightarrow> Worker list \<Rightarrow>
    u64 \<Rightarrow> u64 \<Rightarrow> int \<Rightarrow> nat \<Rightarrow> int \<Rightarrow> int \<Rightarrow> int \<Rightarrow> int \<Rightarrow> bridge \<Rightarrow> ('o, 'cb, 'z) sys_scheme \<Rightarrow>
    (int \<times> gerror option) outcome \<times> bridge \<times> ('o, 'cb, 'z) sys_scheme" where
  "autosize_loop E gh H candidates rc rm start 0 i acquired created skipped b w =
     (Return (created, None), b, w)"
| "autosize_loop E gh H candidates rc rm start (Suc left) i acquired created skipped b w =
     (let k = go_rem (wrap64 (start + i)) (int (length candidates)) in
      if k < 0 \<or> int (length candidates) \<le> k then (Panic, b, w)
      else let wk = candidates ! nat k in
        case AutoSizedVM wk rc rm of
          Inl err \<Rightarrow>
            autosize_loop E gh H candidates rc rm start left (i + 1) acquired created (skipped + 1) b
              (w\<lparr>sysCap := Release 1 (sysCap w)\<rparr>)
        | Inr (cpu, mem) \<Rightarrow>
            (let pin = PinIdentity wk; ls = mergePinLabel (vcLabels (vmConfig b)) pin in
             case doCreateOneVM E gh cpu mem ls b w of
               (Some err, b1, w1) \<Rightarrow>
                 (Return (created, Some err), b1,
                  notifyChange H (w1\<lparr>sysCap := Release (acquired - skipped - created) (sysCap w1)\<rparr>))
             | (None, b1, w1) \<Rightarrow>
                 autosize_loop E gh H candidates rc rm start left (i + 1) acquired (created + 1)
                   skipped b1 w1))"

definition handleAutoSizeScaleUp :: "'o env \<Rightarrow> 'o gh_client \<Rightarrow> ('o, 'cb, 'z) sys_scheme hooks \<Rightarrow>
    int \<Rightarrow> int \<Rightarrow> bridge \<Rightarrow> ('o, 'cb, 'z) sys_scheme \<Rightarrow>
    (int \<times> gerror option) outcome \<times> bridge \<times> ('o, 'cb, 'z) sys_scheme" where
  "handleAutoSizeScaleUp E gh H needed currentActive b w =
     (if sysView w = None then (Return (currentActive, None), b, w)
      else case state_Get E w of
        ((None, err), w1) \<Rightarrow> (Return (currentActive, None), b, w1)
      | ((Some sn, err), w1) \<Rightarrow>
          (case AutoSizeReserves (asReserveCPU (vcAutoSize (vmConfig b)))
                  (asReserveMemoryMiB (vcAutoSize (vmConfig b))) of
             (rc, rm) \<Rightarrow>
               (let candidates = freeAutoSizeWorkers (sWorkers sn) (sVMs sn) (vcLabels (vmConfig b)) rc rm
                in
                if length candidates = 0 then (Return (currentActive, None), b, w1)
                else let needed = (if int (length candidates) < needed then int (length candidates)
                                   else needed) in
                case TryAcquire needed (sysCap w1) of
                  (acquired, c) \<Rightarrow>
                    (let w2 = w1\<lparr>sysCap := c\<rparr> in
                     if acquired = 0 then (Return (currentActive, None), b, w2)
                     else let cursor = placementCursor b + word_of_int acquired;
                              b2 = b\<lparr>placementCursor := cursor\<rparr>;
                              start = sint (cursor - word_of_int acquired) in
                       case autosize_loop E gh H candidates rc rm start (nat acquired) 0 acquired 0 0 b2 w2 of
                         (Panic, b3, w3) \<Rightarrow> (Panic, b3, w3)
                       | (Return (created, Some err), b3, w3) \<Rightarrow>
                           (Return (currentActive + created, Some err), b3, w3)
                       | (Return (created, None), b3, w3) \<Rightarrow>
                           (Return (currentActive + created, None), b3,
                            notifyChange H (state_Invalidate w3))))))"

text \<open>The authoritative check of the static path: the slots still needed after capping by the free
  ones, or \<open>None\<close> to return early.\<close>

definition static_gate :: "'o env \<Rightarrow> int \<Rightarrow> bridge \<Rightarrow> ('o, 'cb, 'z) sys_scheme \<Rightarrow>
    int option \<times> ('o, 'cb, 'z) sys_scheme" where
  "static_gate E needed b w =
     (if sysView w = None then (Some needed, w)
      else case state_Get E w of
        ((None, err), w1) \<Rightarrow> (None, w1)
      | ((Some sn, err), w1) \<Rightarrow>
          (let workerCap = CapacityForLabels (sWorkers sn) (vcLabels (vmConfig b));
               managedMatching = countActiveVMs (ManagedVMsMatchingLabels sn (vcLabels (vmConfig b)));
               free = wrap64 (workerCap - managedMatching)
           in if free \<le> 0 then (None, w1)
              else (Some (if free < needed then free else needed), w1)))"

definition HandleDesiredRunnerCount :: "'o env \<Rightarrow> 'o gh_client \<Rightarrow> ('o, 'cb, 'z) sys_scheme hooks \<Rightarrow>
    int \<Rightarrow> bridge \<Rightarrow> ('o, 'cb, 'z) sys_scheme \<Rightarrow>
    (int \<times> gerror option) outcome \<times> bridge \<times> ('o, 'cb, 'z) sys_scheme" where
  "HandleDesiredRunnerCount E gh H count b w =
     (let currentActive = int (map_len (activeVMs b));
          needed = wrap64 (count - currentActive) in
      if needed \<le> 0 then (Return (currentActive, None), b, w)
      else if asEnabled (vcAutoSize (vmConfig b)) then
        handleAutoSizeScaleUp E gh H needed currentActive b w
      else case static_gate E needed b w of
        (None, w1) \<Rightarrow> (Return (currentActive, None), b, w1)
      | (Some needed, w1) \<Rightarrow>
          (case TryAcquire needed (sysCap w1) of
             (acquired, c) \<Rightarrow>
               (let w2 = w1\<lparr>sysCap := c\<rparr> in
                if acquired = 0 then (Return (currentActive, None), b, w2)
                else case create_loop E gh H (nat acquired) acquired 0 b w2 of
                  ((created, Some err), b3, w3) \<Rightarrow>
                    (Return (currentActive + created, Some err), b3, w3)
                | ((created, None), b3, w3) \<Rightarrow>
                    (Return (currentActive + created, None), b3,
                     notifyChange H (state_Invalidate w3)))))"

definition HandleJobStarted :: "string \<Rightarrow> bridge \<Rightarrow> 'w \<Rightarrow> gerror option \<times> bridge \<times> 'w" where
  "HandleJobStarted runnerName b w = (None, b, w)"

definition HandleJobCompleted :: "'o env \<Rightarrow> 'o gh_client \<Rightarrow> ('o, 'cb, 'z) sys_scheme hooks \<Rightarrow>
    string \<Rightarrow> int \<Rightarrow> bridge \<Rightarrow> ('o, 'cb, 'z) sys_scheme \<Rightarrow>
    gerror option outcome \<times> bridge \<times> ('o, 'cb, 'z) sys_scheme" where
  "HandleJobCompleted E gh H runnerName runnerID b w =
     (case fmlookup (activeVMs b) runnerName of
        None \<Rightarrow> (Return None, b, w)
      | Some vm \<Rightarrow>
          (let b1 = b\<lparr>activeVMs := fmdrop runnerName (activeVMs b)\<rparr> in
           case DeleteVM E vm (sysExt w) of
             (Panic, st1) \<Rightarrow> (Panic, b1, w\<lparr>sysExt := st1\<rparr>)
           | (Return (Some err), st1) \<Rightarrow>
               (let w1 = w\<lparr>sysExt := st1\<rparr> in
                (Return None, b1,
                 case onDeleteFailed H of None \<Rightarrow> w1 | Some fn \<Rightarrow> fn vm w1))
           | (Return None, st1) \<Rightarrow>
               (case RemoveRunner gh runnerID st1 of
                  (Panic, st2) \<Rightarrow> (Panic, b1, w\<lparr>sysExt := st2\<rparr>)
                | (Return _, st2) \<Rightarrow>
                    (Return None, b1,
                     notifyChange H (state_Invalidate
                       (w\<lparr>sysExt := st2, sysCap := Release 1 (sysCap w)\<rparr>))))))"

text \<open>Specification of one AutoSize batch: the workers it places on, in order, and the placement
  itself as a plain pass over that list.\<close>

definition autosize_plan :: "Worker list \<Rightarrow> int \<Rightarrow> nat \<Rightarrow> Worker list" where
  "autosize_plan candidates start n =
     map (\<lambda>i. candidates ! (nat ((start + int i) mod int (length candidates)))) [0..<n]"

fun place_all :: "'o env \<Rightarrow> 'o gh_client \<Rightarrow> ('o, 'cb, 'z) sys_scheme hooks \<Rightarrow> u64 \<Rightarrow> u64 \<Rightarrow> int \<Rightarrow>
    Worker list \<Rightarrow> int \<Rightarrow> bridge \<Rightarrow> ('o, 'cb, 'z) sys_scheme \<Rightarrow>
    (int \<times> gerror option) \<times> bridge \<times> ('o, 'cb, 'z) sys_scheme" where
  "place_all E gh H rc rm acquired [] created b w = ((created, None), b, w)"
| "place_all E gh H rc rm acquired (wk # wks) created b w =
     (case createOneVM E gh (the (fmlookup (wResources wk) resourceLogicalCores) - rc)
             (the (fmlookup (wResources wk) resourceMemoryMiB) - rm)
             (mergePinLabel (vcLabels (vmConfig b)) (PinIdentity wk)) b w of
        (Some err, b1, w1) \<Rightarrow>
          ((created, Some err), b1,
           notifyChange H (w1\<lparr>sysCap := Release (acquired - created) (sysCap w1)\<rparr>))
      | (None, b1, w1) \<Rightarrow> place_all E gh H rc rm acquired wks (created + 1) b1 w1)"

subsection \<open>Frames\<close>

lemma state_Get_frame [simp]:
  "state_Get E w = (r, w') \<Longrightarrow> sysCap w' = sysCap w"
  "state_Get E w = (r, w') \<Longrightarrow> sysView w' = None \<longleftrightarrow> sysView w = None"
  by (auto simp: state_Get_def split: option.splits prod.splits)

lemma state_Invalidate_cap [simp]: "sysCap (state_Invalidate w) = sysCap w"
  by (simp add: state_Invalidate_def)

lemma createOneVM_cases:
  assumes "createOneVM E gh cpu mem ls b w = (r, b', w')"
  obtains (failed) err st where "r = Some err" and "b' = b" and "w' = w\<lparr>sysExt := st\<rparr>"
    | (created) u st where "r = None" and "w' = w\<lparr>sysExt := st\<rparr>"
      and "b' = b\<lparr>activeVMs := fmupd (VMName (scaleSetName b) u) (VMName (scaleSetName b) u) (activeVMs b)\<rparr>"
  using assms
  by (auto simp: createOneVM_def Let_def split: prod.splits sum.splits)

lemma createOneVM_frame:
  assumes "createOneVM E gh cpu mem ls b w = (r, b', w')"
  shows "sysCap w' = sysCap w" and "sysView w' = sysView w" and "vmConfig b' = vmConfig b"
    and "scaleSetName b' = scaleSetName b" and "placementCursor b' = placementCursor b"
    and "activeVMs b \<subseteq>\<^sub>f activeVMs b' \<or> fmdom' (activeVMs b) \<subseteq> fmdom' (activeVMs b')"
  using assms by (cases rule: createOneVM_cases; auto)+

subsection \<open>Slot accounting of a batch\<close>

text \<open>What the accounting needs of the manager's callback: it does not touch the slot counter.\<close>

locale change_hook =
  fixes H :: "('o, 'cb, 'z) sys_scheme hooks"
  assumes change_cap: "onVMChange H = Some fn \<Longrightarrow> sysCap (fn w) = sysCap w"
begin

lemma notify_cap [simp]: "sysCap (notifyChange H w) = sysCap w"
  by (simp add: notifyChange_def change_cap split: option.split)

lemma create_loop_accounts:
  assumes "create_loop E gh H n acquired created b w = ((created', err), b', w')"
    and "cap_ok (sysCap w)" and "acquired \<le> current (sysCap w)"
    and "0 \<le> created" and "created + int n = acquired"
  shows "created \<le> created' \<and> created' \<le> acquired \<and> (err = None \<longrightarrow> created' = acquired) \<and>
    cap_ok (sysCap w') \<and> cmax (sysCap w') = cmax (sysCap w) \<and>
    current (sysCap w') = current (sysCap w) - (acquired - created')"
  using assms
proof (induction n arbitrary: created b w)
  case 0
  then show ?case by simp
next
  case (Suc n)
  obtain r b1 w1 where c: "createOneVM E gh (vcCPU (vmConfig b)) (vcMemory (vmConfig b))
      (vcLabels (vmConfig b)) b w = (r, b1, w1)" by (metis prod_cases3)
  note fr = createOneVM_frame [OF c]
  show ?case
  proof (cases r)
    case None
    then show ?thesis using Suc.prems Suc.IH [of "created + 1" b1 w1] c fr by auto
  next
    case (Some e)
    have small: "acquired - created < 2 ^ 62"
      using Suc.prems(2-5) by (simp add: cap_ok_def)
    have "created' = created" "err = Some e"
      "sysCap w' = Release (acquired - created) (sysCap w)"
      using Suc.prems(1) c Some fr by auto
    then show ?thesis
      using Suc.prems(2-5) small cap.release_used [of "sysCap w" "acquired - created"]
        cap.invar_release [of "sysCap w" "acquired - created"] by auto
  qed
qed

lemma place_all_accounts:
  assumes "place_all E gh H rc rm acquired wks created b w = ((created', err), b', w')"
    and "cap_ok (sysCap w)" and "acquired \<le> current (sysCap w)"
    and "0 \<le> created" and "created + int (length wks) = acquired"
  shows "created \<le> created' \<and> created' \<le> acquired \<and> (err = None \<longrightarrow> created' = acquired) \<and>
    cap_ok (sysCap w') \<and> cmax (sysCap w') = cmax (sysCap w) \<and>
    current (sysCap w') = current (sysCap w) - (acquired - created')"
  using assms
proof (induction wks arbitrary: created b w)
  case Nil
  then show ?case by simp
next
  case (Cons wk wks)
  obtain r b1 w1 where c: "createOneVM E gh (the (fmlookup (wResources wk) resourceLogicalCores) - rc)
             (the (fmlookup (wResources wk) resourceMemoryMiB) - rm)
             (mergePinLabel (vcLabels (vmConfig b)) (PinIdentity wk)) b w = (r, b1, w1)"
    by (metis prod_cases3)
  note fr = createOneVM_frame [OF c]
  show ?case
  proof (cases r)
    case None
    then show ?thesis using Cons.prems Cons.IH [of "created + 1" b1 w1] c fr by auto
  next
    case (Some e)
    have small: "acquired - created < 2 ^ 62"
      using Cons.prems(2-5) by (simp add: cap_ok_def)
    have "created' = created" "err = Some e"
      "sysCap w' = Release (acquired - created) (sysCap w)"
      using Cons.prems(1) c Some fr by auto
    then show ?thesis
      using Cons.prems(2-5) small cap.release_used [of "sysCap w" "acquired - created"]
        cap.invar_release [of "sysCap w" "acquired - created"] by auto
  qed
qed

end

subsection \<open>The AutoSize loop places its plan\<close>

lemma autosize_plan_distinct:
  assumes "distinct candidates" and "0 \<le> start" and "n \<le> length candidates"
  shows "distinct (autosize_plan candidates start n)"
proof -
  let ?L = "int (length candidates)"
  have "i = j" if "i < n" "j < n" "(start + int i) mod ?L = (start + int j) mod ?L" for i j
  proof -
    have "?L dvd (start + int i) - (start + int j)" using that(3) by (rule mod_eq_dvd_iff [THEN iffD1])
    then have "?L dvd int i - int j" by simp
    moreover have "\<bar>int i - int j\<bar> < ?L" using that(1,2) assms(3) by linarith
    ultimately show ?thesis by (metis dvd_imp_le_int eq_iff_diff_eq_0 not_le of_nat_eq_iff abs_of_nat)
  qed
  moreover have "nat ((start + int i) mod ?L) < length candidates" if "i < n" for i
  proof -
    have "0 < ?L" using that assms(3) by linarith
    then show ?thesis using pos_mod_bound [of ?L "start + int i"] by linarith
  qed
  moreover have "0 \<le> (start + int i) mod ?L" if "i < n" for i
    using that assms(3) by (intro pos_mod_sign) linarith
  ultimately show ?thesis
    using assms(1) by (auto simp: autosize_plan_def distinct_map inj_on_def nth_eq_iff_index_eq)
      (metis nat_eq_iff2)
qed

lemma autosize_plan_subset:
  "candidates \<noteq> [] \<Longrightarrow> set (autosize_plan candidates start n) \<subseteq> set candidates"
  by (auto simp: autosize_plan_def intro!: nth_mem) (simp add: nat_less_iff)

lemma autosize_loop_places:
  assumes "candidates \<noteq> []" and "0 \<le> start" and "start + i + int n < 2 ^ 63" and "0 \<le> i"
    and fits: "\<And>wk. wk \<in> set candidates \<Longrightarrow> AutoSizedVM wk rc rm =
      Inr (the (fmlookup (wResources wk) resourceLogicalCores) - rc,
           the (fmlookup (wResources wk) resourceMemoryMiB) - rm)"
  shows "autosize_loop E gh H candidates rc rm start n i acquired created 0 b w =
    map_prod Return id (place_all E gh H rc rm acquired (autosize_plan candidates (start + i) n) created b w)"
  using assms(3,4)
proof (induction n arbitrary: i created b w)
  case 0
  then show ?case by (simp add: autosize_plan_def)
next
  case (Suc n)
  let ?k = "(start + i) mod int (length candidates)"
  let ?wk = "candidates ! nat ?k"
  have k: "go_rem (wrap64 (start + i)) (int (length candidates)) = ?k"
    using Suc.prems assms(1,2) by (simp add: wrap64_id go_rem_nonneg)
  have r: "0 \<le> ?k" "?k < int (length candidates)" using assms(1) by simp_all
  then have "?wk \<in> set candidates" by (simp add: nat_less_iff)
  note f = fits [OF this]
  have plan: "autosize_plan candidates (start + i) (Suc n) =
      ?wk # autosize_plan candidates (start + (i + 1)) n"
    unfolding autosize_plan_def upt_conv_Cons [OF zero_less_Suc] list.map
    by (simp add: map_Suc_upt [symmetric] o_def ac_simps del: upt_Suc)
  have IH: "autosize_loop E gh H candidates rc rm start n (i + 1) acquired c 0 b' w' =
      map_prod Return id (place_all E gh H rc rm acquired
        (autosize_plan candidates (start + (i + 1)) n) c b' w')" for c b' w'
    using Suc.IH [of "i + 1" c b' w'] Suc.prems by (simp add: id_def)
  show ?case
    using r by (simp add: Let_def k f plan IH doCreateOneVM_def id_def split: prod.split option.split)
qed

lemma free_fits:
  assumes "wk \<in> set (freeAutoSizeWorkers ws vms l rc rm)"
  shows "AutoSizedVM wk rc rm = Inr (the (fmlookup (wResources wk) resourceLogicalCores) - rc,
           the (fmlookup (wResources wk) resourceMemoryMiB) - rm)"
proof -
  have "wk \<in> set (autoSizeCandidates ws l rc rm)" using assms free_candidates by blast
  then show ?thesis by (rule candidate_fits) simp
qed

lemma free_distinct: "distinct (freeAutoSizeWorkers ws vms l rc rm)"
  using free_distinct_pins by (simp add: distinct_map)

lemma autosize_plan_pins:
  assumes "0 \<le> start" and "n \<le> length (freeAutoSizeWorkers ws vms l rc rm)"
    and "freeAutoSizeWorkers ws vms l rc rm \<noteq> []"
  shows "distinct (map PinIdentity (autosize_plan (freeAutoSizeWorkers ws vms l rc rm) start n))"
  using autosize_plan_distinct [OF free_distinct assms(1,2)] autosize_plan_subset [OF assms(3)]
    free_distinct_pins [of ws vms l rc rm]
  by (auto simp: distinct_map intro: inj_on_subset)

text \<open>One AutoSize scale-up either changes nothing but the view, or is one pass over distinct free
  workers. \<open>batch_result\<close> is what the handler returns after the pass.\<close>

definition batch_result :: "('o, 'cb, 'z) sys_scheme hooks \<Rightarrow> int \<Rightarrow>
    (int \<times> gerror option) \<times> bridge \<times> ('o, 'cb, 'z) sys_scheme \<Rightarrow>
    (int \<times> gerror option) outcome \<times> bridge \<times> ('o, 'cb, 'z) sys_scheme" where
  "batch_result H currentActive r =
     (case r of
        ((created, Some err), b, w) \<Rightarrow> (Return (currentActive + created, Some err), b, w)
      | ((created, None), b, w) \<Rightarrow>
          (Return (currentActive + created, None), b, notifyChange H (state_Invalidate w)))"

lemma map_prod_Return_case:
  "(case map_prod Return id x of
      (Panic, b3, w3) \<Rightarrow> f b3 w3
    | (Return (created, Some err), b3, w3) \<Rightarrow> g created err b3 w3
    | (Return (created, None), b3, w3) \<Rightarrow> h created b3 w3) =
   (case x of ((created, Some err), b3, w3) \<Rightarrow> g created err b3 w3
    | ((created, None), b3, w3) \<Rightarrow> h created b3 w3)"
  by (auto split: prod.split option.split)

lemma cursor_start:
  assumes "uint (c :: u64) < 2 ^ 62"
  shows "sint c = uint c"
  using assms by (simp add: sint_u64_small)

lemma handleAutoSize_batch:
  assumes "sysView w \<noteq> None" and "state_Get E w = ((Some sn, err), w1)"
    and "AutoSizeReserves (asReserveCPU (vcAutoSize (vmConfig b)))
           (asReserveMemoryMiB (vcAutoSize (vmConfig b))) = (rc, rm)"
    and "cand = freeAutoSizeWorkers (sWorkers sn) (sVMs sn) (vcLabels (vmConfig b)) rc rm"
    and "cand \<noteq> []" and "TryAcquire (min needed (int (length cand))) (sysCap w1) = (a, c)"
    and "0 < a" and "a < 2 ^ 62" and "uint (placementCursor b) < 2 ^ 62"
  shows "handleAutoSizeScaleUp E gh H needed ca b w =
    batch_result H ca (place_all E gh H rc rm a
      (autosize_plan cand (uint (placementCursor b)) (nat a)) 0
      (b\<lparr>placementCursor := placementCursor b + word_of_int a\<rparr>) (w1\<lparr>sysCap := c\<rparr>))"
proof -
  have min: "(if int (length cand) < needed then int (length cand) else needed) =
      min needed (int (length cand))" by (simp add: min_def)
  have loop: "autosize_loop E gh H cand rc rm (uint (placementCursor b)) (nat a) 0 a 0 0 b2 w2 =
      map_prod Return id (place_all E gh H rc rm a
        (autosize_plan cand (uint (placementCursor b)) (nat a)) 0 b2 w2)" for b2 w2
    using autosize_loop_places [of cand "uint (placementCursor b)" 0 "nat a" rc rm E gh H a 0]
      assms(4,5,7-9) free_fits by simp
  show ?thesis
    unfolding handleAutoSizeScaleUp_def Let_def assms(2) prod.case option.case assms(3)
      assms(4) [symmetric] min assms(6)
    using assms(1,5,7)
    by (simp add: cursor_start [OF assms(9)] loop map_prod_Return_case batch_result_def
        del: not_None_eq)
qed

lemma handleAutoSize_exhausted:
  assumes "sysView w \<noteq> None" and "state_Get E w = ((Some sn, err), w1)"
    and "AutoSizeReserves (asReserveCPU (vcAutoSize (vmConfig b)))
           (asReserveMemoryMiB (vcAutoSize (vmConfig b))) = (rc, rm)"
    and "cand = freeAutoSizeWorkers (sWorkers sn) (sVMs sn) (vcLabels (vmConfig b)) rc rm"
    and "cand \<noteq> []" and "TryAcquire (min needed (int (length cand))) (sysCap w1) = (0, c)"
  shows "handleAutoSizeScaleUp E gh H needed ca b w = (Return (ca, None), b, w1\<lparr>sysCap := c\<rparr>)"
proof -
  have min: "(if int (length cand) < needed then int (length cand) else needed) =
      min needed (int (length cand))" by (simp add: min_def)
  show ?thesis
    unfolding handleAutoSizeScaleUp_def Let_def assms(2) prod.case option.case assms(3)
      assms(4) [symmetric] min assms(6)
    using assms(1,5) by (simp del: not_None_eq)
qed

lemma handleAutoSize_cases:
  assumes "cap_ok (sysCap w)" and "0 < needed" and "uint (placementCursor b) < 2 ^ 62"
  obtains (idle) w1 where "handleAutoSizeScaleUp E gh H needed ca b w = (Return (ca, None), b, w1)"
      and "cap_ok (sysCap w1)" and "current (sysCap w1) = current (sysCap w)"
      and "cmax (sysCap w1) = cmax (sysCap w)"
    | (batch) sn err w1 rc rm cand a c where "state_Get E w = ((Some sn, err), w1)"
      and "AutoSizeReserves (asReserveCPU (vcAutoSize (vmConfig b)))
           (asReserveMemoryMiB (vcAutoSize (vmConfig b))) = (rc, rm)"
      and "cand = freeAutoSizeWorkers (sWorkers sn) (sVMs sn) (vcLabels (vmConfig b)) rc rm"
      and "cand \<noteq> []" and "TryAcquire (min needed (int (length cand))) (sysCap w) = (a, c)"
      and "0 < a" and "a \<le> needed" and "a \<le> int (length cand)" and "cap_ok c"
      and "current c = current (sysCap w) + a" and "cmax c = cmax (sysCap w)"
      and "current c \<le> cmax c"
      and "handleAutoSizeScaleUp E gh H needed ca b w =
        batch_result H ca (place_all E gh H rc rm a
          (autosize_plan cand (uint (placementCursor b)) (nat a)) 0
          (b\<lparr>placementCursor := placementCursor b + word_of_int a\<rparr>) (w1\<lparr>sysCap := c\<rparr>))"
proof (cases "sysView w = None")
  case True
  then show thesis using idle [of w] assms(1) by (simp add: handleAutoSizeScaleUp_def)
next
  case view: False
  obtain osn err w1 where g: "state_Get E w = ((osn, err), w1)" by (metis surj_pair)
  have w1: "sysCap w1 = sysCap w" using g by simp
  show thesis
  proof (cases osn)
    case None
    then show thesis using idle [of w1] assms(1) view g w1 by (simp add: handleAutoSizeScaleUp_def)
  next
    case (Some sn)
    obtain rc rm where res: "AutoSizeReserves (asReserveCPU (vcAutoSize (vmConfig b)))
           (asReserveMemoryMiB (vcAutoSize (vmConfig b))) = (rc, rm)" by (metis surj_pair)
    define cand where
      "cand = freeAutoSizeWorkers (sWorkers sn) (sVMs sn) (vcLabels (vmConfig b)) rc rm"
    show thesis
    proof (cases "cand = []")
      case True
      then show thesis using idle [of w1] assms(1) view g w1 res Some cand_def
        by (simp add: handleAutoSizeScaleUp_def Let_def)
    next
      case cand: False
      obtain a c where t: "TryAcquire (min needed (int (length cand))) (sysCap w) = (a, c)"
        by (metis surj_pair)
      have n: "0 \<le> min needed (int (length cand))" using assms(2) by simp
      note r = cap.acquire_result [OF assms(1) n t]
      show thesis
      proof (cases "a = 0")
        case True
        have "TryAcquire (min needed (int (length cand))) (sysCap w1) = (0, c)"
          using t w1 True by simp
        note handleAutoSize_exhausted [OF view g [unfolded Some] res cand_def cand this, of gh H ca]
        then show thesis using idle [of "w1\<lparr>sysCap := c\<rparr>"] r True by simp
      next
        case False
        then have a: "0 < a" using r by linarith
        have "current c \<le> cmax c"
          using cap.grant_within_limit [OF assms(1) n] t a r(3) by simp
        then show thesis
          using batch [OF g [unfolded Some] res cand_def cand t a] r
            handleAutoSize_batch [OF view g [unfolded Some] res cand_def cand, of needed a c gh H ca]
            t w1 a assms(3) by simp
      qed
    qed
  qed
qed

end
