(* ===== verification/Bridge_Spec.thy ===== *)
theory Bridge_Spec
  imports Bridge_Model
begin

text \<open>
  What a scale-up, a completed job and the start-up hydration guarantee. The accounting lemmas are
  proved once for every pair of callbacks that leaves the slot counter alone (\<open>change_hook\<close> of
  \<open>Bridge_Model\<close>); \<open>Manager_Model\<close> interprets it on the callbacks the manager installs.
\<close>

subsection \<open>The VMs a bridge tracks\<close>

text \<open>\<open>tracks b b' n\<close>: \<open>b'\<close> still tracks every name \<open>b\<close> does and at most \<open>n\<close> more, all of them
  names of its scale set, and its configuration is that of \<open>b\<close>.\<close>

definition tracks :: "bridge \<Rightarrow> bridge \<Rightarrow> int \<Rightarrow> bool" where
  "tracks b b' n \<longleftrightarrow> scaleSetName b' = scaleSetName b \<and> scaleSetID b' = scaleSetID b \<and>
     vmConfig b' = vmConfig b \<and> fmdom (activeVMs b) |\<subseteq>| fmdom (activeVMs b') \<and>
     ActiveVMCount b' \<le> ActiveVMCount b + n \<and>
     (\<forall>nm v. fmlookup (activeVMs b') nm = Some v \<longrightarrow>
        fmlookup (activeVMs b) nm = Some v \<or> v = nm \<and> (\<exists>u. nm = VMName (scaleSetName b) u))"

lemma tracks_refl [simp]: "0 \<le> n \<Longrightarrow> tracks b b n"
  by (simp add: tracks_def)

lemma tracks_cursor [simp]: "tracks (b\<lparr>placementCursor := c\<rparr>) b' n = tracks b b' n"
  by (simp add: tracks_def ActiveVMCount_def)

lemma tracks_mono: "tracks b b' m \<Longrightarrow> m \<le> n \<Longrightarrow> tracks b b' n"
  by (simp add: tracks_def)

lemma tracks_trans:
  assumes "tracks b b1 m" and "tracks b1 b2 n"
  shows "tracks b b2 (m + n)"
proof -
  have "fmlookup (activeVMs b) nm = Some v \<or> v = nm \<and> (\<exists>u. nm = VMName (scaleSetName b) u)"
    if v: "fmlookup (activeVMs b2) nm = Some v" for nm v
  proof (cases "fmlookup (activeVMs b1) nm = Some v")
    case True
    with assms(1) show ?thesis by (simp add: tracks_def)
  next
    case False
    have "\<forall>nm v. fmlookup (activeVMs b2) nm = Some v \<longrightarrow>
        fmlookup (activeVMs b1) nm = Some v \<or> v = nm \<and> (\<exists>u. nm = VMName (scaleSetName b) u)"
      using assms by (simp add: tracks_def)
    with v False show ?thesis by blast
  qed
  then show ?thesis using assms by (auto simp: tracks_def)
qed

lemma createOneVM_tracks:
  assumes "createOneVM E gh cpu mem ls b w = (r, b', w')"
  shows "tracks b b' (if r = None then 1 else 0)"
  using assms by (cases rule: createOneVM_cases) (auto simp: tracks_def ActiveVMCount_def)

lemma create_loop_tracks:
  "create_loop E gh H n acquired created b w = ((created', err), b', w') \<Longrightarrow>
    tracks b b' (created' - created)"
proof (induction n arbitrary: created b w)
  case 0
  then show ?case by simp
next
  case (Suc n)
  obtain r b1 w1 where c: "createOneVM E gh (vcCPU (vmConfig b)) (vcMemory (vmConfig b))
      (vcLabels (vmConfig b)) b w = (r, b1, w1)" by (metis prod_cases3)
  note t = createOneVM_tracks [OF c]
  show ?case
  proof (cases r)
    case None
    then show ?thesis
      using Suc.prems c tracks_trans [OF t Suc.IH [of "created + 1" b1 w1]] by simp
  next
    case (Some e)
    then show ?thesis using Suc.prems c t by auto
  qed
qed

lemma place_all_tracks:
  "place_all E gh H rc rm acquired wks created b w = ((created', err), b', w') \<Longrightarrow>
    tracks b b' (created' - created)"
proof (induction wks arbitrary: created b w)
  case Nil
  then show ?case by simp
next
  case (Cons wk wks)
  obtain r b1 w1 where c: "createOneVM E gh (the (fmlookup (wResources wk) resourceLogicalCores) - rc)
             (the (fmlookup (wResources wk) resourceMemoryMiB) - rm)
             (mergePinLabel (vcLabels (vmConfig b)) (PinIdentity wk)) b w = (r, b1, w1)"
    by (metis prod_cases3)
  note t = createOneVM_tracks [OF c]
  show ?case
  proof (cases r)
    case None
    then show ?thesis
      using Cons.prems c tracks_trans [OF t Cons.IH [of "created + 1" b1 w1]] by simp
  next
    case (Some e)
    then show ?thesis using Cons.prems c t by auto
  qed
qed

subsection \<open>What a scale-up accounts for\<close>

text \<open>The contract of one call with \<open>active\<close> VMs tracked and \<open>count\<close> wanted: the result \<open>n\<close> lies
  between the two, the counter moved by exactly the VMs created, and it stayed within its limit if
  there were any.\<close>

definition desired_ok :: "int \<Rightarrow> bridge \<Rightarrow> ('o, 'cb, 'z) sys_scheme \<Rightarrow>
    (int \<times> gerror option) outcome \<times> bridge \<times> ('o, 'cb, 'z) sys_scheme \<Rightarrow> bool" where
  "desired_ok count b w res \<longleftrightarrow>
     (case res of
        (Panic, _) \<Rightarrow> False
      | (Return (n, err), b', w') \<Rightarrow>
          ActiveVMCount b \<le> n \<and> n \<le> max (ActiveVMCount b) count \<and>
          tracks b b' (n - ActiveVMCount b) \<and> cap_ok (sysCap w') \<and>
          cmax (sysCap w') = cmax (sysCap w) \<and>
          current (sysCap w') = current (sysCap w) + (n - ActiveVMCount b) \<and>
          (ActiveVMCount b < n \<longrightarrow> current (sysCap w') \<le> cmax (sysCap w')))"

lemma desired_idle:
  assumes "cap_ok (sysCap w1)" and "current (sysCap w1) = current (sysCap w)"
    and "cmax (sysCap w1) = cmax (sysCap w)"
  shows "desired_ok count b w (Return (ActiveVMCount b, None), b, w1)"
  using assms by (simp add: desired_ok_def)

lemma static_gate_frame [simp]: "static_gate E needed b w = (g, w1) \<Longrightarrow> sysCap w1 = sysCap w"
  by (auto simp: static_gate_def Let_def split: if_splits prod.splits option.splits
      dest: state_Get_frame)

lemma static_gate_bounds:
  assumes "static_gate E needed b w = (Some n, w1)" and "0 < needed"
  shows "0 < n" and "n \<le> needed"
  using assms by (auto simp: static_gate_def Let_def split: if_splits prod.splits option.splits)

text \<open>A pass followed by what the handler does with its result.\<close>

context change_hook
begin

lemma batch_desired:
  assumes pass: "r = ((created, err), b', w')"
    and "tracks b b' created" and "created \<le> a" and "0 \<le> created"
    and "cap_ok (sysCap w')" and "cmax (sysCap w') = cmax (sysCap w)"
    and "current (sysCap w') = current (sysCap w) + a - (a - created)"
    and "current (sysCap w) + a \<le> cmax (sysCap w)"
    and "ActiveVMCount b + a \<le> count"
  shows "desired_ok count b w (batch_result H (ActiveVMCount b) r)"
  using assms by (cases err) (auto simp: desired_ok_def batch_result_def)

lemma autosize_desired:
  assumes ok: "cap_ok (sysCap w)" and n: "0 < needed" "ActiveVMCount b + needed \<le> count"
    and c: "uint (placementCursor b) < 2 ^ 62"
  shows "desired_ok count b w (handleAutoSizeScaleUp E gh H needed (ActiveVMCount b) b w)"
  using ok n(1) c
proof (cases rule: handleAutoSize_cases [where ca = "ActiveVMCount b" and E = E and gh = gh and H = H])
  case (idle w1)
  then show ?thesis by (simp add: desired_idle)
next
  case (batch sn err w1 rc rm cand a cc)
  let ?b2 = "b\<lparr>placementCursor := placementCursor b + word_of_int a\<rparr>"
  let ?w2 = "w1\<lparr>sysCap := cc\<rparr>"
  obtain created e b' w' where p: "place_all E gh H rc rm a
      (autosize_plan cand (uint (placementCursor b)) (nat a)) 0 ?b2 ?w2 = ((created, e), b', w')"
    by (metis surj_pair)
  have len: "0 + int (length (autosize_plan cand (uint (placementCursor b)) (nat a))) = a"
    using batch by (simp add: autosize_plan_def)
  have "a \<le> current cc" using batch ok by (simp add: cap_ok_def)
  then have acc: "0 \<le> created" "created \<le> a" "cap_ok (sysCap w')" "cmax (sysCap w') = cmax cc"
    "current (sysCap w') = current cc - (a - created)"
    using place_all_accounts [OF p _ _ _ len] batch by simp_all
  show ?thesis
    unfolding batch(13)
    using acc batch n place_all_tracks [OF p] by (intro batch_desired [where a = a, OF p]) simp_all
qed

lemma static_desired:
  assumes ok: "cap_ok (sysCap w)" and n: "0 \<le> n" "ActiveVMCount b + n \<le> count"
    and t: "TryAcquire n (sysCap w1) = (a, c)" "a \<noteq> 0" and w1: "sysCap w1 = sysCap w"
  shows "desired_ok count b w (batch_result H (ActiveVMCount b)
           (create_loop E gh H (nat a) a 0 b (w1\<lparr>sysCap := c\<rparr>)))"
proof -
  note t1 = t(1) [unfolded w1]
  note r = cap.acquire_result [OF ok n(1) t1]
  have lim: "current c \<le> cmax c"
    using cap.grant_within_limit [OF ok n(1)] t1 t(2) r by simp
  obtain created e b' w' where p: "create_loop E gh H (nat a) a 0 b (w1\<lparr>sysCap := c\<rparr>) =
      ((created, e), b', w')" by (metis surj_pair)
  have "a \<le> current c" using r ok by (simp add: cap_ok_def)
  then have acc: "0 \<le> created" "created \<le> a" "cap_ok (sysCap w')" "cmax (sysCap w') = cmax c"
    "current (sysCap w') = current c - (a - created)"
    using create_loop_accounts [OF p] r by simp_all
  show ?thesis
    using acc r n lim create_loop_tracks [OF p] by (intro batch_desired [where a = a, OF p]) simp_all
qed

lemma desired:
  assumes ok: "cap_ok (sysCap w)" and count: "in_int64 count" "0 \<le> count"
    and len: "in_int64 (ActiveVMCount b)" and c: "uint (placementCursor b) < 2 ^ 62"
  shows "desired_ok count b w (HandleDesiredRunnerCount E gh H count b w)"
proof -
  have nn: "0 \<le> ActiveVMCount b" by (simp add: ActiveVMCount_def)
  define needed where "needed = count - ActiveVMCount b"
  have needed: "wrap64 needed = needed"
    using count len nn unfolding in_int64_def needed_def
    by (intro wrap64_id) linarith+
  note unfold = HandleDesiredRunnerCount_def Let_def ActiveVMCount_def [symmetric] needed
    needed_def [symmetric]
  show ?thesis
  proof (cases "needed \<le> 0")
    case True
    then show ?thesis unfolding unfold using ok desired_idle [of w w] by simp
  next
    case pos: False
    show ?thesis
    proof (cases "asEnabled (vcAutoSize (vmConfig b))")
      case True
      have "desired_ok count b w (handleAutoSizeScaleUp E gh H needed (ActiveVMCount b) b w)"
        using pos by (intro autosize_desired [OF ok _ _ c]) (simp_all add: needed_def)
      then show ?thesis unfolding unfold using pos True by simp
    next
      case static: False
      obtain g w1 where g: "static_gate E needed b w = (g, w1)" by (metis surj_pair)
      have w1: "sysCap w1 = sysCap w" using g by simp
      show ?thesis
      proof (cases g)
        case None
        then show ?thesis unfolding unfold using pos static g w1 ok desired_idle [of w1 w] by simp
      next
        case (Some n)
        then have n: "0 < n" "n \<le> needed" using static_gate_bounds [OF g [unfolded Some]] pos by simp_all
        obtain a cc where t: "TryAcquire n (sysCap w1) = (a, cc)" by (metis surj_pair)
        show ?thesis
        proof (cases "a = 0")
          case True
          then show ?thesis unfolding unfold
            using pos static g Some t w1 ok n desired_idle [of "w1\<lparr>sysCap := cc\<rparr>" w]
              cap.acquire_result [of "sysCap w" n a cc] by simp
        next
          case False
          note d = static_desired [OF ok _ _ t False w1, of b count E gh]
          show ?thesis unfolding unfold
            using pos static g Some t False n d
            by (simp add: batch_result_def needed_def)
        qed
      qed
    qed
  qed
qed

end

subsection \<open>What a completed job accounts for\<close>

text \<open>Completion also calls \<open>onDeleteFailed\<close>, which must leave the counter alone as well.\<close>

locale job_hooks = change_hook +
  assumes failed_cap: "onDeleteFailed H = Some fn \<Longrightarrow> sysCap (fn vm w) = sysCap w"
begin

lemma job_accounts:
  assumes "cap_ok (sysCap w)" and "HandleJobCompleted E gh H name rid b w = (Return r, b', w')"
  shows "cap_ok (sysCap w') \<and> cmax (sysCap w') = cmax (sysCap w) \<and>
    current (sysCap w') =
      (case fmlookup (activeVMs b) name of
         None \<Rightarrow> current (sysCap w)
       | Some vm \<Rightarrow> if fst (DeleteVM E vm (sysExt w)) = Return None
                   then max 0 (current (sysCap w) - 1) else current (sysCap w))"
  using assms cap.release_used [OF assms(1), of 1] cap.invar_release [OF assms(1), of 1]
  by (auto simp: HandleJobCompleted_def Let_def failed_cap split: option.splits prod.splits outcome.splits)

end

subsection \<open>Bounds that need no assumption on the callbacks\<close>

lemma create_loop_count:
  "create_loop E gh H n acquired created b w = ((created', err), b', w') \<Longrightarrow>
    created \<le> created' \<and> created' \<le> created + int n"
proof (induction n arbitrary: created b w)
  case 0
  then show ?case by simp
next
  case (Suc n)
  obtain r b1 w1 where c: "createOneVM E gh (vcCPU (vmConfig b)) (vcMemory (vmConfig b))
      (vcLabels (vmConfig b)) b w = (r, b1, w1)" by (metis prod_cases3)
  show ?case
    using Suc.prems c Suc.IH [of "created + 1" b1 w1] by (cases r) auto
qed

lemma place_all_count:
  "place_all E gh H rc rm acquired wks created b w = ((created', err), b', w') \<Longrightarrow>
    created \<le> created' \<and> created' \<le> created + int (length wks)"
proof (induction wks arbitrary: created b w)
  case Nil
  then show ?case by simp
next
  case (Cons wk wks)
  obtain r b1 w1 where c: "createOneVM E gh (the (fmlookup (wResources wk) resourceLogicalCores) - rc)
             (the (fmlookup (wResources wk) resourceMemoryMiB) - rm)
             (mergePinLabel (vcLabels (vmConfig b)) (PinIdentity wk)) b w = (r, b1, w1)"
    by (metis prod_cases3)
  show ?case
    using Cons.prems c Cons.IH [of "created + 1" b1 w1] by (cases r) auto
qed

lemma TryAcquire_le:
  assumes "TryAcquire n c = (a, c')" and "0 \<le> n"
  shows "0 \<le> a" and "a \<le> n"
  using assms by (auto simp: TryAcquire_def Let_def split: if_splits)

lemma static_gate_free:
  assumes "static_gate E needed b w = (Some n, w1)" and "sysView w \<noteq> None"
    and "state_Get E w = ((Some sn, err), w2)"
  shows "n \<le> wrap64 (CapacityForLabels (sWorkers sn) (vcLabels (vmConfig b)) -
      countActiveVMs (ManagedVMsMatchingLabels sn (vcLabels (vmConfig b))))"
  using assms by (auto simp: static_gate_def Let_def split: if_splits)

lemma countActiveVMs_le: "countActiveVMs vms \<le> int (length vms)"
  by (simp add: countActiveVMs_eq)

lemma ManagedVMsMatchingLabels_length: "length (ManagedVMsMatchingLabels s l) \<le> length (sVMs s)"
  by (simp add: ManagedVMsMatchingLabels_def)

subsection \<open>Hydration\<close>

lemma hydrate_fold:
  "foldl (\<lambda>(act, adopted) vm.
      if vStatus vm = VMStatusStopped \<or> vStatus vm = VMStatusFailed then (act, adopted)
      else (fmupd (vName vm) (vName vm) act, adopted + 1)) (m, k :: int) vms =
   (foldl (\<lambda>act vm. fmupd (vName vm) (vName vm) act) m (filter (\<lambda>vm. \<not> vm_terminal vm) vms),
    k + countActiveVMs vms)"
  by (induction vms arbitrary: m k rule: rev_induct)
    (simp_all add: countActiveVMs_eq vm_terminal_def)

lemma fold_fmupd_lookup:
  "fmlookup (foldl (\<lambda>act vm. fmupd (vName vm) (vName vm) act) m vms) nm =
    (if nm \<in> vName ` set vms then Some nm else fmlookup m nm)"
  by (induction vms rule: rev_induct) auto

lemma hydrate_lookup:
  assumes "sysView w \<noteq> None" and "state_Get E w = ((Some sn, err), w1)"
    and "HydrateFromOrchard E b w = ((adopted, herr), b', w')"
  shows "herr = err" and "w' = w1"
    and "adopted = countActiveVMs (ManagedVMsForScaleSet sn (scaleSetName b))"
    and "fmlookup (activeVMs b') nm =
      (if \<exists>vm\<in>set (sVMs sn). vName vm = nm \<and> nameForScaleSet (scaleSetName b) nm \<and> \<not> vm_terminal vm
       then Some nm else fmlookup (activeVMs b) nm)"
    and "scaleSetName b' = scaleSetName b"
proof -
  have e: "((adopted, herr), b', w') =
      ((countActiveVMs (ManagedVMsForScaleSet sn (scaleSetName b)), err),
       b\<lparr>activeVMs := foldl (\<lambda>act vm. fmupd (vName vm) (vName vm) act) (activeVMs b)
          (filter (\<lambda>vm. \<not> vm_terminal vm) (ManagedVMsForScaleSet sn (scaleSetName b)))\<rparr>, w1)"
    using assms by (simp add: HydrateFromOrchard_def hydrate_fold del: not_None_eq)
  show "herr = err" "w' = w1" "adopted = countActiveVMs (ManagedVMsForScaleSet sn (scaleSetName b))"
    "scaleSetName b' = scaleSetName b" using e by simp_all
  have mem: "nm \<in> vName ` set (filter (\<lambda>vm. \<not> vm_terminal vm) (ManagedVMsForScaleSet sn (scaleSetName b))) \<longleftrightarrow>
      (\<exists>vm\<in>set (sVMs sn). vName vm = nm \<and> nameForScaleSet (scaleSetName b) nm \<and> \<not> vm_terminal vm)"
    by (auto simp: ManagedVMsForScaleSet_def)
  show "fmlookup (activeVMs b') nm =
      (if \<exists>vm\<in>set (sVMs sn). vName vm = nm \<and> nameForScaleSet (scaleSetName b) nm \<and> \<not> vm_terminal vm
       then Some nm else fmlookup (activeVMs b) nm)"
    unfolding mem [symmetric] using e by (simp add: fold_fmupd_lookup)
qed

lemma VMName_managed: "uuid_ok u \<Longrightarrow> IsManagedVM (VMName ss u)"
  using VMName_body [of u ss] by (metis IsManagedVM_def has_prefix_append)

lemma VMName_own_scale_set:
  assumes "uuid_ok u" and "length (VMNamePrefixForScaleSet ss) \<le> 62"
  shows "nameForScaleSet ss (VMName ss u)"
proof -
  obtain r where "VMName ss u = VMNamePrefixForScaleSet ss @ r" "CHR ''-'' \<notin> set r"
    using VMName_shape [OF assms(2,1)] by metis
  then show ?thesis by (simp add: nameForScaleSet_append)
qed

subsection \<open>A concrete world\<close>

text \<open>An Orchard with a VM list, a worker list, a clock, a counter for fresh identifiers and a switch
  that makes every call fail: the environment of the witnesses.\<close>

record ex_world =
  exVMs :: "VM list"
  exWorkers :: "Worker list"
  exNow :: gotime
  exSeq :: nat
  exFail :: bool

definition ex_uuid :: "nat \<Rightarrow> string" where
  "ex_uuid n = char_of (48 + n mod 10) # ''a1b2c3d-0000-4000-8000-000000000000''"

definition ex_env :: "ex_world env" where
  "ex_env =
     \<lparr>CreateVM = (\<lambda>vm st. if exFail st then (Inl (Opaque ''down''), st)
                          else (Inr vm, st\<lparr>exVMs := exVMs st @ [vm]\<rparr>)),
      GetVM = (\<lambda>name st. (case find (\<lambda>vm. vName vm = name) (exVMs st) of
                          None \<Rightarrow> (Inl ErrNotFound, st) | Some vm \<Rightarrow> (Inr vm, st))),
      ListVMs = (\<lambda>st. if exFail st then (Inl (Opaque ''down''), st) else (Inr (exVMs st), st)),
      DeleteVM = (\<lambda>name st. if exFail st then (Return (Some (Opaque ''down'')), st)
                          else (Return None, st\<lparr>exVMs := filter (\<lambda>vm. vName vm \<noteq> name) (exVMs st)\<rparr>)),
      ListWorkers = (\<lambda>st. if exFail st then (Inl (Opaque ''down''), st) else (Inr (exWorkers st), st)),
      DeleteWorker = (\<lambda>name st. if exFail st then (Some (Opaque ''down''), st)
                          else (None, st\<lparr>exWorkers := filter (\<lambda>w. wName w \<noteq> name) (exWorkers st)\<rparr>)),
      Ping = (\<lambda>st. (None, st)),
      time_Now = (\<lambda>st. (exNow st, st)),
      uuid_New = (\<lambda>st. (ex_uuid (exSeq st), st\<lparr>exSeq := Suc (exSeq st)\<rparr>))\<rparr>"

definition ex_gh :: "ex_world gh_client" where
  "ex_gh = \<lparr>GenerateJitRunnerConfig = (\<lambda>name sid st. (Inr ''jit'', st)),
            RemoveRunner = (\<lambda>rid st. (Return None, st)),
            GetRunnerByName = (\<lambda>name st. (Return (Inr None), st))\<rparr>"

definition ex_state :: "VM list \<Rightarrow> Worker list \<Rightarrow> ex_world" where
  "ex_state vms ws = \<lparr>exVMs = vms, exWorkers = ws, exNow = 1000, exSeq = 1, exFail = False\<rparr>"

definition ex_sys :: "int \<Rightarrow> VM list \<Rightarrow> Worker list \<Rightarrow> (ex_world, unit) sys" where
  "ex_sys m vms ws = \<lparr>sysExt = ex_state vms ws, sysCap = NewCapacity m,
     sysView = Some (NewStateView 0 0)\<rparr>"

definition no_hooks :: "'w hooks" where
  "no_hooks = \<lparr>onVMChange = None, onDeleteFailed = None\<rparr>"

lemma ex_env_sel [simp]:
  "ListVMs ex_env st = (if exFail st then (Inl (Opaque ''down''), st) else (Inr (exVMs st), st))"
  "ListWorkers ex_env st = (if exFail st then (Inl (Opaque ''down''), st) else (Inr (exWorkers st), st))"
  "time_Now ex_env st = (exNow st, st)"
  "DeleteVM ex_env name st = (if exFail st then (Return (Some (Opaque ''down'')), st)
     else (Return None, st\<lparr>exVMs := filter (\<lambda>vm. vName vm \<noteq> name) (exVMs st)\<rparr>))"
  "DeleteWorker ex_env name st = (if exFail st then (Some (Opaque ''down''), st)
     else (None, st\<lparr>exWorkers := filter (\<lambda>w. wName w \<noteq> name) (exWorkers st)\<rparr>))"
  "RemoveRunner ex_gh rid st = (Return None, st)"
  "GetRunnerByName ex_gh name st = (Return (Inr None), st)"
  by (simp_all add: ex_env_def ex_gh_def)

lemma ex_sys_sel [simp]:
  "sysExt (ex_sys m vms ws) = ex_state vms ws" "sysCap (ex_sys m vms ws) = NewCapacity m"
  "sysView (ex_sys m vms ws) = Some (NewStateView 0 0)"
  "exVMs (ex_state vms ws) = vms" "exWorkers (ex_state vms ws) = ws" "exNow (ex_state vms ws) = 1000"
  "exFail (ex_state vms ws) = False"
  by (simp_all add: ex_sys_def ex_state_def)

lemma cap_ok_New [simp]: "0 \<le> m \<Longrightarrow> m < 2 ^ 62 \<Longrightarrow> cap_ok (NewCapacity m)"
  by (simp add: cap_ok_def NewCapacity_def)

lemma Get_new_view:
  "Get ex_env (NewStateView t d) st =
    (if exFail st then ((None, Some (Opaque ''down'')), (NewStateView t d)\<lparr>lastErr := Some (Opaque ''down'')\<rparr>, st)
     else let sn = newSnapshot (exVMs st) (exWorkers st) (exNow st) (staleAfter (NewStateView t d)) in
       ((Some sn, None), (NewStateView t d)\<lparr>snap := Some sn, lastErr := None\<rparr>, st))"
  by (simp add: Get_def fresh_snap_def refresh_def NewStateView_def Let_def)

subsection \<open>Properties\<close>

text \<open>C22. Without AutoSize a scale-up never provisions past the workers it can be scheduled on: with a
  snapshot, the VMs it creates are at most the matching workers' advertised slots minus the active
  managed VMs already on (or bound for) such workers.\<close>

theorem HandleDesired_respects_free_slots:
  assumes "\<not> asEnabled (vcAutoSize (vmConfig b))" and "sysView w \<noteq> None"
    and "state_Get E w = ((Some sn, err), w1)"
    and "fleet_slots (sWorkers sn) < 2 ^ 62" and "length (sVMs sn) < 2 ^ 62"
    and "HandleDesiredRunnerCount E gh H count b w = (Return (n, e), b', w')"
  shows "n - ActiveVMCount b \<le> max 0 (CapacityForLabels (sWorkers sn) (vcLabels (vmConfig b)) -
      countActiveVMs (ManagedVMsMatchingLabels sn (vcLabels (vmConfig b))))"
proof -
  let ?cap = "CapacityForLabels (sWorkers sn) (vcLabels (vmConfig b))"
  let ?act = "countActiveVMs (ManagedVMsMatchingLabels sn (vcLabels (vmConfig b)))"
  have cap: "0 \<le> ?cap" "?cap < 2 ^ 62"
    using label_count.count_bounded [of "sWorkers sn" "vcLabels (vmConfig b)"] assms(4) by simp_all
  have act: "0 \<le> ?act" "?act < 2 ^ 62"
    using countActiveVMs_le [of "ManagedVMsMatchingLabels sn (vcLabels (vmConfig b))"]
      ManagedVMsMatchingLabels_length [of sn "vcLabels (vmConfig b)"] assms(5) by simp_all
  have w: "wrap64 (?cap - ?act) = ?cap - ?act" using cap act by (rule wrap64_diff)
  define needed where "needed = wrap64 (count - ActiveVMCount b)"
  note unfold = HandleDesiredRunnerCount_def Let_def ActiveVMCount_def [symmetric] needed_def [symmetric]
  obtain g w2 where g: "static_gate E needed b w = (g, w2)" by (metis surj_pair)
  show ?thesis
  proof (cases "needed \<le> 0 \<or> g = None")
    case True
    then have "n = ActiveVMCount b" using assms(1,6) g unfolding unfold by (auto split: if_splits)
    then show ?thesis by simp
  next
    case False
    then obtain k where k: "g = Some k" by auto
    have free: "0 < k" "k \<le> ?cap - ?act"
      using static_gate_bounds [OF g [unfolded k]] static_gate_free [OF g [unfolded k] assms(2,3)] False w
      by simp_all
    obtain a c where t: "TryAcquire k (sysCap w2) = (a, c)" by (metis surj_pair)
    obtain created e' b3 w3 where p: "create_loop E gh H (nat a) a 0 b (w2\<lparr>sysCap := c\<rparr>) =
        ((created, e'), b3, w3)" by (metis surj_pair)
    have "created \<le> k" using create_loop_count [OF p] TryAcquire_le [OF t] free by simp
    moreover have "n = ActiveVMCount b \<or> n = ActiveVMCount b + created"
      using assms(1,6) False g k t p unfolding unfold by (auto split: option.splits if_splits)
    ultimately show ?thesis using free by auto
  qed
qed

text \<open>A bridge on a two-worker pool for the witnesses.\<close>

definition ex_bridge :: "bool \<Rightarrow> bridge" where
  "ex_bridge auto = NewBridge ''ci'' 7 (ex_vmconfig\<lparr>vcAutoSize := (vcAutoSize ex_vmconfig)\<lparr>asEnabled := auto\<rparr>\<rparr>)"

definition ex_pool :: "Worker list" where
  "ex_pool = [ex_worker ''a'' ''mini-1'', ex_worker ''b'' ''mini-2'']"

text \<open>C12. An AutoSize scale-up either changes nothing (no view, no snapshot, no free worker, no slot) or
  is one pass over a list of distinct free workers, no longer than what was asked: one VM per
  worker, sized from it and pinned to it, stopping at the first failure. The remainder of the
  placement cursor, the skip branch and the index check never matter.\<close>

theorem AutoSize_places_on_distinct_free_workers:
  assumes "cap_ok (sysCap w)" and "0 < needed" and "uint (placementCursor b) < 2 ^ 62"
    and "handleAutoSizeScaleUp E gh H needed active b w = (res, b', w')"
  shows "res = Return (active, None) \<and> b' = b \<and> current (sysCap w') = current (sysCap w) \<or>
    (\<exists>sn err w1 rc rm wks c. state_Get E w = ((Some sn, err), w1) \<and>
       (rc, rm) = AutoSizeReserves (asReserveCPU (vcAutoSize (vmConfig b)))
         (asReserveMemoryMiB (vcAutoSize (vmConfig b))) \<and>
       set wks \<subseteq> set (freeAutoSizeWorkers (sWorkers sn) (sVMs sn) (vcLabels (vmConfig b)) rc rm) \<and>
       distinct (map PinIdentity wks) \<and> wks \<noteq> [] \<and> int (length wks) \<le> needed \<and>
       current c = current (sysCap w) + int (length wks) \<and> current c \<le> cmax c \<and>
       (res, b', w') = batch_result H active (place_all E gh H rc rm (int (length wks)) wks 0
         (b\<lparr>placementCursor := placementCursor b + word_of_int (int (length wks))\<rparr>)
         (w1\<lparr>sysCap := c\<rparr>)))"
  using assms(1-3)
proof (cases rule: handleAutoSize_cases [where ca = active and E = E and gh = gh and H = H])
  case (idle w1)
  then show ?thesis using assms(4) by simp
next
  case (batch sn err w1 rc rm cand a c)
  let ?wks = "autosize_plan cand (uint (placementCursor b)) (nat a)"
  have len: "int (length ?wks) = a" using batch(6) by (simp add: autosize_plan_def)
  have "distinct (map PinIdentity ?wks)"
    using autosize_plan_pins [of "uint (placementCursor b)" "nat a" "sWorkers sn" "sVMs sn"
        "vcLabels (vmConfig b)" rc rm] batch(3,4,6,8) by (simp add: nat_le_iff)
  moreover have "set ?wks \<subseteq> set cand" using autosize_plan_subset [OF batch(4)] .
  moreover have "?wks \<noteq> []" using len batch(6) by auto
  moreover have "(res, b', w') = batch_result H active (place_all E gh H rc rm (int (length ?wks)) ?wks 0
         (b\<lparr>placementCursor := placementCursor b + word_of_int (int (length ?wks))\<rparr>) (w1\<lparr>sysCap := c\<rparr>))"
    unfolding len using batch(13) assms(4) by simp
  moreover have "int (length ?wks) \<le> needed" "current c = current (sysCap w) + int (length ?wks)"
    unfolding len using batch(7,10) by simp_all
  ultimately show ?thesis using batch(1,2,3,12) by metis
qed

lemma ex_bridge_sel [simp]:
  "scaleSetName (ex_bridge auto) = ''ci''" "activeVMs (ex_bridge auto) = fmempty"
  "placementCursor (ex_bridge auto) = 0" "asEnabled (vcAutoSize (vmConfig (ex_bridge auto))) = auto"
  "ActiveVMCount (ex_bridge auto) = 0" "vcLabels (vmConfig (ex_bridge auto)) = fmempty"
  by (simp_all add: ex_bridge_def NewBridge_def ActiveVMCount_def ex_vmconfig_def)

lemma ex_stale [simp]: "staleAfter (NewStateView t 0) = 2 * minute"
  by (simp add: NewStateView_def DefaultWorkerStaleAfter_def)

lemma ex_state_Get:
  "state_Get ex_env (ex_sys m vms ws) =
    (let sn = newSnapshot vms ws 1000 (2 * minute) in
     ((Some sn, None), (ex_sys m vms ws)\<lparr>sysView :=
       Some ((NewStateView 0 0)\<lparr>snap := Some sn, lastErr := None\<rparr>)\<rparr>))"
  by (simp add: state_Get_def Get_new_view Let_def)

lemma ex_pool_facts:
  "LiveWorkers ex_pool (2 * minute) 1000 = ex_pool"
  "CapacityForLabels ex_pool fmempty = 2" "fleet_slots ex_pool = 2"
  "freeAutoSizeWorkers ex_pool [] fmempty 4 4096 = ex_pool"
  by (simp_all add: LiveWorkers_def WorkerLive_def is_zero_time_def CapacityForLabels_def
      ex_pool_def wrap64_def fleet_slots_def worker_slots_def autosize_eval)

lemma no_hooks_ok: "change_hook no_hooks"
  by unfold_locales (simp add: no_hooks_def)

lemma ex_desired:
  assumes "in_int64 count" and "0 \<le> count" and "0 \<le> m" and "m < 2 ^ 62"
  obtains n e b' w' where "HandleDesiredRunnerCount ex_env ex_gh no_hooks count (ex_bridge auto)
      (ex_sys m vms ws) = (Return (n, e), b', w')"
proof -
  have "desired_ok count (ex_bridge auto) (ex_sys m vms ws)
      (HandleDesiredRunnerCount ex_env ex_gh no_hooks count (ex_bridge auto) (ex_sys m vms ws))"
    using assms by (intro change_hook.desired [OF no_hooks_ok]) (simp_all add: in_int64_def)
  then show thesis
    using that by (auto simp: desired_ok_def split: prod.splits outcome.splits)
qed

theorem HandleDesired_respects_free_slots_witness:
  "\<exists>n e b' w'. HandleDesiredRunnerCount ex_env ex_gh no_hooks 5 (ex_bridge False) (ex_sys 9 [] ex_pool) =
      (Return (n, e), b', w') \<and> n \<le> 2"
proof -
  let ?w = "ex_sys 9 [] ex_pool"
  obtain n e b' w' where h: "HandleDesiredRunnerCount ex_env ex_gh no_hooks 5 (ex_bridge False) ?w =
      (Return (n, e), b', w')"
    by (rule ex_desired [where count = 5 and m = 9]) (simp_all add: in_int64_def)
  have "n \<le> 2"
    using HandleDesired_respects_free_slots [OF _ _ ex_state_Get [unfolded Let_def] _ _ h]
    by (simp add: ex_pool_facts ManagedVMsMatchingLabels_def countActiveVMs_def)
  then show ?thesis using h by blast
qed

lemma ex_createOneVM:
  assumes "\<not> exFail (sysExt w)"
  obtains b' w' where "createOneVM ex_env ex_gh cpu mem ls b w = (None, b', w')"
    and "\<not> exFail (sysExt w')"
  using assms by (simp add: createOneVM_def ex_env_def ex_gh_def Let_def)

lemma ex_place_all:
  assumes "\<not> exFail (sysExt w)"
  shows "fst (place_all ex_env ex_gh H rc rm acquired wks created b w) = (created + int (length wks), None)"
  using assms
proof (induction wks arbitrary: created b w)
  case Nil
  then show ?case by simp
next
  case (Cons wk wks)
  obtain b1 w1 where c: "createOneVM ex_env ex_gh
      (the (fmlookup (wResources wk) resourceLogicalCores) - rc)
      (the (fmlookup (wResources wk) resourceMemoryMiB) - rm)
      (mergePinLabel (vcLabels (vmConfig b)) (PinIdentity wk)) b w = (None, b1, w1)"
    "\<not> exFail (sysExt w1)"
    using Cons.prems by (rule ex_createOneVM)
  then show ?case using Cons.IH [OF c(2)] by simp
qed

lemma ex_autosize:
  obtains b' w' where "handleAutoSizeScaleUp ex_env ex_gh no_hooks 2 0 (ex_bridge True)
      (ex_sys 2 [] ex_pool) = (Return (2, None), b', w')"
proof -
  let ?w = "ex_sys 2 [] ex_pool"
  have res: "AutoSizeReserves (asReserveCPU (vcAutoSize (vmConfig (ex_bridge True))))
      (asReserveMemoryMiB (vcAutoSize (vmConfig (ex_bridge True)))) = (4, 4096)"
    by (simp add: AutoSizeReserves_def ex_bridge_def NewBridge_def ex_vmconfig_def
        DefaultAutoSizeReserveCPU_def DefaultAutoSizeReserveMemoryMiB_def)
  obtain w1 where g: "state_Get ex_env ?w = ((Some (newSnapshot [] ex_pool 1000 (2 * minute)), None), w1)"
    and w1: "sysExt w1 = ex_state [] ex_pool" "sysCap w1 = sysCap ?w"
    by (simp add: ex_state_Get Let_def)
  have h: "handleAutoSizeScaleUp ex_env ex_gh no_hooks 2 0 (ex_bridge True) ?w =
    batch_result no_hooks 0 (place_all ex_env ex_gh no_hooks 4 4096 2
      (autosize_plan ex_pool (uint (placementCursor (ex_bridge True))) (nat 2)) 0
      ((ex_bridge True)\<lparr>placementCursor := placementCursor (ex_bridge True) + word_of_int 2\<rparr>)
      (w1\<lparr>sysCap := \<lparr>current = 2, cmax = 2, callbacks = []\<rparr>\<rparr>))"
    by (rule handleAutoSize_batch [OF _ g res])
      (simp_all add: ex_pool_facts w1, simp_all add: ex_pool_def TryAcquire_def NewCapacity_def wrap64_def)
  obtain r b' w' where p: "place_all ex_env ex_gh no_hooks 4 4096 2
      (autosize_plan ex_pool (uint (placementCursor (ex_bridge True))) (nat 2)) 0
      ((ex_bridge True)\<lparr>placementCursor := placementCursor (ex_bridge True) + word_of_int 2\<rparr>)
      (w1\<lparr>sysCap := \<lparr>current = 2, cmax = 2, callbacks = []\<rparr>\<rparr>) = (r, b', w')"
    by (rule prod_cases3)
  have "r = (0 + int (length (autosize_plan ex_pool (uint (placementCursor (ex_bridge True))) (nat 2))), None)"
    using arg_cong [OF p, of fst] w1 by (simp add: ex_place_all)
  then show thesis using that h p by (simp add: batch_result_def autosize_plan_def)
qed

theorem AutoSize_places_on_distinct_free_workers_witness:
  "\<exists>b' w' wks. handleAutoSizeScaleUp ex_env ex_gh no_hooks 2 0 (ex_bridge True) (ex_sys 2 [] ex_pool) =
      (Return (2, None), b', w') \<and>
    set wks \<subseteq> set ex_pool \<and> distinct (map PinIdentity wks) \<and> wks \<noteq> [] \<and> length wks \<le> 2"
proof -
  obtain b' w' where h: "handleAutoSizeScaleUp ex_env ex_gh no_hooks 2 0 (ex_bridge True)
      (ex_sys 2 [] ex_pool) = (Return (2, None), b', w')" by (rule ex_autosize)
  have "cap_ok (sysCap (ex_sys 2 [] ex_pool))" "uint (placementCursor (ex_bridge True)) < 2 ^ 62"
    by simp_all
  from AutoSize_places_on_distinct_free_workers [OF this(1) _ this(2) h]
  obtain sn err w1 rc rm wks where "state_Get ex_env (ex_sys 2 [] ex_pool) = ((Some sn, err), w1)"
    and w: "set wks \<subseteq> set (freeAutoSizeWorkers (sWorkers sn) (sVMs sn)
        (vcLabels (vmConfig (ex_bridge True))) rc rm)"
      "distinct (map PinIdentity wks)" "wks \<noteq> []" "int (length wks) \<le> 2"
    by auto
  then have "sWorkers sn = ex_pool" by (auto simp: ex_state_Get Let_def ex_pool_facts)
  then have "set wks \<subseteq> set ex_pool"
    using w(1) by (auto simp: freeAutoSizeWorkers_def autoSizeCandidates_def Let_def)
  then show ?thesis using h w by auto
qed

lemma ex_uuid_ok: "uuid_ok (ex_uuid 1)"
  by (simp add: uuid_ok_def ex_uuid_def char_of_def bit_0)

text \<open>C25. A worker the bridge has placed a VM on is not free in any later view that lists the VM as not
  terminal, whether it is still pending, runs on that worker, or its worker's name has vanished:
  the pin label of the VM keeps the machine taken.\<close>

theorem placed_worker_is_taken:
  assumes "vm \<in> set vms" and "uuid_ok u \<and> vName vm = VMName ss u" and "\<not> vm_terminal vm"
    and "vLabels vm = mergePinLabel base (PinIdentity wk)"
    and "vWorker vm = [] \<or> vWorker vm \<notin> wName ` set ws \<or>
      (\<forall>v\<in>set ws. wName v = vWorker vm \<longrightarrow> PinIdentity v = PinIdentity wk)"
  shows "wk \<notin> set (freeAutoSizeWorkers ws vms l rc rm)"
proof
  assume free: "wk \<in> set (freeAutoSizeWorkers ws vms l rc rm)"
  have "vm_occupies vm" using assms(2,3) by (simp add: vm_occupies_def VMName_managed)
  moreover have "held_pin ws vm = PinIdentity wk"
  proof (cases "vWorker vm \<noteq> [] \<and> vWorker vm \<in> wName ` set ws")
    case True
    then have "filter (\<lambda>w. wName w = vWorker vm) ws \<noteq> []" by (auto simp: filter_empty_conv)
    then have "last (filter (\<lambda>w. wName w = vWorker vm) ws) \<in> set (filter (\<lambda>w. wName w = vWorker vm) ws)"
      by (rule last_in_set)
    then show ?thesis using True assms(5) by (simp add: held_pin_def)
  next
    case False
    then show ?thesis using assms(4) by (auto simp: held_pin_def mergePinLabel_def)
  qed
  ultimately show False using free_not_held [OF free assms(1)] by simp
qed

theorem placed_worker_is_taken_witness:
  "ex_worker ''a'' ''mini-1'' \<notin> set (freeAutoSizeWorkers ex_pool
     [(ex_vm (VMName ''ci'' (ex_uuid 1)) ''creating'' [] [])\<lparr>vLabels := mergePinLabel fmempty ''mini-1''\<rparr>]
     fmempty 4 4096)"
  by (rule placed_worker_is_taken [where ss = "''ci''" and u = "ex_uuid 1" and base = fmempty and
        vm = "(ex_vm (VMName ''ci'' (ex_uuid 1)) ''creating'' [] [])\<lparr>vLabels := mergePinLabel fmempty ''mini-1''\<rparr>"])
    (simp_all add: ex_uuid_ok [simplified] ex_vm_def vm_terminal_def status_defs PinIdentity_def ex_worker_def PinLabelKey_def)

text \<open>Hydration adopts exactly the non-terminal VMs of the bridge's scale set that the snapshot
  lists, keeps what was tracked, and hands on the error of a stale snapshot together with the
  number adopted.\<close>

theorem HydrateFromOrchard_adopts:
  assumes "sysView w \<noteq> None" and "state_Get E w = ((Some sn, err), w1)"
    and "HydrateFromOrchard E b w = ((adopted, herr), b', w')"
  shows "herr = err \<and> w' = w1 \<and>
    adopted = int (length (filter (\<lambda>vm. nameForScaleSet (scaleSetName b) (vName vm) \<and> \<not> vm_terminal vm)
      (sVMs sn))) \<and>
    (\<forall>nm. fmlookup (activeVMs b') nm =
      (if \<exists>vm\<in>set (sVMs sn). vName vm = nm \<and> nameForScaleSet (scaleSetName b) nm \<and> \<not> vm_terminal vm
       then Some nm else fmlookup (activeVMs b) nm))"
  using hydrate_lookup [OF assms]
  by (simp add: countActiveVMs_eq ManagedVMsForScaleSet_def conj_commute)

theorem HydrateFromOrchard_adopts_witness:
  "\<exists>b' w'. HydrateFromOrchard ex_env (ex_bridge False) (ex_sys 2 [] ex_pool) = ((0, None), b', w')"
proof -
  obtain a e b' w' where h: "HydrateFromOrchard ex_env (ex_bridge False) (ex_sys 2 [] ex_pool) =
      ((a, e), b', w')" by (metis surj_pair)
  show ?thesis
    using HydrateFromOrchard_adopts [OF _ ex_state_Get [unfolded Let_def] h] h by simp
qed

text \<open>C24. A restart loses no VM: if every VM a bridge tracked was created under its scale set (with a
  prefix short enough to survive the 63-byte cut) and is still listed as not terminal, then a new
  bridge hydrated from that snapshot tracks all of them.\<close>

theorem restart_recovers_tracked_VMs:
  assumes "length (VMNamePrefixForScaleSet (scaleSetName b)) \<le> 62"
    and "\<forall>nm. nm |\<in>| fmdom (activeVMs b) \<longrightarrow> (\<exists>u. uuid_ok u \<and> nm = VMName (scaleSetName b) u) \<and>
      (\<exists>vm\<in>set (sVMs sn). vName vm = nm \<and> \<not> vm_terminal vm)"
    and "sysView w \<noteq> None" and "state_Get E w = ((Some sn, err), w1)"
    and "HydrateFromOrchard E (NewBridge (scaleSetName b) sid vmc) w = (r, b', w')"
  shows "fmdom (activeVMs b) |\<subseteq>| fmdom (activeVMs b') \<and> snd r = err \<and> 0 \<le> fst r"
proof -
  obtain adopted herr where r: "r = (adopted, herr)" by (metis surj_pair)
  note h = hydrate_lookup [OF assms(3,4) assms(5) [unfolded r]]
  have "nm |\<in>| fmdom (activeVMs b')" if nm: "nm |\<in>| fmdom (activeVMs b)" for nm
  proof -
    obtain u vm where "uuid_ok u" "nm = VMName (scaleSetName b) u"
      and vm: "vm \<in> set (sVMs sn)" "vName vm = nm" "\<not> vm_terminal vm" using assms(2) nm by metis
    then have "nameForScaleSet (scaleSetName b) nm" using VMName_own_scale_set assms(1) by simp
    then have "fmlookup (activeVMs b') nm = Some nm"
      using h(4) [of nm] vm by (auto simp: NewBridge_def)
    then show ?thesis by (rule fmdomI)
  qed
  then show ?thesis using h(1,3) r by auto
qed

theorem restart_recovers_tracked_VMs_witness:
  "\<exists>r b' w'. HydrateFromOrchard ex_env (NewBridge ''ci'' 7 ex_vmconfig)
      (ex_sys 2 [ex_vm (VMName ''ci'' (ex_uuid 1)) ''running'' ''a'' []] ex_pool) = (r, b', w') \<and>
    VMName ''ci'' (ex_uuid 1) |\<in>| fmdom (activeVMs b')"
proof -
  let ?nm = "VMName ''ci'' (ex_uuid 1)"
  let ?b = "(ex_bridge False)\<lparr>activeVMs := fmupd ?nm ?nm fmempty\<rparr>"
  let ?vms = "[ex_vm ?nm ''running'' ''a'' []]"
  note u = ex_uuid_ok
  have p: "length (VMNamePrefixForScaleSet (scaleSetName ?b)) \<le> 62" by (simp add: prefix_eval)
  have vm: "vName (ex_vm ?nm ''running'' ''a'' []) = ?nm" "\<not> vm_terminal (ex_vm ?nm ''running'' ''a'' [])"
    by (simp_all add: ex_vm_def vm_terminal_def status_defs)
  obtain r b' w' where h: "HydrateFromOrchard ex_env (NewBridge (scaleSetName ?b) 7 ex_vmconfig)
      (ex_sys 2 ?vms ex_pool) = (r, b', w')" by (metis surj_pair)
  have "fmdom (activeVMs ?b) |\<subseteq>| fmdom (activeVMs b')"
    using restart_recovers_tracked_VMs [OF p _ _ ex_state_Get [unfolded Let_def] h] u vm by auto
  then show ?thesis using h by simp
qed

text \<open>A runner's completion is handled at most once: it untracks that VM and no other, and a second
  report for the same runner changes nothing and calls nothing, so its slot cannot be returned
  twice.\<close>

theorem HandleJobCompleted_once:
  assumes "HandleJobCompleted E gh H name rid b w = (Return r, b1, w1)"
  shows "r = None \<and> (\<forall>nm. fmlookup (activeVMs b1) nm = (if nm = name then None else fmlookup (activeVMs b) nm)) \<and>
    HandleJobCompleted E' gh' H' name rid' b1 w2 = (Return None, b1, w2)"
proof -
  have "r = None \<and> activeVMs b1 = fmdrop name (activeVMs b)"
    using assms by (auto simp: HandleJobCompleted_def Let_def fmdrop_idle fmdom_notI
        split: option.splits prod.splits outcome.splits)
  then show ?thesis by (simp add: HandleJobCompleted_def)
qed

theorem HandleJobCompleted_once_witness:
  "\<exists>b1 w1. HandleJobCompleted ex_env ex_gh no_hooks ''vm'' 1 ((ex_bridge False)\<lparr>activeVMs := fmupd ''vm'' ''vm'' fmempty\<rparr>)
      (ex_sys 2 [] ex_pool) = (Return None, b1, w1) \<and>
    HandleJobCompleted ex_env ex_gh no_hooks ''vm'' 2 b1 w1 = (Return None, b1, w1)"
proof -
  let ?b = "(ex_bridge False)\<lparr>activeVMs := fmupd ''vm'' ''vm'' fmempty\<rparr>"
  obtain b1 w1 where h: "HandleJobCompleted ex_env ex_gh no_hooks ''vm'' 1 ?b (ex_sys 2 [] ex_pool) =
      (Return None, b1, w1)"
    by (simp add: HandleJobCompleted_def Let_def)
  show ?thesis using HandleJobCompleted_once [OF h] h by blast
qed

end
