(* ===== verification/Metrics_Model.thy ===== *)
theory Metrics_Model
  imports VM_Naming
begin

text \<open>
  \<^verbatim>\<open>metrics/metrics.go\<close>: the hand-written Prometheus exporter. The registry is the list of its
  vectors in registration order; a \<open>GaugeVec\<close> or \<open>CounterVec\<close> is an index into it, \<open>None\<close> for
  the nil one; a nil registry is \<open>None\<close>. Every value the bridge stores is a whole number, so a
  \<open>float64\<close> is the integer it holds, rounded to 53 bits by \<open>f64\<close> whenever it is computed.

  \<open>series_store\<close> is what the users of a vector rely on: setting, deleting and reading series by
  their label values, distinct tuples never sharing a slot. The interpretation shows that the
  joined-string key keeps it for label values that are valid UTF-8 (no byte \<open>0xFF\<close>).
\<close>

definition f64 :: "int \<Rightarrow> int" where
  "f64 x =
     (if \<bar>x\<bar> \<le> 2 ^ 53 then x
      else let k = (length (takeWhile (\<lambda>i. 2 ^ i \<le> \<bar>x\<bar>) [0..<1100]) - 53);
               q = \<bar>x\<bar> div 2 ^ k; r = 2 * (\<bar>x\<bar> mod 2 ^ k);
               q' = (if 2 ^ k < r \<or> r = 2 ^ k \<and> odd q then q + 1 else q)
           in sgn x * q' * 2 ^ k)"

record series =
  serLabelValues :: "string list"
  serValue :: int

record vec =
  vecName :: string
  vecHelp :: string
  vecKind :: string
  vecLabelNames :: "string list"
  vecSeries :: "(string, series) fmap"

type_synonym registry = "vec list"
type_synonym vec_ref = "nat option"

definition NewRegistry :: registry where
  "NewRegistry = []"

definition register :: "string \<Rightarrow> string \<Rightarrow> string \<Rightarrow> string list \<Rightarrow> registry \<Rightarrow> nat \<times> registry" where
  "register name help kind labelNames r =
     (length r, r @ [\<lparr>vecName = name, vecHelp = help, vecKind = kind, vecLabelNames = labelNames,
                     vecSeries = fmempty\<rparr>])"

definition NewGaugeVec :: "string \<Rightarrow> string \<Rightarrow> string list \<Rightarrow> registry option \<Rightarrow>
    vec_ref \<times> registry option" where
  "NewGaugeVec name help labelNames ro =
     (case ro of None \<Rightarrow> (None, None)
      | Some r \<Rightarrow> (case register name help ''gauge'' labelNames r of (i, r') \<Rightarrow> (Some i, Some r')))"

definition NewCounterVec :: "string \<Rightarrow> string \<Rightarrow> string list \<Rightarrow> registry option \<Rightarrow>
    vec_ref \<times> registry option" where
  "NewCounterVec name help labelNames ro =
     (case ro of None \<Rightarrow> (None, None)
      | Some r \<Rightarrow> (case register name help ''counter'' labelNames r of (i, r') \<Rightarrow> (Some i, Some r')))"

fun seriesKey :: "string list \<Rightarrow> string" where
  "seriesKey [] = []"
| "seriesKey [s] = s"
| "seriesKey (s # t # ts) = s @ CHR 0xFF # seriesKey (t # ts)"

definition vec_update :: "string list \<Rightarrow> (series \<Rightarrow> series) \<Rightarrow> vec \<Rightarrow> vec outcome" where
  "vec_update labelValues fn v =
     (if length labelValues \<noteq> length (vecLabelNames v) then Panic
      else let key = seriesKey labelValues;
               s = (case fmlookup (vecSeries v) key of
                      Some s \<Rightarrow> s | None \<Rightarrow> \<lparr>serLabelValues = labelValues, serValue = 0\<rparr>)
           in Return (v\<lparr>vecSeries := fmupd key (fn s) (vecSeries v)\<rparr>))"

definition vec_get :: "string list \<Rightarrow> vec \<Rightarrow> int \<times> bool" where
  "vec_get labelValues v =
     (case fmlookup (vecSeries v) (seriesKey labelValues) of
        None \<Rightarrow> (0, False) | Some s \<Rightarrow> (serValue s, True))"

text \<open>Calls through a reference: a nil one does nothing, any other is one of the registry's.\<close>

definition on_vec :: "vec_ref \<Rightarrow> (vec \<Rightarrow> vec outcome) \<Rightarrow> registry option \<Rightarrow> registry option outcome" where
  "on_vec g fn ro =
     (case (g, ro) of
        (Some i, Some r) \<Rightarrow>
          (case fn (r ! i) of Panic \<Rightarrow> Panic | Return v \<Rightarrow> Return (Some (r[i := v])))
      | _ \<Rightarrow> Return ro)"

definition GaugeVec_Set :: "vec_ref \<Rightarrow> int \<Rightarrow> string list \<Rightarrow> registry option \<Rightarrow>
    registry option outcome" where
  "GaugeVec_Set g x labelValues ro = on_vec g (vec_update labelValues (\<lambda>s. s\<lparr>serValue := x\<rparr>)) ro"

definition vec_delete :: "string list \<Rightarrow> vec \<Rightarrow> vec" where
  "vec_delete labelValues v = v\<lparr>vecSeries := fmdrop (seriesKey labelValues) (vecSeries v)\<rparr>"

definition GaugeVec_Delete :: "vec_ref \<Rightarrow> string list \<Rightarrow> registry option \<Rightarrow>
    registry option outcome" where
  "GaugeVec_Delete g labelValues ro = on_vec g (\<lambda>v. Return (vec_delete labelValues v)) ro"

definition GaugeVec_Value :: "vec_ref \<Rightarrow> string list \<Rightarrow> registry option \<Rightarrow> int \<times> bool" where
  "GaugeVec_Value g labelValues ro =
     (case (g, ro) of (Some i, Some r) \<Rightarrow> vec_get labelValues (r ! i) | _ \<Rightarrow> (0, False))"

definition CounterVec_Inc :: "vec_ref \<Rightarrow> string list \<Rightarrow> registry option \<Rightarrow>
    registry option outcome" where
  "CounterVec_Inc c labelValues ro =
     on_vec c (vec_update labelValues (\<lambda>s. s\<lparr>serValue := f64 (serValue s + 1)\<rparr>)) ro"

definition CounterVec_Value :: "vec_ref \<Rightarrow> string list \<Rightarrow> registry option \<Rightarrow> int" where
  "CounterVec_Value c labelValues ro =
     (case (c, ro) of (Some i, Some r) \<Rightarrow> fst (vec_get labelValues (r ! i)) | _ \<Rightarrow> 0)"

subsection \<open>Text exposition\<close>

definition escapeHelp :: "string \<Rightarrow> string" where
  "escapeHelp s = concat (map (\<lambda>c.
     if c = CHR 0x5C then [CHR 0x5C, CHR 0x5C]
     else if c = newline then [CHR 0x5C, CHR ''n''] else [c]) s)"

definition escapeLabelValue :: "string \<Rightarrow> string" where
  "escapeLabelValue s = concat (map (\<lambda>c.
     if c = CHR 0x5C then [CHR 0x5C, CHR 0x5C]
     else if c = newline then [CHR 0x5C, CHR ''n'']
     else if c = CHR 0x22 then [CHR 0x5C, CHR 0x22] else [c]) s)"

text \<open>\<open>strconv.FormatFloat(v, 'g', -1, 64)\<close> on a whole number of at most 53 bits: plain digits up
  to six of them, otherwise the exponent form with trailing zeros dropped.\<close>

definition format_g :: "int \<Rightarrow> string" where
  "format_g v =
     (let digits = dec_nat (nat \<bar>v\<bar>); e = length digits - 1;
          sign = (if v < 0 then ''-'' else []);
          sig = (let m = trim_right CHR ''0'' digits in
                 if length m \<le> 1 then m else hd m # CHR ''.'' # tl m)
      in if e < 6 then sign @ digits
         else sign @ sig @ ''e+'' @ (if e < 10 then ''0'' else []) @ dec_nat e)"

fun label_pairs :: "nat \<Rightarrow> string list \<Rightarrow> string list \<Rightarrow> string outcome" where
  "label_pairs i [] vs = Return []"
| "label_pairs i (ln # lns) vs =
     (if length vs \<le> i then Panic
      else case label_pairs (Suc i) lns vs of
        Panic \<Rightarrow> Panic
      | Return rest \<Rightarrow>
          Return ((if 0 < i then '','' else []) @ ln @ [CHR ''='', CHR 0x22] @
                  escapeLabelValue (vs ! i) @ [CHR 0x22] @ rest))"

definition series_line :: "vec \<Rightarrow> series \<Rightarrow> string outcome" where
  "series_line v s =
     (if vecLabelNames v \<noteq> [] then
        (case label_pairs 0 (vecLabelNames v) (serLabelValues s) of
           Panic \<Rightarrow> Panic
         | Return ps \<Rightarrow>
             Return (vecName v @ ''{'' @ ps @ ''}'' @ '' '' @ format_g (serValue s) @ [newline]))
      else Return (vecName v @ '' '' @ format_g (serValue s) @ [newline]))"

fun concat_outcomes :: "string outcome list \<Rightarrow> string outcome" where
  "concat_outcomes [] = Return []"
| "concat_outcomes (Panic # xs) = Panic"
| "concat_outcomes (Return s # xs) =
     (case concat_outcomes xs of Panic \<Rightarrow> Panic | Return t \<Rightarrow> Return (s @ t))"

definition vec_text :: "vec \<Rightarrow> string outcome" where
  "vec_text v =
     concat_outcomes
       (Return (''# HELP '' @ vecName v @ '' '' @ escapeHelp (vecHelp v) @ [newline]) #
        Return (''# TYPE '' @ vecName v @ '' '' @ vecKind v @ [newline]) #
        map (\<lambda>k. series_line v (the (fmlookup (vecSeries v) k)))
            (sorted_list_of_fset (fmdom (vecSeries v))))"

definition WriteText :: "registry \<Rightarrow> string outcome" where
  "WriteText r = concat_outcomes (map vec_text r)"

text \<open>What the exporter's readers can recover, and what the vectors keep.\<close>

fun unescapeLabelValue :: "string \<Rightarrow> string" where
  "unescapeLabelValue [] = []"
| "unescapeLabelValue [c] = [c]"
| "unescapeLabelValue (c # d # s) =
     (if c = CHR 0x5C then (if d = CHR ''n'' then newline else d) # unescapeLabelValue s
      else c # unescapeLabelValue (d # s))"

definition utf8_labels :: "string list \<Rightarrow> bool" where
  "utf8_labels ls \<longleftrightarrow> (\<forall>s\<in>set ls. CHR 0xFF \<notin> set s)"

definition vec_ok :: "vec \<Rightarrow> bool" where
  "vec_ok v \<longleftrightarrow> (\<forall>k s. fmlookup (vecSeries v) k = Some s \<longrightarrow>
     k = seriesKey (serLabelValues s) \<and> length (serLabelValues s) = length (vecLabelNames v))"

definition vec_series :: "vec \<Rightarrow> string list \<Rightarrow> int option" where
  "vec_series v ls = map_option serValue (fmlookup (vecSeries v) (seriesKey ls))"

subsection \<open>Keys\<close>

lemma split_at_sep:
  assumes "s @ c # r = t @ c # q" and "c \<notin> set s" and "c \<notin> set t"
  shows "s = t \<and> r = q"
  using assms
proof (induction s arbitrary: t)
  case Nil
  then show ?case by (cases t) auto
next
  case (Cons x s)
  then show ?case by (cases t) auto
qed

lemma seriesKey_inj:
  assumes "utf8_labels ls" and "utf8_labels ls'" and "length ls = length ls'"
    and "seriesKey ls = seriesKey ls'"
  shows "ls = ls'"
  using assms
proof (induction ls arbitrary: ls' rule: seriesKey.induct)
  case 1
  then show ?case by simp
next
  case (2 s)
  then show ?case by (cases ls') auto
next
  case (3 s t ts)
  from 3(4) obtain s' u where ls': "ls' = s' # u" "length u = Suc (length ts)" by (cases ls') auto
  then obtain t' ts' where u: "u = t' # ts'" by (cases u) auto
  have "s = s' \<and> seriesKey (t # ts) = seriesKey (t' # ts')"
    using 3(2,3,5) ls' u by (intro split_at_sep) (auto simp: utf8_labels_def)
  moreover have "t # ts = t' # ts'"
    using calculation 3(2-4) ls' u by (intro 3(1)) (auto simp: utf8_labels_def)
  ultimately show ?case using ls' u by simp
qed

subsection \<open>Vectors as stores of series\<close>

locale series_store =
  fixes ok :: "'r \<Rightarrow> bool"
    and valid :: "string list \<Rightarrow> bool"
    and lookup :: "'r \<Rightarrow> string list \<Rightarrow> int option"
    and put :: "int \<Rightarrow> string list \<Rightarrow> 'r \<Rightarrow> 'r outcome"
    and del :: "string list \<Rightarrow> 'r \<Rightarrow> 'r outcome"
  assumes put_law: "ok r \<Longrightarrow> valid ls \<Longrightarrow> \<exists>r'. put x ls r = Return r' \<and> ok r' \<and>
      (\<forall>k. valid k \<longrightarrow> lookup r' k = (if k = ls then Some x else lookup r k))"
    and del_law: "ok r \<Longrightarrow> valid ls \<Longrightarrow> \<exists>r'. del ls r = Return r' \<and> ok r' \<and>
      (\<forall>k. valid k \<longrightarrow> lookup r' k = (if k = ls then None else lookup r k))"
begin

lemma put_cases:
  assumes "ok r" and "valid ls"
  obtains r' where "put x ls r = Return r'" and "ok r'"
    and "\<forall>k. valid k \<longrightarrow> lookup r' k = (if k = ls then Some x else lookup r k)"
  using put_law [OF assms] by metis

lemma del_cases:
  assumes "ok r" and "valid ls"
  obtains r' where "del ls r = Return r'" and "ok r'"
    and "\<forall>k. valid k \<longrightarrow> lookup r' k = (if k = ls then None else lookup r k)"
  using del_law [OF assms] by metis

lemma replace_law:
  assumes "ok r" and "valid old" and "valid ls"
  shows "\<exists>r1 r2. del old r = Return r1 \<and> put x ls r1 = Return r2 \<and> ok r2 \<and>
    (\<forall>k. valid k \<longrightarrow> lookup r2 k =
      (if k = ls then Some x else if k = old then None else lookup r k))"
proof -
  obtain r1 where r1: "del old r = Return r1" "ok r1"
    "\<forall>k. valid k \<longrightarrow> lookup r1 k = (if k = old then None else lookup r k)"
    using assms(1,2) by (rule del_cases)
  obtain r2 where "put x ls r1 = Return r2" "ok r2"
    "\<forall>k. valid k \<longrightarrow> lookup r2 k = (if k = ls then Some x else lookup r1 k)"
    using r1(2) assms(3) by (rule put_cases)
  then show ?thesis using r1 by auto
qed

end

definition gauge_ok :: "nat \<Rightarrow> nat \<Rightarrow> registry option \<Rightarrow> bool" where
  "gauge_ok i n ro \<longleftrightarrow> (case ro of None \<Rightarrow> False
     | Some r \<Rightarrow> i < length r \<and> vec_ok (r ! i) \<and> length (vecLabelNames (r ! i)) = n)"

definition label_tuple :: "nat \<Rightarrow> string list \<Rightarrow> bool" where
  "label_tuple n ls \<longleftrightarrow> length ls = n \<and> utf8_labels ls"

definition reg_series :: "nat \<Rightarrow> registry option \<Rightarrow> string list \<Rightarrow> int option" where
  "reg_series i ro ls = (case ro of None \<Rightarrow> None | Some r \<Rightarrow> vec_series (r ! i) ls)"

lemma seriesKey_eq_iff:
  "label_tuple n ls \<Longrightarrow> label_tuple n ls' \<Longrightarrow> seriesKey ls = seriesKey ls' \<longleftrightarrow> ls = ls'"
  using seriesKey_inj by (auto simp: label_tuple_def)

lemma vec_update_ok:
  assumes "vec_ok v" and "length ls = length (vecLabelNames v)" and "label_tuple n ls"
    and "\<And>s. serLabelValues (fn s) = serLabelValues s"
  obtains v' where "vec_update ls fn v = Return v'" and "vec_ok v'"
    and "vecLabelNames v' = vecLabelNames v"
    and "\<forall>k. label_tuple n k \<longrightarrow> vec_series v' k =
      (if k = ls then Some (serValue (fn (case fmlookup (vecSeries v) (seriesKey ls) of
          Some s \<Rightarrow> s | None \<Rightarrow> \<lparr>serLabelValues = ls, serValue = 0\<rparr>))) else vec_series v k)"
proof -
  let ?s = "case fmlookup (vecSeries v) (seriesKey ls) of
      Some s \<Rightarrow> s | None \<Rightarrow> \<lparr>serLabelValues = ls, serValue = 0\<rparr>"
  have s: "seriesKey ls = seriesKey (serLabelValues ?s)"
    "length (serLabelValues ?s) = length (vecLabelNames v)"
    using assms(1,2) by (auto simp: vec_ok_def split: option.split)
  let ?v = "v\<lparr>vecSeries := fmupd (seriesKey ls) (fn ?s) (vecSeries v)\<rparr>"
  have "vec_update ls fn v = Return ?v" using assms(2) by (simp add: vec_update_def Let_def)
  moreover have "vec_ok ?v" using assms(1,4) s by (auto simp: vec_ok_def)
  moreover have "vec_series ?v k = (if k = ls then Some (serValue (fn ?s)) else vec_series v k)"
    if "label_tuple n k" for k
    using seriesKey_eq_iff [OF assms(3) that] by (simp add: vec_series_def)
  ultimately show thesis using that by simp
qed

lemma vec_delete_ok:
  assumes "vec_ok v"
  shows "vec_ok (vec_delete ls v)" and "vecLabelNames (vec_delete ls v) = vecLabelNames v"
    and "label_tuple n ls \<Longrightarrow> label_tuple n k \<Longrightarrow>
      vec_series (vec_delete ls v) k = (if k = ls then None else vec_series v k)"
  using assms seriesKey_eq_iff [of n ls k]
  by (auto simp: vec_delete_def vec_ok_def vec_series_def split: if_splits)

lemma on_vec_Return:
  assumes "i < length r" and "fn (r ! i) = Return v"
  shows "on_vec (Some i) fn (Some r) = Return (Some (r[i := v]))"
  using assms by (simp add: on_vec_def)

lemma on_vec_nil [simp]: "on_vec None fn ro = Return ro"
  by (simp add: on_vec_def)

text \<open>A call through one reference leaves every other vector alone.\<close>

lemma on_vec_frame:
  assumes "on_vec (Some i) fn ro = Return ro'" and "i \<noteq> j"
  shows "reg_series j ro' = reg_series j ro" and "gauge_ok j n ro' = gauge_ok j n ro"
  using assms by (auto simp: on_vec_def reg_series_def gauge_ok_def split: option.splits outcome.splits)

interpretation gauge: series_store "gauge_ok i n" "label_tuple n" "reg_series i"
    "GaugeVec_Set (Some i)" "GaugeVec_Delete (Some i)" for i n
proof unfold_locales
  fix ro ls and x :: int
  assume ok: "gauge_ok i n ro" and ls: "label_tuple n ls"
  from ok obtain r where r: "ro = Some r" "i < length r" "vec_ok (r ! i)"
      "length (vecLabelNames (r ! i)) = n"
    by (auto simp: gauge_ok_def split: option.splits)
  have len: "length ls = length (vecLabelNames (r ! i))"
    using ls r(4) by (simp add: label_tuple_def)
  obtain v where v: "vec_update ls (\<lambda>s. s\<lparr>serValue := x\<rparr>) (r ! i) = Return v" "vec_ok v"
      "vecLabelNames v = vecLabelNames (r ! i)"
      "\<forall>k. label_tuple n k \<longrightarrow> vec_series v k = (if k = ls then Some x else vec_series (r ! i) k)"
    by (rule vec_update_ok [OF r(3) len ls, of "\<lambda>s. s\<lparr>serValue := x\<rparr>"]) (auto intro: that)
  show "\<exists>r'. GaugeVec_Set (Some i) x ls ro = Return r' \<and> gauge_ok i n r' \<and>
      (\<forall>k. label_tuple n k \<longrightarrow> reg_series i r' k = (if k = ls then Some x else reg_series i ro k))"
    using v r by (simp add: GaugeVec_Set_def on_vec_Return gauge_ok_def reg_series_def)
  show "\<exists>r'. GaugeVec_Delete (Some i) ls ro = Return r' \<and> gauge_ok i n r' \<and>
      (\<forall>k. label_tuple n k \<longrightarrow> reg_series i r' k = (if k = ls then None else reg_series i ro k))"
    using vec_delete_ok [OF r(3)] ls r
    by (simp add: GaugeVec_Delete_def on_vec_Return gauge_ok_def reg_series_def)
qed

lemma GaugeVec_Value_eq:
  "i < length r \<Longrightarrow> GaugeVec_Value (Some i) ls (Some r) =
    (case reg_series i (Some r) ls of None \<Rightarrow> (0, False) | Some x \<Rightarrow> (x, True))"
  by (simp add: GaugeVec_Value_def vec_get_def reg_series_def vec_series_def split: option.split)

lemma f64_small: "\<bar>x\<bar> \<le> 2 ^ 53 \<Longrightarrow> f64 x = x"
  by (simp add: f64_def)

lemma counter_law:
  assumes ok: "gauge_ok i n ro" and ls: "label_tuple n ls"
  shows "\<exists>ro'. CounterVec_Inc (Some i) ls ro = Return ro' \<and> gauge_ok i n ro' \<and>
    (\<forall>k. label_tuple n k \<longrightarrow> reg_series i ro' k =
      (if k = ls then Some (f64 ((case reg_series i ro ls of None \<Rightarrow> 0 | Some x \<Rightarrow> x) + 1))
       else reg_series i ro k))"
proof -
  from ok obtain r where r: "ro = Some r" "i < length r" "vec_ok (r ! i)"
      "length (vecLabelNames (r ! i)) = n"
    by (auto simp: gauge_ok_def split: option.splits)
  have len: "length ls = length (vecLabelNames (r ! i))" using ls r(4) by (simp add: label_tuple_def)
  show ?thesis
    by (rule vec_update_ok [OF r(3) len ls, of "\<lambda>s. s\<lparr>serValue := f64 (serValue s + 1)\<rparr>"])
      (use r in \<open>auto simp: CounterVec_Inc_def on_vec_Return gauge_ok_def reg_series_def vec_series_def
        split: option.splits\<close>)
qed

subsection \<open>Exposition\<close>

lemma label_pairs_Return: "i + length lns \<le> length vs \<Longrightarrow> \<exists>t. label_pairs i lns vs = Return t"
proof (induction lns arbitrary: i)
  case Nil
  then show ?case by simp
next
  case (Cons ln lns)
  then obtain t where "label_pairs (Suc i) lns vs = Return t" by fastforce
  then show ?case using Cons.prems by simp
qed

lemma concat_outcomes_Return:
  "(\<And>x. x \<in> set xs \<Longrightarrow> \<exists>t. x = Return t) \<Longrightarrow> \<exists>t. concat_outcomes xs = Return t"
proof (induction xs)
  case Nil
  then show ?case by simp
next
  case (Cons x xs)
  obtain t where "x = Return t" using Cons.prems by fastforce
  moreover obtain u where "concat_outcomes xs = Return u" using Cons by fastforce
  ultimately show ?case by simp
qed

lemma vec_text_Return:
  assumes "vec_ok v"
  shows "\<exists>t. vec_text v = Return t"
  unfolding vec_text_def
proof (rule concat_outcomes_Return)
  fix x
  assume "x \<in> set (Return (''# HELP '' @ vecName v @ '' '' @ escapeHelp (vecHelp v) @ [newline]) #
        Return (''# TYPE '' @ vecName v @ '' '' @ vecKind v @ [newline]) #
        map (\<lambda>k. series_line v (the (fmlookup (vecSeries v) k)))
            (sorted_list_of_fset (fmdom (vecSeries v))))"
  then consider "\<exists>t. x = Return t"
    | k s where "fmlookup (vecSeries v) k = Some s" "x = series_line v s"
    by (auto elim!: fmdomE)
  then show "\<exists>t. x = Return t"
  proof cases
    case 1
    then show ?thesis .
  next
    case 2
    then have "length (serLabelValues s) = length (vecLabelNames v)" using assms by (simp add: vec_ok_def)
    then obtain t where "label_pairs 0 (vecLabelNames v) (serLabelValues s) = Return t"
      using label_pairs_Return [of 0] by fastforce
    then show ?thesis using 2 by (simp add: series_line_def)
  qed
qed

subsection \<open>Escaping\<close>

lemma escapeLabelValue_simps:
  "escapeLabelValue [] = []"
  "escapeLabelValue (c # s) =
    (if c = CHR 0x5C then [CHR 0x5C, CHR 0x5C]
     else if c = newline then [CHR 0x5C, CHR ''n'']
     else if c = CHR 0x22 then [CHR 0x5C, CHR 0x22] else [c]) @ escapeLabelValue s"
  by (simp_all add: escapeLabelValue_def)

lemma unescape_plain: "c \<noteq> CHR 0x5C \<Longrightarrow> unescapeLabelValue (c # s) = c # unescapeLabelValue s"
  by (cases s) simp_all

lemma escape_quotes:
  "\<forall>i < length (escapeLabelValue s). escapeLabelValue s ! i = CHR 0x22 \<longrightarrow>
     0 < i \<and> escapeLabelValue s ! (i - 1) = CHR 0x5C"
proof (induction s)
  case Nil
  then show ?case by (simp add: escapeLabelValue_simps)
next
  case (Cons c s)
  have step: "0 < i \<and> (p @ t) ! (i - 1) = CHR 0x5C"
    if IH: "\<forall>i < length t. t ! i = CHR 0x22 \<longrightarrow> 0 < i \<and> t ! (i - 1) = CHR 0x5C"
      and p: "p = [c'] \<and> c' \<noteq> CHR 0x22 \<or> p = [CHR 0x5C, c']"
      and i: "i < length (p @ t)" "(p @ t) ! i = CHR 0x22" for i p t c'
  proof (cases "i < length p")
    case True
    then show ?thesis using p i by (auto simp: less_Suc_eq nth_append)
  next
    case False
    then have "0 < i - length p \<and> t ! (i - length p - 1) = CHR 0x5C"
      using IH [rule_format, of "i - length p"] i by (auto simp: nth_append)
    then have "length p \<le> i - 1" "t ! (i - 1 - length p) = CHR 0x5C" by (auto simp: diff_right_commute)
    then show ?thesis using False p by (auto simp: nth_append)
  qed
  show ?case
    unfolding escapeLabelValue_simps(2)
    by (intro allI impI, rule step [OF Cons.IH, where c' = "if c = newline then CHR ''n'' else c"])
      (auto simp: newline_def)
qed

subsection \<open>Properties\<close>

text \<open>Two label tuples of one vector share a series only if they are equal, as long as every value
  is valid UTF-8 (which never holds the byte \<open>0xFF\<close> the key joins with): no two workers, pins or
  reasons are ever reported under one series.\<close>

theorem seriesKey_collision_free:
  assumes "label_tuple n ls" and "label_tuple n ls'"
  shows "seriesKey ls = seriesKey ls' \<longleftrightarrow> ls = ls'"
  using assms by (rule seriesKey_eq_iff)

theorem seriesKey_collision_free_witness:
  "seriesKey [''ci'', ''a-b''] \<noteq> seriesKey [''ci-a'', ''b'']"
  using seriesKey_collision_free [of 2 "[''ci'', ''a-b'']" "[''ci-a'', ''b'']"]
  by (simp add: label_tuple_def utf8_labels_def)

text \<open>A label value survives the exposition format: undoing the escapes of \<open>escapeLabelValue\<close>
  gives it back, and the escaped text holds no raw newline and no quote that is not preceded by a
  backslash, so it can end neither its line nor its quotes.\<close>

theorem escapeLabelValue_roundtrip:
  "unescapeLabelValue (escapeLabelValue s) = s \<and> newline \<notin> set (escapeLabelValue s) \<and>
   (\<forall>i < length (escapeLabelValue s). escapeLabelValue s ! i = CHR 0x22 \<longrightarrow>
      0 < i \<and> escapeLabelValue s ! (i - 1) = CHR 0x5C)"
proof (intro conjI)
  show "unescapeLabelValue (escapeLabelValue s) = s"
    by (induction s) (simp_all add: escapeLabelValue_simps unescape_plain newline_def)
  show "newline \<notin> set (escapeLabelValue s)"
    by (induction s) (simp_all add: escapeLabelValue_simps newline_def)
  show "\<forall>i < length (escapeLabelValue s). escapeLabelValue s ! i = CHR 0x22 \<longrightarrow>
      0 < i \<and> escapeLabelValue s ! (i - 1) = CHR 0x5C"
    by (rule escape_quotes)
qed

theorem escapeLabelValue_roundtrip_witness:
  "unescapeLabelValue (escapeLabelValue [CHR ''a'', CHR 0x22, newline]) = [CHR ''a'', CHR 0x22, newline] \<and>
   escapeLabelValue [CHR ''a'', CHR 0x22, newline] ! (2 - 1) = CHR 0x5C"
proof -
  have "escapeLabelValue [CHR ''a'', CHR 0x22, newline] =
      [CHR ''a'', CHR 0x5C, CHR 0x22, CHR 0x5C, CHR ''n'']"
    by (simp add: escapeLabelValue_simps newline_def)
  then show ?thesis
    using escapeLabelValue_roundtrip [of "[CHR ''a'', CHR 0x22, newline]"] by fastforce
qed

text \<open>Rendering never panics on an index: every vector that came from the constructors and was
  only changed by \<open>Set\<close>, \<open>Inc\<close> and \<open>Delete\<close> keeps \<open>vec_ok\<close>, and a registry of such vectors
  always renders.\<close>

theorem WriteText_total:
  assumes "\<forall>v\<in>set r. vec_ok v"
  shows "\<exists>t. WriteText r = Return t"
  unfolding WriteText_def using assms vec_text_Return by (intro concat_outcomes_Return) auto

theorem WriteText_total_witness:
  "\<exists>t. WriteText (snd (register ''up'' ''Up.'' ''gauge'' [''worker''] NewRegistry)) = Return t"
  by (rule WriteText_total) (simp add: register_def NewRegistry_def vec_ok_def)

end
