(* ===== verification/Cleanup_Model.thy ===== *)
theory Cleanup_Model
  imports Bridge_Spec Metrics_Model
begin

text \<open>
  \<^verbatim>\<open>bridge/cleanup.go\<close> and \<^verbatim>\<open>bridge/runner_remover.go\<close>: the reaping loop. Its own state
  is the record \<open>cleanup\<close>, part of the system state \<open>msys\<close> because bridges queue failed
  deletes in it; what the manager wires in (runner remover, callbacks, the meaning of the capacity
  callbacks) is the record \<open>wiring\<close>. A step returns an \<open>outcome\<close> with the state it reached:
  \<open>processVM\<close> recovers from a panic and keeps that state, any other panic ends the sweep.

  \<open>sweep_hooks\<close> is what the sweep needs of its wiring to keep its books: no callback touches the
  slot counter. The prune step is proved to be one plain pass of deletes over the workers the
  \<open>prunable\<close> predicate names.
\<close>

definition DefaultCleanupInterval :: duration where
  "DefaultCleanupInterval = 60 * second"

definition DefaultMaxVMAge :: duration where
  "DefaultMaxVMAge = 2 * hour"

record cleanup =
  interval :: duration
  maxAge :: duration
  maxPendingAge :: duration
  pruneAfter :: duration
  pruneSkipLogged :: "(string, string) fmap"
  prunedTotal :: vec_ref
  pendingDeletes :: "string fset"

record ('o, 'cb) msys = "('o, 'cb) sys" +
  sysMetrics :: "registry option"
  sysCleanup :: cleanup

record ('o, 'cb, 'w) wiring =
  runnerRemover :: "(string \<Rightarrow> 'o \<Rightarrow> gerror option outcome \<times> 'o) option"
  onVMCleaned :: "(string \<Rightarrow> 'w \<Rightarrow> unit outcome \<times> 'w) option"
  onSweep :: "(Worker list \<Rightarrow> 'w \<Rightarrow> unit outcome \<times> 'w) option"
  callback :: "'cb \<Rightarrow> Worker list \<Rightarrow> 'w \<Rightarrow> 'w"

definition NewCleanup :: cleanup where
  "NewCleanup = \<lparr>interval = DefaultCleanupInterval, maxAge = DefaultMaxVMAge,
     maxPendingAge = DefaultMaxPendingAge, pruneAfter = 0, pruneSkipLogged = fmempty,
     prunedTotal = None, pendingDeletes = {||}\<rparr>"

definition MarkForDeletion :: "string \<Rightarrow> cleanup \<Rightarrow> cleanup" where
  "MarkForDeletion vmName c =
     (if vmName = [] then c else c\<lparr>pendingDeletes := finsert vmName (pendingDeletes c)\<rparr>)"

definition isPendingDelete :: "string \<Rightarrow> cleanup \<Rightarrow> bool" where
  "isPendingDelete vmName c \<longleftrightarrow> vmName |\<in>| pendingDeletes c"

definition retainPendingDeletes :: "string fset \<Rightarrow> cleanup \<Rightarrow> cleanup" where
  "retainPendingDeletes seen c =
     c\<lparr>pendingDeletes := ffilter (\<lambda>name. name |\<in>| seen) (pendingDeletes c)\<rparr>"

definition clearPendingDelete :: "string \<Rightarrow> cleanup \<Rightarrow> cleanup" where
  "clearPendingDelete vmName c = c\<lparr>pendingDeletes := pendingDeletes c |-| {|vmName|}\<rparr>"

definition SetMaxAge :: "duration \<Rightarrow> cleanup \<Rightarrow> cleanup" where
  "SetMaxAge d c = (if 0 < d then c\<lparr>maxAge := d\<rparr> else c)"

definition SetMaxPendingAge :: "duration \<Rightarrow> cleanup \<Rightarrow> cleanup" where
  "SetMaxPendingAge d c = (if 0 < d then c\<lparr>maxPendingAge := d\<rparr> else c)"

definition SetWorkerPruneAfter :: "duration \<Rightarrow> cleanup \<Rightarrow> cleanup" where
  "SetWorkerPruneAfter d c = c\<lparr>pruneAfter := (if d < 0 then 0 else d)\<rparr>"

definition SetMetrics :: "registry option \<Rightarrow> cleanup \<Rightarrow> cleanup \<times> registry option" where
  "SetMetrics reg c =
     (case NewCounterVec ''orchard_gh_bridge_workers_pruned_total''
             ''Offline Orchard worker records deleted by the cleanup loop.'' [] reg of
        (v, reg') \<Rightarrow> (c\<lparr>prunedTotal := v\<rparr>, reg'))"

definition RemoveRunnerByName :: "'o gh_client \<Rightarrow> string \<Rightarrow> 'o \<Rightarrow> gerror option outcome \<times> 'o" where
  "RemoveRunnerByName gh name st =
     (case GetRunnerByName gh name st of
        (Panic, st1) \<Rightarrow> (Panic, st1)
      | (Return (Inl err), st1) \<Rightarrow> (Return (Some (Wrap ''looking up runner'' err)), st1)
      | (Return (Inr None), st1) \<Rightarrow> (Return None, st1)
      | (Return (Inr (Some rid)), st1) \<Rightarrow> RemoveRunner gh rid st1)"

subsection \<open>One VM\<close>

definition shouldDeleteByStatus :: "cleanup \<Rightarrow> VM \<Rightarrow> gotime \<Rightarrow> bool \<times> string" where
  "shouldDeleteByStatus c vm now =
     (if vStatus vm = VMStatusStopped then (True, ''stopped'')
      else if vStatus vm = VMStatusFailed then (True, ''failed'')
      else if vStatus vm = VMStatusCreating then
        (if \<not> is_zero_time (vCreatedAt vm) \<and> maxPendingAge c < time_sub now (vCreatedAt vm)
         then (True, ''stuck pending'') else (False, []))
      else
        (if \<not> is_zero_time (vCreatedAt vm) \<and> maxAge c < time_sub now (vCreatedAt vm)
         then (True, ''max age exceeded'') else (False, [])))"

definition removeRunner :: "('o, 'cb, 'w) wiring \<Rightarrow> string \<Rightarrow> ('o, 'cb, 'z) sys_scheme \<Rightarrow>
    unit outcome \<times> ('o, 'cb, 'z) sys_scheme" where
  "removeRunner K name w =
     (case runnerRemover K of
        None \<Rightarrow> (Return (), w)
      | Some remove_by_name \<Rightarrow>
          (case remove_by_name name (sysExt w) of
             (Panic, st) \<Rightarrow> (Panic, w\<lparr>sysExt := st\<rparr>)
           | (Return err, st) \<Rightarrow> (Return (), w\<lparr>sysExt := st\<rparr>)))"

definition deletion_due :: "cleanup \<Rightarrow> VM \<Rightarrow> gotime \<Rightarrow> bool \<times> string" where
  "deletion_due c vm now =
     (if \<not> isPendingDelete (vName vm) c then shouldDeleteByStatus c vm now
      else (True, ''retrying failed delete''))"

definition processVM :: "'o env \<Rightarrow> ('o, 'cb, ('o, 'cb, 'z) msys_scheme) wiring \<Rightarrow> VM \<Rightarrow> gotime \<Rightarrow>
    ('o, 'cb, 'z) msys_scheme \<Rightarrow> bool \<times> ('o, 'cb, 'z) msys_scheme" where
  "processVM E K vm now w =
     (case deletion_due (sysCleanup w) vm now of
        (shouldDelete, reason) \<Rightarrow>
          if \<not> shouldDelete then (False, w)
          else case DeleteVM E (vName vm) (sysExt w) of
            (Panic, st) \<Rightarrow> (False, w\<lparr>sysExt := st\<rparr>)
          | (Return (Some err), st) \<Rightarrow> (False, w\<lparr>sysExt := st\<rparr>)
          | (Return None, st) \<Rightarrow>
              (let w1 = w\<lparr>sysExt := st, sysCleanup := clearPendingDelete (vName vm) (sysCleanup w)\<rparr> in
               case removeRunner K (vName vm) w1 of
                 (Panic, w2) \<Rightarrow> (False, w2)
               | (Return _, w2) \<Rightarrow>
                   (case onVMCleaned K of
                      None \<Rightarrow> (True, w2)
                    | Some fn \<Rightarrow>
                        (case fn (vName vm) w2 of
                           (Panic, w3) \<Rightarrow> (False, w3)
                         | (Return _, w3) \<Rightarrow> (True, w3)))))"

subsection \<open>One sweep\<close>

record sweepState =
  stVMs :: "VM list"
  stLive :: "Worker list"
  stAll :: "Worker list"
  stFetchedAt :: gotime
  stFresh :: bool

definition listVMsAndWorkers :: "'o env \<Rightarrow> ('o, 'cb, 'z) sys_scheme \<Rightarrow>
    (sweepState option \<times> gerror option) \<times> ('o, 'cb, 'z) sys_scheme" where
  "listVMsAndWorkers E w =
     (if sysView w \<noteq> None then
        (case state_Get E w of
           ((None, err), w1) \<Rightarrow> ((None, err), w1)
         | ((Some sn, err), w1) \<Rightarrow>
             ((Some \<lparr>stVMs = sVMs sn, stLive = sWorkers sn, stAll = sAllWorkers sn,
                     stFetchedAt = sFetchedAt sn, stFresh = (err = None)\<rparr>, None), w1))
      else case ListVMs E (sysExt w) of
        (Inl err, st1) \<Rightarrow> ((None, Some err), w\<lparr>sysExt := st1\<rparr>)
      | (Inr vms, st1) \<Rightarrow>
          (case ListWorkers E st1 of
             (Inl err, st2) \<Rightarrow> ((None, Some err), w\<lparr>sysExt := st2\<rparr>)
           | (Inr ws, st2) \<Rightarrow>
               (case time_Now E st2 of
                  (now, st3) \<Rightarrow>
                    ((Some \<lparr>stVMs = vms, stLive = ws, stAll = ws, stFetchedAt = now, stFresh = True\<rparr>,
                      None), w\<lparr>sysExt := st3\<rparr>))))"

record tally =
  managedCount :: int
  deleted :: int
  orphaned :: int
  seen :: "string fset"

fun sweep_loop :: "'o env \<Rightarrow> ('o, 'cb, ('o, 'cb, 'z) msys_scheme) wiring \<Rightarrow> string fset \<Rightarrow> gotime \<Rightarrow>
    VM list \<Rightarrow> tally \<Rightarrow> ('o, 'cb, 'z) msys_scheme \<Rightarrow> tally \<times> ('o, 'cb, 'z) msys_scheme" where
  "sweep_loop E K liveWorkers now [] t w = (t, w)"
| "sweep_loop E K liveWorkers now (vm # vms) t w =
     (if \<not> IsManagedVM (vName vm) then sweep_loop E K liveWorkers now vms t w
      else let t1 = t\<lparr>seen := finsert (vName vm) (seen t)\<rparr> in
        case processVM E K vm now w of
          (True, w1) \<Rightarrow> sweep_loop E K liveWorkers now vms (t1\<lparr>deleted := deleted t1 + 1\<rparr>) w1
        | (False, w1) \<Rightarrow>
            if vWorker vm \<noteq> [] \<and> vWorker vm |\<notin>| liveWorkers
            then sweep_loop E K liveWorkers now vms (t1\<lparr>orphaned := orphaned t1 + 1\<rparr>) w1
            else sweep_loop E K liveWorkers now vms (t1\<lparr>managedCount := managedCount t1 + 1\<rparr>) w1)"

definition pushMaxCapacity :: "('o, 'cb, ('o, 'cb, 'z) sys_scheme) wiring \<Rightarrow> Worker list \<Rightarrow>
    ('o, 'cb, 'z) sys_scheme \<Rightarrow> ('o, 'cb, 'z) sys_scheme" where
  "pushMaxCapacity K workers w =
     (case SetMax (maxCapacityTotal workers) (sysCap w) of
        (c, fns) \<Rightarrow> foldl (\<lambda>w fn. callback K fn workers w) (w\<lparr>sysCap := c\<rparr>) fns)"

definition count_by_worker :: "VM list \<Rightarrow> (string, int) fmap" where
  "count_by_worker vms =
     foldl (\<lambda>m vm. if vWorker vm \<noteq> [] then
         fmupd (vWorker vm) ((case fmlookup m (vWorker vm) of None \<Rightarrow> 0 | Some n \<Rightarrow> n) + 1) m
       else m) fmempty vms"

definition prune_skip :: "(string, int) fmap \<Rightarrow> Worker \<Rightarrow> string" where
  "prune_skip hasVMs w =
     (if wSchedulingPaused w then ''scheduling paused by an operator''
      else if 0 < (case fmlookup hasVMs (wName w) of None \<Rightarrow> 0 | Some n \<Rightarrow> n)
      then ''worker still has VMs assigned'' else [])"

definition log_skip :: "string \<Rightarrow> string \<Rightarrow> cleanup \<Rightarrow> cleanup" where
  "log_skip name skip c =
     (if map_get (pruneSkipLogged c) name \<noteq> skip
      then c\<lparr>pruneSkipLogged := fmupd name skip (pruneSkipLogged c)\<rparr> else c)"

fun prune_loop :: "'o env \<Rightarrow> (string, int) fmap \<Rightarrow> string fset \<Rightarrow> gotime \<Rightarrow> Worker list \<Rightarrow> int \<Rightarrow>
    string fset \<Rightarrow> ('o, 'cb, 'z) msys_scheme \<Rightarrow>
    (int \<times> string fset) outcome \<times> ('o, 'cb, 'z) msys_scheme" where
  "prune_loop E hasVMs live now [] pruned stillSkipped w = (Return (pruned, stillSkipped), w)"
| "prune_loop E hasVMs live now (x # xs) pruned stillSkipped w =
     (if wName x |\<in>| live then prune_loop E hasVMs live now xs pruned stillSkipped w
      else if is_zero_time (wLastSeen x) \<or> time_sub now (wLastSeen x) \<le> pruneAfter (sysCleanup w)
      then prune_loop E hasVMs live now xs pruned stillSkipped w
      else let skip = prune_skip hasVMs x in
        if skip \<noteq> [] then
          prune_loop E hasVMs live now xs pruned (finsert (wName x) stillSkipped)
            (w\<lparr>sysCleanup := log_skip (wName x) skip (sysCleanup w)\<rparr>)
        else case DeleteWorker E (wName x) (sysExt w) of
          (Some err, st) \<Rightarrow> prune_loop E hasVMs live now xs pruned stillSkipped (w\<lparr>sysExt := st\<rparr>)
        | (None, st) \<Rightarrow>
            (case CounterVec_Inc (prunedTotal (sysCleanup w)) [] (sysMetrics w) of
               Panic \<Rightarrow> (Panic, w\<lparr>sysExt := st\<rparr>)
             | Return reg \<Rightarrow>
                 prune_loop E hasVMs live now xs (pruned + 1) stillSkipped
                   (w\<lparr>sysExt := st, sysMetrics := reg\<rparr>)))"

definition pruneOfflineWorkers :: "'o env \<Rightarrow> VM list \<Rightarrow> Worker list \<Rightarrow> string fset \<Rightarrow> gotime \<Rightarrow>
    ('o, 'cb, 'z) msys_scheme \<Rightarrow> int outcome \<times> ('o, 'cb, 'z) msys_scheme" where
  "pruneOfflineWorkers E vms all_ws live now w =
     (if pruneAfter (sysCleanup w) \<le> 0 then (Return 0, w)
      else case prune_loop E (count_by_worker vms) live now all_ws 0 {||} w of
        (Panic, w1) \<Rightarrow> (Panic, w1)
      | (Return (pruned, stillSkipped), w1) \<Rightarrow>
          (Return pruned, w1\<lparr>sysCleanup := (sysCleanup w1)\<lparr>pruneSkipLogged :=
             fmfilter (\<lambda>name. name |\<in>| stillSkipped) (pruneSkipLogged (sysCleanup w1))\<rparr>\<rparr>))"

text \<open>The part of a sweep after its loop over the VMs: the books, then the prune pass.\<close>

definition sweep_reconcile :: "('o, 'cb, ('o, 'cb, 'z) msys_scheme) wiring \<Rightarrow> sweepState \<Rightarrow> tally \<Rightarrow>
    ('o, 'cb, 'z) msys_scheme \<Rightarrow> ('o, 'cb, 'z) msys_scheme" where
  "sweep_reconcile K st t w =
     (let w1 = w\<lparr>sysCleanup := retainPendingDeletes (seen t) (sysCleanup w)\<rparr>;
          w2 = (if 0 < deleted t then state_Invalidate w1 else w1)
      in pushMaxCapacity K (stLive st) (w2\<lparr>sysCap := Reconcile (managedCount t) (sysCap w2)\<rparr>))"

definition sweep_prune :: "'o env \<Rightarrow> sweepState \<Rightarrow> string fset \<Rightarrow> ('o, 'cb, 'z) msys_scheme \<Rightarrow>
    unit outcome \<times> ('o, 'cb, 'z) msys_scheme" where
  "sweep_prune E st liveWorkers w =
     (if \<not> stFresh st then (Return (), w)
      else case pruneOfflineWorkers E (stVMs st) (stAll st) liveWorkers (stFetchedAt st) w of
        (Panic, w1) \<Rightarrow> (Panic, w1)
      | (Return pruned, w1) \<Rightarrow> (Return (), if 0 < pruned then state_Invalidate w1 else w1))"

definition sweep_finish :: "'o env \<Rightarrow> ('o, 'cb, ('o, 'cb, 'z) msys_scheme) wiring \<Rightarrow> sweepState \<Rightarrow>
    string fset \<Rightarrow> tally \<Rightarrow> ('o, 'cb, 'z) msys_scheme \<Rightarrow> unit outcome \<times> ('o, 'cb, 'z) msys_scheme" where
  "sweep_finish E K st liveWorkers t w =
     (case sweep_prune E st liveWorkers (sweep_reconcile K st t w) of
        (Panic, w1) \<Rightarrow> (Panic, w1)
      | (Return _, w1) \<Rightarrow>
          (case onSweep K of None \<Rightarrow> (Return (), w1) | Some fn \<Rightarrow> fn (stLive st) w1))"

definition sweep :: "'o env \<Rightarrow> ('o, 'cb, ('o, 'cb, 'z) msys_scheme) wiring \<Rightarrow>
    ('o, 'cb, 'z) msys_scheme \<Rightarrow> unit outcome \<times> ('o, 'cb, 'z) msys_scheme" where
  "sweep E K w =
     (case listVMsAndWorkers E w of
        ((_, Some err), w1) \<Rightarrow> (Return (), w1)
      | ((None, None), w1) \<Rightarrow> (Panic, w1)
      | ((Some st, None), w1) \<Rightarrow>
          (case time_Now E (sysExt w1) of
             (now, ext) \<Rightarrow>
               (let liveWorkers = fset_of_list (map wName (stLive st)) in
                case sweep_loop E K liveWorkers now (stVMs st)
                       \<lparr>managedCount = 0, deleted = 0, orphaned = 0, seen = {||}\<rparr>
                       (w1\<lparr>sysExt := ext\<rparr>) of
                  (t, w2) \<Rightarrow> sweep_finish E K st liveWorkers t w2)))"

text \<open>\<open>Run\<close>: sweep at every tick until the context ends. \<open>wait\<close> is the \<open>select\<close>: it says whether the
  context is done, and its state change is all that other goroutines and the world do meanwhile.\<close>

partial_function (option) Cleanup_Run :: "'o env \<Rightarrow> ('o, 'cb, ('o, 'cb, 'z) msys_scheme) wiring \<Rightarrow>
    (('o, 'cb, 'z) msys_scheme \<Rightarrow> bool \<times> ('o, 'cb, 'z) msys_scheme) \<Rightarrow> ('o, 'cb, 'z) msys_scheme \<Rightarrow>
    (unit outcome \<times> ('o, 'cb, 'z) msys_scheme) option" where
  "Cleanup_Run E K wait w =
     (case wait w of
        (over, w1) \<Rightarrow>
          if over then Some (Return (), w1)
          else case sweep E K w1 of
             (r, w2) \<Rightarrow> if r = Panic then Some (Panic, w2) else Cleanup_Run E K wait w2)"

text \<open>Specification: the workers one prune pass may delete, and the age limit of a VM.\<close>

definition prunable :: "VM list \<Rightarrow> string fset \<Rightarrow> gotime \<Rightarrow> duration \<Rightarrow> Worker \<Rightarrow> bool" where
  "prunable vms live now cutoff x \<longleftrightarrow> wName x |\<notin>| live \<and> wLastSeen x \<noteq> 0 \<and>
     cutoff < time_sub now (wLastSeen x) \<and> \<not> wSchedulingPaused x \<and>
     (wName x = [] \<or> wName x \<notin> vWorker ` set vms)"

definition age_limit :: "cleanup \<Rightarrow> VM \<Rightarrow> duration" where
  "age_limit c vm = (if vStatus vm = VMStatusCreating then maxPendingAge c else maxAge c)"

definition metrics_ok :: "('o, 'cb, 'z) msys_scheme \<Rightarrow> bool" where
  "metrics_ok w \<longleftrightarrow> (case prunedTotal (sysCleanup w) of None \<Rightarrow> True
     | Some i \<Rightarrow> gauge_ok i 0 (sysMetrics w))"

subsection \<open>Which VMs are due\<close>

lemma deletion_due_iff:
  "fst (deletion_due c vm now) \<longleftrightarrow> vName vm |\<in>| pendingDeletes c \<or> vm_terminal vm \<or>
     vCreatedAt vm \<noteq> 0 \<and> age_limit c vm < time_sub now (vCreatedAt vm)"
  by (auto simp: deletion_due_def isPendingDelete_def shouldDeleteByStatus_def vm_terminal_def
      age_limit_def is_zero_time_def status_defs)

lemma processVM_not_due:
  "\<not> fst (deletion_due (sysCleanup w) vm now) \<Longrightarrow> processVM E K vm now w = (False, w)"
  by (cases "deletion_due (sysCleanup w) vm now") (simp add: processVM_def)

lemma sweep_loop_managed:
  "sweep_loop E K live now vms t w =
   sweep_loop E K live now (filter (\<lambda>vm. IsManagedVM (vName vm)) vms) t w"
  by (induction vms arbitrary: t w) (simp_all add: Let_def split: prod.split bool.split)

lemma sweep_loop_append:
  "sweep_loop E K live now (xs @ ys) t w =
    (case sweep_loop E K live now xs t w of (t1, w1) \<Rightarrow> sweep_loop E K live now ys t1 w1)"
  by (induction xs arbitrary: t w) (simp_all add: Let_def split: prod.split bool.split)

text \<open>The state in which a sweep that listed \<open>sw\<close> comes to the VM after \<open>xs\<close>.\<close>

definition turn :: "'o env \<Rightarrow> ('o, 'cb, ('o, 'cb, 'z) msys_scheme) wiring \<Rightarrow> sweepState \<Rightarrow> VM list \<Rightarrow>
    ('o, 'cb, 'z) msys_scheme \<Rightarrow> ('o, 'cb, 'z) msys_scheme" where
  "turn E K sw xs w1 =
     (case time_Now E (sysExt w1) of
        (now, ext) \<Rightarrow> snd (sweep_loop E K (fset_of_list (map wName (stLive sw))) now xs
          \<lparr>managedCount = 0, deleted = 0, orphaned = 0, seen = {||}\<rparr> (w1\<lparr>sysExt := ext\<rparr>)))"

lemma sweep_loop_tally:
  "sweep_loop E K live now vms t w = (t', w') \<Longrightarrow>
    managedCount t' + deleted t' + orphaned t' = managedCount t + deleted t + orphaned t +
      int (length (filter (\<lambda>vm. IsManagedVM (vName vm)) vms)) \<and>
    managedCount t \<le> managedCount t' \<and> deleted t \<le> deleted t' \<and> orphaned t \<le> orphaned t' \<and>
    seen t' = seen t |\<union>| fset_of_list (map vName (filter (\<lambda>vm. IsManagedVM (vName vm)) vms))"
proof (induction vms arbitrary: t w)
  case Nil
  then show ?case by simp
next
  case (Cons vm vms)
  show ?case
  proof (cases "IsManagedVM (vName vm)")
    case False
    then show ?thesis using Cons by simp
  next
    case True
    obtain d w1 where p: "processVM E K vm now w = (d, w1)" by (metis surj_pair)
    define t1 where "t1 = (let t0 = t\<lparr>seen := finsert (vName vm) (seen t)\<rparr> in
        if d then t0\<lparr>deleted := deleted t0 + 1\<rparr>
        else if vWorker vm \<noteq> [] \<and> vWorker vm |\<notin>| live then t0\<lparr>orphaned := orphaned t0 + 1\<rparr>
        else t0\<lparr>managedCount := managedCount t0 + 1\<rparr>)"
    have "sweep_loop E K live now vms t1 w1 = (t', w')"
      using Cons.prems True p by (cases d) (auto simp: t1_def Let_def split: if_splits)
    from Cons.IH [OF this] show ?thesis using True by (auto simp: t1_def Let_def split: if_splits)
  qed
qed

text \<open>A listed VM that counts as in use: managed, and not on a worker that is no longer live.\<close>

definition in_use :: "sweepState \<Rightarrow> VM \<Rightarrow> bool" where
  "in_use st vm \<longleftrightarrow> IsManagedVM (vName vm) \<and>
     (vWorker vm = [] \<or> vWorker vm |\<in>| fset_of_list (map wName (stLive st)))"

lemma sweep_loop_counts:
  "sweep_loop E K live now vms t w = (t', w') \<Longrightarrow>
    managedCount t' \<le> managedCount t + int (length (filter (\<lambda>vm. IsManagedVM (vName vm) \<and>
      (vWorker vm = [] \<or> vWorker vm |\<in>| live)) vms)) \<and>
    managedCount t + int (length (filter (\<lambda>vm. IsManagedVM (vName vm) \<and>
      (vWorker vm = [] \<or> vWorker vm |\<in>| live)) vms)) \<le> managedCount t' + (deleted t' - deleted t)"
proof (induction vms arbitrary: t w)
  case Nil
  then show ?case by simp
next
  case (Cons vm vms)
  show ?case
  proof (cases "IsManagedVM (vName vm)")
    case False
    then show ?thesis using Cons by simp
  next
    case True
    obtain d w1 where p: "processVM E K vm now w = (d, w1)" by (metis surj_pair)
    define t1 where "t1 = (let t0 = t\<lparr>seen := finsert (vName vm) (seen t)\<rparr> in
        if d then t0\<lparr>deleted := deleted t0 + 1\<rparr>
        else if vWorker vm \<noteq> [] \<and> vWorker vm |\<notin>| live then t0\<lparr>orphaned := orphaned t0 + 1\<rparr>
        else t0\<lparr>managedCount := managedCount t0 + 1\<rparr>)"
    have "sweep_loop E K live now vms t1 w1 = (t', w')"
      using Cons.prems True p by (cases d) (auto simp: t1_def Let_def split: if_splits)
    from Cons.IH [OF this] show ?thesis using True by (auto simp: t1_def Let_def split: if_splits)
  qed
qed

lemma sweep_loop_idle:
  "sweep_loop E K live now vms t w = (t', w') \<Longrightarrow>
    \<forall>vm\<in>set vms. IsManagedVM (vName vm) \<longrightarrow> \<not> fst (deletion_due (sysCleanup w) vm now) \<Longrightarrow>
    deleted t' = deleted t \<and> w' = w"
proof (induction vms arbitrary: t)
  case Nil
  then show ?case by simp
next
  case (Cons vm vms)
  show ?case
  proof (cases "IsManagedVM (vName vm)")
    case False
    then show ?thesis using Cons by simp
  next
    case True
    then have "processVM E K vm now w = (False, w)" using Cons.prems(2) by (simp add: processVM_not_due)
    then obtain t1 where "sweep_loop E K live now vms t1 w = (t', w')" "deleted t1 = deleted t"
      using Cons.prems(1) True by (auto simp: Let_def split: if_splits)
    then show ?thesis using Cons.IH [of t1] Cons.prems(2) by simp
  qed
qed

lemma state_Get_msys:
  "\<exists>v st. snd (state_Get E w) = w\<lparr>sysExt := st, sysView := v\<rparr>"
proof (cases "sysView w")
  case None
  then have "snd (state_Get E w) = w\<lparr>sysExt := sysExt w, sysView := sysView w\<rparr>"
    by (simp add: state_Get_def)
  then show ?thesis by blast
next
  case (Some v)
  obtain r v' st where "Get E v (sysExt w) = (r, v', st)" by (rule prod_cases3)
  then have "snd (state_Get E w) = w\<lparr>sysExt := st, sysView := Some v'\<rparr>"
    using Some by (simp add: state_Get_def)
  then show ?thesis by blast
qed

lemma listVMsAndWorkers_msys:
  "\<exists>v st. snd (listVMsAndWorkers E w) = w\<lparr>sysExt := st, sysView := v\<rparr>"
proof (cases "sysView w")
  case None
  have "\<exists>st. snd (listVMsAndWorkers E w) = w\<lparr>sysExt := st\<rparr>"
    using None by (auto simp: listVMsAndWorkers_def split: prod.split sum.split)
  then obtain st where "snd (listVMsAndWorkers E w) = w\<lparr>sysExt := st, sysView := sysView w\<rparr>" by auto
  then show ?thesis by blast
next
  case (Some v)
  obtain osn err w1 where g: "state_Get E w = ((osn, err), w1)" by (metis surj_pair)
  have "snd (listVMsAndWorkers E w) = w1"
    using Some g by (cases osn) (simp_all add: listVMsAndWorkers_def)
  then show ?thesis using state_Get_msys [of E w] g by simp
qed

lemma listVMsAndWorkers_frame:
  assumes "listVMsAndWorkers E w = (r, w1)"
  shows "sysCap w1 = sysCap w" and "sysCleanup w1 = sysCleanup w" and "sysMetrics w1 = sysMetrics w"
  using listVMsAndWorkers_msys [of E w] assms by auto

subsection \<open>Pruning\<close>

lemma count_by_worker_pos:
  "0 < (case fmlookup (count_by_worker vms) n of None \<Rightarrow> 0 | Some k \<Rightarrow> k) \<longleftrightarrow>
    n \<noteq> [] \<and> n \<in> vWorker ` set vms"
proof -
  have "(case fmlookup (count_by_worker vms) n of None \<Rightarrow> 0 | Some k \<Rightarrow> k) =
      (if n = [] then 0 else int (length (filter (\<lambda>vm. vWorker vm = n) vms)))"
    by (induction vms rule: rev_induct) (auto simp: count_by_worker_def)
  then show ?thesis by (auto simp: filter_empty_conv)
qed

lemma prune_skip_iff:
  "prune_skip (count_by_worker vms) x = [] \<longleftrightarrow>
    \<not> wSchedulingPaused x \<and> (wName x = [] \<or> wName x \<notin> vWorker ` set vms)"
  using count_by_worker_pos [of vms "wName x"] by (auto simp: prune_skip_def)

lemma log_skip_frame [simp]:
  "pruneAfter (log_skip n r c) = pruneAfter c" "prunedTotal (log_skip n r c) = prunedTotal c"
  "pendingDeletes (log_skip n r c) = pendingDeletes c"
  by (simp_all add: log_skip_def)

lemma pruned_inc:
  assumes "metrics_ok w"
  obtains reg where "CounterVec_Inc (prunedTotal (sysCleanup w)) [] (sysMetrics w) = Return reg"
    and "metrics_ok (w\<lparr>sysExt := st, sysMetrics := reg\<rparr>)"
proof (cases "prunedTotal (sysCleanup w)")
  case None
  then show thesis using that by (simp add: CounterVec_Inc_def metrics_ok_def)
next
  case (Some i)
  then have "gauge_ok i 0 (sysMetrics w)" using assms by (simp add: metrics_ok_def)
  moreover have "label_tuple 0 []" by (simp add: label_tuple_def utf8_labels_def)
  ultimately show thesis using counter_law [of i 0 "sysMetrics w" "[]"] that Some
    by (auto simp: metrics_ok_def)
qed

lemma prune_loop_deletes:
  assumes "metrics_ok w" and "pruneAfter (sysCleanup w) = cutoff"
  shows "\<exists>pruned' skipped' w'.
    prune_loop E (count_by_worker vms) live now xs pruned skipped w = (Return (pruned', skipped'), w') \<and>
    sysExt w' = foldl (\<lambda>st x. snd (DeleteWorker E (wName x) st)) (sysExt w)
      (filter (prunable vms live now cutoff) xs) \<and>
    pruned \<le> pruned' \<and> pruned' \<le> pruned + int (length (filter (prunable vms live now cutoff) xs)) \<and>
    sysCap w' = sysCap w \<and> sysView w' = sysView w \<and>
    pendingDeletes (sysCleanup w') = pendingDeletes (sysCleanup w)"
  using assms
proof (induction xs arbitrary: pruned skipped w)
  case Nil
  then show ?case by simp
next
  case (Cons x xs)
  consider (out) "wName x |\<in>| live \<or> is_zero_time (wLastSeen x) \<or> time_sub now (wLastSeen x) \<le> cutoff"
    | (skip) "\<not> (wName x |\<in>| live \<or> is_zero_time (wLastSeen x) \<or> time_sub now (wLastSeen x) \<le> cutoff)"
        "prune_skip (count_by_worker vms) x \<noteq> []"
    | (del) "\<not> (wName x |\<in>| live \<or> is_zero_time (wLastSeen x) \<or> time_sub now (wLastSeen x) \<le> cutoff)"
        "prune_skip (count_by_worker vms) x = []" by blast
  then show ?case
  proof cases
    case out
    then have "\<not> prunable vms live now cutoff x" by (auto simp: prunable_def is_zero_time_def)
    then show ?thesis using out Cons.IH [OF Cons.prems, of pruned skipped] Cons.prems(2) by auto
  next
    case skip
    then have "\<not> prunable vms live now cutoff x" by (auto simp: prunable_def prune_skip_iff)
    let ?w = "w\<lparr>sysCleanup := log_skip (wName x) (prune_skip (count_by_worker vms) x) (sysCleanup w)\<rparr>"
    have "metrics_ok ?w" "pruneAfter (sysCleanup ?w) = cutoff"
      using Cons.prems by (simp_all add: metrics_ok_def split: option.splits)
    from Cons.IH [OF this, of pruned "finsert (wName x) skipped"] show ?thesis
      using skip \<open>\<not> prunable vms live now cutoff x\<close> Cons.prems(2) by (auto simp: Let_def)
  next
    case del
    then have p: "prunable vms live now cutoff x"
      by (auto simp: prunable_def prune_skip_iff is_zero_time_def)
    obtain r st where d: "DeleteWorker E (wName x) (sysExt w) = (r, st)" by (metis surj_pair)
    show ?thesis
    proof (cases r)
      case None
      obtain reg where reg: "CounterVec_Inc (prunedTotal (sysCleanup w)) [] (sysMetrics w) = Return reg"
          "metrics_ok (w\<lparr>sysExt := st, sysMetrics := reg\<rparr>)"
        using Cons.prems(1) by (rule pruned_inc)
      let ?w = "w\<lparr>sysExt := st, sysMetrics := reg\<rparr>"
      have "pruneAfter (sysCleanup ?w) = cutoff" using Cons.prems(2) by simp
      from Cons.IH [OF reg(2) this, of "pruned + 1" skipped] show ?thesis
        using del d None reg(1) p Cons.prems(2) by (auto simp: Let_def)
    next
      case (Some e)
      let ?w = "w\<lparr>sysExt := st\<rparr>"
      have "metrics_ok ?w" "pruneAfter (sysCleanup ?w) = cutoff"
        using Cons.prems by (simp_all add: metrics_ok_def split: option.splits)
      from Cons.IH [OF this, of pruned skipped] show ?thesis
        using del d Some p Cons.prems(2) by (auto simp: Let_def)
    qed
  qed
qed

lemma prune_loop_step:
  obtains (goes) p sk w1 where "prune_loop E has live now (x # xs) pruned skipped w = prune_loop E has live now xs p sk w1"
      and "sysCap w1 = sysCap w" and "pendingDeletes (sysCleanup w1) = pendingDeletes (sysCleanup w)"
    | (stops) w1 where "prune_loop E has live now (x # xs) pruned skipped w = (Panic, w1)"
      and "sysCap w1 = sysCap w" and "pendingDeletes (sysCleanup w1) = pendingDeletes (sysCleanup w)"
proof -
  obtain d st where d: "DeleteWorker E (wName x) (sysExt w) = (d, st)" by (metis surj_pair)
  consider "wName x |\<in>| live \<or> is_zero_time (wLastSeen x) \<or>
        time_sub now (wLastSeen x) \<le> pruneAfter (sysCleanup w)"
    | "\<not> (wName x |\<in>| live \<or> is_zero_time (wLastSeen x) \<or>
        time_sub now (wLastSeen x) \<le> pruneAfter (sysCleanup w))" "prune_skip has x \<noteq> []"
    | "\<not> (wName x |\<in>| live \<or> is_zero_time (wLastSeen x) \<or>
        time_sub now (wLastSeen x) \<le> pruneAfter (sysCleanup w))" "prune_skip has x = []"
    by blast
  then show thesis
  proof cases
    case 1
    then show thesis using goes [of pruned skipped w] by auto
  next
    case 2
    then show thesis
      using goes [of pruned "finsert (wName x) skipped" "w\<lparr>sysCleanup := log_skip (wName x) (prune_skip has x) (sysCleanup w)\<rparr>"]
      by (simp add: Let_def)
  next
    case 3
    show thesis
    proof (cases d)
      case None
      show thesis
      proof (cases "CounterVec_Inc (prunedTotal (sysCleanup w)) [] (sysMetrics w)")
        case (Return reg)
        then show thesis
          using goes [of "pruned + 1" skipped "w\<lparr>sysExt := st, sysMetrics := reg\<rparr>"] 3 d None
          by (simp add: Let_def)
      next
        case Panic
        then show thesis using stops [of "w\<lparr>sysExt := st\<rparr>"] 3 d None by (simp add: Let_def)
      qed
    next
      case (Some e)
      then show thesis using goes [of pruned skipped "w\<lparr>sysExt := st\<rparr>"] 3 d by (simp add: Let_def)
    qed
  qed
qed

lemma prune_loop_frame:
  "prune_loop E has live now xs pruned skipped w = (r, w') \<Longrightarrow>
    sysCap w' = sysCap w \<and> pendingDeletes (sysCleanup w') = pendingDeletes (sysCleanup w)"
proof (induction xs arbitrary: pruned skipped w)
  case Nil
  then show ?case by simp
next
  case (Cons x xs)
  show ?case
  proof (cases rule: prune_loop_step [of E has live now x xs pruned skipped w])
    case (goes p sk w1)
    then show ?thesis using Cons.IH [of p sk w1] Cons.prems by simp
  next
    case (stops w1)
    then show ?thesis using Cons.prems by simp
  qed
qed

lemma prune_frame:
  assumes "pruneOfflineWorkers E vms all_ws live now w = (r, w')"
  shows "sysCap w' = sysCap w \<and> pendingDeletes (sysCleanup w') = pendingDeletes (sysCleanup w)"
proof -
  obtain q w1 where q: "prune_loop E (count_by_worker vms) live now all_ws 0 {||} w = (q, w1)"
    by (metis surj_pair)
  have fr: "sysCap w1 = sysCap w \<and> pendingDeletes (sysCleanup w1) = pendingDeletes (sysCleanup w)"
    by (rule prune_loop_frame [OF q])
  have "w' = (if pruneAfter (sysCleanup w) \<le> 0 then w else case q of Panic \<Rightarrow> w1
      | Return (pruned, stillSkipped) \<Rightarrow> w1\<lparr>sysCleanup := (sysCleanup w1)\<lparr>pruneSkipLogged :=
             fmfilter (\<lambda>name. name |\<in>| stillSkipped) (pruneSkipLogged (sysCleanup w1))\<rparr>\<rparr>)"
    using arg_cong [OF assms, of snd] unfolding pruneOfflineWorkers_def q
    by (simp split: outcome.splits prod.splits if_splits)
  then show ?thesis using fr by (simp split: outcome.splits prod.splits)
qed

lemma sweep_prune_frame:
  assumes "sweep_prune E st live w = (r, w')"
  shows "sysCap w' = sysCap w \<and> pendingDeletes (sysCleanup w') = pendingDeletes (sysCleanup w)"
proof -
  obtain q w1 where q: "pruneOfflineWorkers E (stVMs st) (stAll st) live (stFetchedAt st) w = (q, w1)"
    by (metis surj_pair)
  have fr: "sysCap w1 = sysCap w \<and> pendingDeletes (sysCleanup w1) = pendingDeletes (sysCleanup w)"
    by (rule prune_frame [OF q])
  have "w' = w \<or> w' = w1 \<or> w' = state_Invalidate w1"
    using arg_cong [OF assms, of snd] unfolding sweep_prune_def q
    by (simp split: outcome.splits if_splits)
  then show ?thesis using fr by (elim disjE) (simp_all add: state_Invalidate_def)
qed

subsection \<open>The books of a sweep\<close>

locale sweep_hooks =
  fixes K :: "('o, 'cb, ('o, 'cb, 'z) msys_scheme) wiring"
  assumes cleaned_frame: "onVMCleaned K = Some fn \<Longrightarrow> fn nm w = (r, w') \<Longrightarrow>
      sysCap w' = sysCap w \<and> sysCleanup w' = sysCleanup w \<and> sysMetrics w' = sysMetrics w"
    and callback_frame: "sysCap (callback K cb ws w) = sysCap w \<and>
      sysCleanup (callback K cb ws w) = sysCleanup w \<and> sysMetrics (callback K cb ws w) = sysMetrics w"
    and sweep_frame: "onSweep K = Some gn \<Longrightarrow> gn ws w = (r, w') \<Longrightarrow>
      sysCap w' = sysCap w \<and> sysCleanup w' = sysCleanup w"
begin

lemma removeRunner_frame:
  "removeRunner K nm w = (r, w') \<Longrightarrow>
    sysCap w' = sysCap w \<and> sysCleanup w' = sysCleanup w \<and> sysMetrics w' = sysMetrics w"
  for w :: "('o, 'cb, 'z) msys_scheme"
  by (auto simp: removeRunner_def split: option.splits prod.splits outcome.splits)

lemma processVM_frame:
  assumes "processVM E K vm now w = (d, w')"
  shows "sysCap w' = sysCap w" and "sysMetrics w' = sysMetrics w"
    and "sysCleanup w' = (if d then clearPendingDelete (vName vm) (sysCleanup w) else sysCleanup w) \<or>
      sysCleanup w' = clearPendingDelete (vName vm) (sysCleanup w)"
  using assms
  by (auto simp: processVM_def Let_def split: prod.splits if_splits outcome.splits option.splits
      dest!: removeRunner_frame cleaned_frame)

lemma sweep_loop_frame:
  "sweep_loop E K live now vms t w = (t', w') \<Longrightarrow>
    sysCap w' = sysCap w \<and> sysMetrics w' = sysMetrics w \<and>
    (\<exists>P. sysCleanup w' = (sysCleanup w)\<lparr>pendingDeletes := P\<rparr> \<and> P |\<subseteq>| pendingDeletes (sysCleanup w))"
proof (induction vms arbitrary: t w)
  case Nil
  then show ?case by (auto intro: exI [of _ "pendingDeletes (sysCleanup w)"])
next
  case (Cons vm vms)
  show ?case
  proof (cases "IsManagedVM (vName vm)")
    case False
    then show ?thesis using Cons by simp
  next
    case True
    obtain d w1 where p: "processVM E K vm now w = (d, w1)" by (metis surj_pair)
    obtain t1 where "sweep_loop E K live now vms t1 w1 = (t', w')"
      using Cons.prems True p by (cases d) (auto simp: Let_def split: if_splits)
    from Cons.IH [OF this] obtain P where ih: "sysCap w' = sysCap w1" "sysMetrics w' = sysMetrics w1"
        "sysCleanup w' = (sysCleanup w1)\<lparr>pendingDeletes := P\<rparr>" "P |\<subseteq>| pendingDeletes (sysCleanup w1)"
      by blast
    note fr = processVM_frame [OF p]
    have "sysCleanup w1 = (sysCleanup w)\<lparr>pendingDeletes := pendingDeletes (sysCleanup w1)\<rparr> \<and>
        pendingDeletes (sysCleanup w1) |\<subseteq>| pendingDeletes (sysCleanup w)"
      using fr(3) by (auto simp: clearPendingDelete_def split: if_splits)
    then have "sysCleanup w' = (sysCleanup w)\<lparr>pendingDeletes := P\<rparr>" "P |\<subseteq>| pendingDeletes (sysCleanup w)"
      using ih(3,4) by (metis cleanup.update_convs(7) cleanup.surjective, blast)
    then show ?thesis using ih(1,2) fr(1,2) by auto
  qed
qed

lemma callbacks_frame:
  "sysCap (foldl (\<lambda>w fn. callback K fn ws w) w fns) = sysCap w \<and>
   sysCleanup (foldl (\<lambda>w fn. callback K fn ws w) w fns) = sysCleanup w \<and>
   sysMetrics (foldl (\<lambda>w fn. callback K fn ws w) w fns) = sysMetrics w"
  by (induction fns arbitrary: w) (simp_all add: callback_frame)

lemma pushMax_frame:
  "sysCap (pushMaxCapacity K ws w) = (sysCap w)\<lparr>cmax := maxCapacityTotal ws\<rparr>"
  "sysCleanup (pushMaxCapacity K ws w) = sysCleanup w" "sysMetrics (pushMaxCapacity K ws w) = sysMetrics w"
  for w :: "('o, 'cb, 'z) msys_scheme"
  by (simp_all add: pushMaxCapacity_def SetMax_def callbacks_frame)

lemma sweep_reconcile_books:
  "sysCap (sweep_reconcile K st t w) = (sysCap w)\<lparr>current := managedCount t, cmax := maxCapacityTotal (stLive st)\<rparr>"
  "pendingDeletes (sysCleanup (sweep_reconcile K st t w)) =
    ffilter (\<lambda>n. n |\<in>| seen t) (pendingDeletes (sysCleanup w))"
  by (simp_all add: sweep_reconcile_def Let_def pushMax_frame Reconcile_def retainPendingDeletes_def
      state_Invalidate_def)

lemma sweep_finish_books:
  assumes "sweep_finish E K st live t w = (r, w')"
  shows "sysCap w' = (sysCap w)\<lparr>current := managedCount t, cmax := maxCapacityTotal (stLive st)\<rparr>"
    and "pendingDeletes (sysCleanup w') = ffilter (\<lambda>n. n |\<in>| seen t) (pendingDeletes (sysCleanup w))"
proof -
  obtain q w1 where q: "sweep_prune E st live (sweep_reconcile K st t w) = (q, w1)" by (metis surj_pair)
  have "sysCap w' = sysCap w1 \<and> sysCleanup w' = sysCleanup w1"
    using assms q sweep_frame by (cases q) (auto simp: sweep_finish_def split: option.splits)
  then show "sysCap w' = (sysCap w)\<lparr>current := managedCount t, cmax := maxCapacityTotal (stLive st)\<rparr>"
    "pendingDeletes (sysCleanup w') = ffilter (\<lambda>n. n |\<in>| seen t) (pendingDeletes (sysCleanup w))"
    using sweep_prune_frame [OF q] by (simp_all add: sweep_reconcile_books)
qed

lemma processVM_pending:
  assumes "processVM E K vm now w = (d, w')"
  shows "n |\<in>| pendingDeletes (sysCleanup w') \<Longrightarrow> n |\<in>| pendingDeletes (sysCleanup w)"
    and "n |\<in>| pendingDeletes (sysCleanup w) \<Longrightarrow> n \<noteq> vName vm \<Longrightarrow> n |\<in>| pendingDeletes (sysCleanup w')"
  using processVM_frame(3) [OF assms] by (auto simp: clearPendingDelete_def split: if_splits)

lemma processVM_asks:
  assumes n: "vName vm |\<in>| pendingDeletes (sysCleanup w)" and p: "processVM E K vm now w = (d, w')"
  shows "vName vm |\<in>| pendingDeletes (sysCleanup w') \<longleftrightarrow> fst (DeleteVM E (vName vm) (sysExt w)) \<noteq> Return None"
proof -
  obtain q st where q: "DeleteVM E (vName vm) (sysExt w) = (q, st)" by (metis surj_pair)
  have due: "deletion_due (sysCleanup w) vm now = (True, ''retrying failed delete'')"
    using n by (simp add: deletion_due_def isPendingDelete_def)
  show ?thesis
  proof (cases "q = Return None")
    case True
    let ?w1 = "w\<lparr>sysExt := st, sysCleanup := clearPendingDelete (vName vm) (sysCleanup w)\<rparr>"
    obtain r w2 where r: "removeRunner K (vName vm) ?w1 = (r, w2)" by (metis surj_pair)
    have "sysCleanup w' = sysCleanup w2"
      using p q r due True
      by (auto simp: processVM_def Let_def split: outcome.splits option.splits prod.splits dest: cleaned_frame)
    then show ?thesis using removeRunner_frame [OF r] q True by (simp add: clearPendingDelete_def)
  next
    case False
    then have "sysCleanup w' = sysCleanup w"
      using p q due by (auto simp: processVM_def split: outcome.splits option.splits)
    then show ?thesis using n q False by simp
  qed
qed

lemma sweep_loop_other:
  "sweep_loop E K live now vms t w = (t', w') \<Longrightarrow> n \<notin> vName ` set vms \<Longrightarrow>
    n |\<in>| pendingDeletes (sysCleanup w') \<longleftrightarrow> n |\<in>| pendingDeletes (sysCleanup w)"
proof (induction vms arbitrary: t w)
  case Nil
  then show ?case by simp
next
  case (Cons vm vms)
  show ?case
  proof (cases "IsManagedVM (vName vm)")
    case False
    then show ?thesis using Cons by simp
  next
    case True
    obtain d w1 where p: "processVM E K vm now w = (d, w1)" by (metis surj_pair)
    obtain t1 where l: "sweep_loop E K live now vms t1 w1 = (t', w')"
      using Cons.prems(1) True p by (cases d) (auto simp: Let_def split: if_splits)
    then show ?thesis using Cons.IH [OF l] Cons.prems(2) processVM_pending [OF p, of n] by auto
  qed
qed

text \<open>What one sweep that could read its lists leaves behind.\<close>

lemma sweep_summary:
  assumes "listVMsAndWorkers E w = ((Some st, None), w1)" and "sweep E K w = (r, w')"
  obtains t :: tally where "sysCap w' = (sysCap w)\<lparr>current := managedCount t, cmax := maxCapacityTotal (stLive st)\<rparr>"
    and "0 \<le> deleted t" and "managedCount t \<le> int (length (filter (in_use st) (stVMs st)))"
    and "int (length (filter (in_use st) (stVMs st))) - deleted t \<le> managedCount t"
    and "0 \<le> managedCount t"
    and "\<forall>n. n |\<in>| pendingDeletes (sysCleanup w') \<longrightarrow> n |\<in>| pendingDeletes (sysCleanup w) \<and>
      (\<exists>vm\<in>set (stVMs st). vName vm = n \<and> IsManagedVM n)"
    and "(\<forall>vm\<in>set (stVMs st). IsManagedVM (vName vm) \<longrightarrow>
        \<not> fst (deletion_due (sysCleanup w) vm (fst (time_Now E (sysExt w1))))) \<longrightarrow> deleted t = 0"
proof -
  obtain now ext where now: "time_Now E (sysExt w1) = (now, ext)" by (metis surj_pair)
  let ?live = "fset_of_list (map wName (stLive st))"
  let ?t0 = "\<lparr>managedCount = 0, deleted = 0, orphaned = 0, seen = {||}\<rparr>"
  obtain t w2 where l: "sweep_loop E K ?live now (stVMs st) ?t0 (w1\<lparr>sysExt := ext\<rparr>) = (t, w2)"
    by (metis surj_pair)
  have fin: "sweep_finish E K st ?live t w2 = (r, w')"
    using assms now l by (simp add: sweep_def Let_def)
  note w1 = listVMsAndWorkers_frame [OF assms(1)]
  note cap = sweep_loop_frame [OF l] and tally = sweep_loop_tally [OF l]
  have counts: "managedCount t \<le> int (length (filter (in_use st) (stVMs st)))"
    "int (length (filter (in_use st) (stVMs st))) - deleted t \<le> managedCount t"
    using sweep_loop_counts [OF l] by (simp_all add: in_use_def [abs_def])
  have seen: "n |\<in>| seen t \<longleftrightarrow> (\<exists>vm\<in>set (stVMs st). vName vm = n \<and> IsManagedVM n)" for n
    using tally by (auto simp: fset_of_list_elem)
  note books = sweep_finish_books [OF fin]
  have idle: "deleted t = 0" if "\<forall>vm\<in>set (stVMs st). IsManagedVM (vName vm) \<longrightarrow>
        \<not> fst (deletion_due (sysCleanup w) vm (fst (time_Now E (sysExt w1))))"
    using sweep_loop_idle [OF l] that now w1 by simp
  show thesis
  proof (rule that [of t])
    show "sysCap w' = (sysCap w)\<lparr>current := managedCount t, cmax := maxCapacityTotal (stLive st)\<rparr>"
      using books(1) cap w1 by simp
    show "0 \<le> deleted t" "0 \<le> managedCount t" using tally by simp_all
    show "\<forall>n. n |\<in>| pendingDeletes (sysCleanup w') \<longrightarrow> n |\<in>| pendingDeletes (sysCleanup w) \<and>
      (\<exists>vm\<in>set (stVMs st). vName vm = n \<and> IsManagedVM n)"
      using books(2) cap w1 seen by auto
  qed (use counts idle in auto)
qed

lemma sweep_asks:
  assumes l: "listVMsAndWorkers E w = ((Some sw, None), w1)" and run: "sweep E K w = (r, w')"
    and vm: "stVMs sw = xs @ vm # ys" "IsManagedVM (vName vm)" "vName vm \<notin> vName ` (set xs \<union> set ys)"
    and n: "vName vm |\<in>| pendingDeletes (sysCleanup w)"
  shows "vName vm |\<in>| pendingDeletes (sysCleanup w') \<longleftrightarrow>
    fst (DeleteVM E (vName vm) (sysExt (turn E K sw xs w1))) \<noteq> Return None"
proof -
  obtain now ext where now: "time_Now E (sysExt w1) = (now, ext)" by (metis surj_pair)
  let ?live = "fset_of_list (map wName (stLive sw))"
  let ?t0 = "\<lparr>managedCount = 0, deleted = 0, orphaned = 0, seen = {||}\<rparr>"
  obtain t u where x: "sweep_loop E K ?live now xs ?t0 (w1\<lparr>sysExt := ext\<rparr>) = (t, u)" by (metis surj_pair)
  obtain d v where p: "processVM E K vm now u = (d, v)" by (metis surj_pair)
  obtain t1 w2 where l2: "sweep_loop E K ?live now (stVMs sw) ?t0 (w1\<lparr>sysExt := ext\<rparr>) = (t1, w2)" by (metis surj_pair)
  obtain t2 where y: "sweep_loop E K ?live now ys t2 v = (t1, w2)"
    using l2 p vm(2) unfolding vm(1) sweep_loop_append x by (cases d) (auto simp: Let_def split: if_splits)
  have fin: "sweep_finish E K sw ?live t1 w2 = (r, w')" using run l now l2 by (simp add: sweep_def Let_def)
  have "vName vm |\<in>| seen t1" using sweep_loop_tally [OF l2] vm(1,2) by (simp add: fset_of_list_elem)
  then have "vName vm |\<in>| pendingDeletes (sysCleanup w') \<longleftrightarrow> vName vm |\<in>| pendingDeletes (sysCleanup v)"
    using sweep_finish_books(2) [OF fin] sweep_loop_other [OF y, of "vName vm"] vm(3) by (simp add: image_Un)
  moreover have "vName vm |\<in>| pendingDeletes (sysCleanup u)"
    using sweep_loop_other [OF x, of "vName vm"] vm(3) [unfolded image_Un] n listVMsAndWorkers_frame(2) [OF l] by simp
  ultimately show ?thesis using processVM_asks [OF _ p] x now by (simp add: turn_def)
qed

end

subsection \<open>Examples for the witnesses\<close>

definition ex_cleanup :: cleanup where
  "ex_cleanup = SetWorkerPruneAfter hour NewCleanup"

definition ex_msys :: "VM list \<Rightarrow> Worker list \<Rightarrow> (ex_world, unit) msys" where
  "ex_msys vms ws = \<lparr>sysExt = ex_state vms ws, sysCap = NewCapacity 4,
     sysView = Some (NewStateView 0 0), sysMetrics = None, sysCleanup = ex_cleanup\<rparr>"

lemma ex_cleanup_sel [simp]:
  "pruneAfter ex_cleanup = hour" "maxAge ex_cleanup = 2 * hour"
  "maxPendingAge ex_cleanup = DefaultMaxPendingAge" "pendingDeletes ex_cleanup = {||}"
  "prunedTotal ex_cleanup = None"
  by (simp_all add: ex_cleanup_def SetWorkerPruneAfter_def NewCleanup_def DefaultMaxVMAge_def hour_def)

lemma ex_msys_sel [simp]:
  "sysExt (ex_msys vms ws) = ex_state vms ws" "sysCleanup (ex_msys vms ws) = ex_cleanup"
  "sysMetrics (ex_msys vms ws) = None" "sysCap (ex_msys vms ws) = NewCapacity 4"
  "sysView (ex_msys vms ws) = Some (NewStateView 0 0)" "metrics_ok (ex_msys vms ws)"
  by (simp_all add: ex_msys_def metrics_ok_def)

subsection \<open>Properties\<close>

text \<open>C26. Exactly when and how a VM is reaped. A sweep asks Orchard to delete a managed VM exactly when a
  delete of it failed before, it is in a terminal state, or its known age is beyond the limit of its state
  (the pending limit while it is being created, the general one otherwise). If the delete is accepted, the
  VM leaves the queue of failed deletes, its runner is deregistered, the cleaned callback runs, and it is counted
  as deleted; if it is refused, nothing but the external state changes. A VM that is not due, and any VM
  the bridge does not manage, causes no call at all.\<close>

theorem VM_reaped_iff:
  fixes w :: "('o, 'cb, 'z) msys_scheme"
  assumes "0 \<le> age_limit c vm" and "age_limit c vm < 2 ^ 63 - 1" and "sysCleanup w = c"
    and "DeleteVM E (vName vm) (sysExt w) = (q, st)"
    and "removeRunner K (vName vm) (w\<lparr>sysExt := st, sysCleanup := clearPendingDelete (vName vm) c\<rparr>) = (Return (), w2)"
    and "onVMCleaned K = Some cleaned" and "cleaned (vName vm) w2 = (Return (), w3)"
    and "due \<longleftrightarrow> vName vm |\<in>| pendingDeletes c \<or> vm_terminal vm \<or>
      vCreatedAt vm \<noteq> 0 \<and> age_limit c vm < now - vCreatedAt vm"
  shows "processVM E K vm now w =
      (if \<not> due then (False, w) else if q = Return None then (True, w3) else (False, w\<lparr>sysExt := st\<rparr>)) \<and>
    sweep_loop E K live now [vm] t w =
      (if \<not> IsManagedVM (vName vm) then (t, w)
       else if due \<and> q = Return None then (t\<lparr>seen := finsert (vName vm) (seen t), deleted := deleted t + 1\<rparr>, w3)
       else (let t1 = t\<lparr>seen := finsert (vName vm) (seen t)\<rparr> in
             if vWorker vm \<noteq> [] \<and> vWorker vm |\<notin>| live then t1\<lparr>orphaned := orphaned t1 + 1\<rparr>
             else t1\<lparr>managedCount := managedCount t1 + 1\<rparr>, if due then w\<lparr>sysExt := st\<rparr> else w))"
proof -
  have d: "fst (deletion_due c vm now) \<longleftrightarrow> due"
    using assms(1,2,8) time_sub_gt_iff [of "age_limit c vm" now "vCreatedAt vm"] by (simp add: deletion_due_iff)
  have p: "processVM E K vm now w =
      (if \<not> due then (False, w) else if q = Return None then (True, w3) else (False, w\<lparr>sysExt := st\<rparr>))"
    using assms(3-7) d
    by (cases "deletion_due c vm now") (auto simp: processVM_def Let_def split: outcome.splits option.splits)
  then show ?thesis by (simp add: Let_def)
qed

theorem VM_reaped_iff_witness:
  "\<exists>K vm w'. processVM ex_env K vm (3 * hour) (ex_msys [vm] []) = (True, w') \<and> exVMs (sysExt w') = [] \<and>
     processVM ex_env K vm hour (ex_msys [vm] []) = (False, ex_msys [vm] [])"
proof -
  let ?vm = "ex_vm ''gha-orchard-ci-1'' ''running'' ''a'' []" and ?w = "ex_msys [ex_vm ''gha-orchard-ci-1'' ''running'' ''a'' []] []"
  let ?K = "\<lparr>runnerRemover = None, onVMCleaned = Some (\<lambda>_ w. (Return (), w)), onSweep = None, callback = (\<lambda>_ _ w. w)\<rparr>
    :: (ex_world, unit, (ex_world, unit) msys) wiring"
  let ?w' = "?w\<lparr>sysExt := ex_state [] [], sysCleanup := clearPendingDelete (vName ?vm) ex_cleanup\<rparr>"
  have l: "age_limit ex_cleanup ?vm = 2 * hour" by (simp add: age_limit_def ex_vm_def VMStatusCreating_def)
  have d: "DeleteVM ex_env (vName ?vm) (sysExt ?w) = (Return None, ex_state [] [])" by (simp add: ex_state_def ex_vm_def)
  note r = VM_reaped_iff [of ex_cleanup ?vm ?w ex_env "Return None" "ex_state [] []" ?K ?w' _ ?w' _ _, OF _ _ _ d]
  have v: "\<not> vm_terminal ?vm" "vCreatedAt ?vm = 1" by (simp_all add: ex_vm_def vm_terminal_def status_defs)
  have "processVM ex_env ?K ?vm (3 * hour) ?w = (True, ?w')" "processVM ex_env ?K ?vm hour ?w = (False, ?w)"
    using r [of "\<lambda>_ w. (Return (), w)" True "3 * hour"] r [of "\<lambda>_ w. (Return (), w)" False hour]
    by (simp_all add: l v hour_def removeRunner_def)
  then show ?thesis by (intro exI [of _ ?K] exI [of _ ?vm] exI [of _ ?w']) (simp add: ex_state_def)
qed

text \<open>C27. Pruning is one pass of deletes over exactly the prunable workers, in list order: offline for
  longer than the cutoff, with a known heartbeat, not paused by an operator, not holding a VM and
  not under a live worker's name. It never panics, counts at most one per prunable worker, and
  touches neither the slots nor the queue of failed deletes.\<close>

theorem pruneOfflineWorkers_deletes_exactly:
  assumes "metrics_ok w" and "0 < pruneAfter (sysCleanup w)"
  shows "\<exists>n w'. pruneOfflineWorkers E vms all_ws live now w = (Return n, w') \<and>
    sysExt w' = foldl (\<lambda>st x. snd (DeleteWorker E (wName x) st)) (sysExt w)
      (filter (prunable vms live now (pruneAfter (sysCleanup w))) all_ws) \<and>
    0 \<le> n \<and> n \<le> int (length (filter (prunable vms live now (pruneAfter (sysCleanup w))) all_ws)) \<and>
    sysCap w' = sysCap w \<and> sysView w' = sysView w \<and>
    pendingDeletes (sysCleanup w') = pendingDeletes (sysCleanup w)"
proof -
  obtain n sk w' where l: "prune_loop E (count_by_worker vms) live now all_ws 0 {||} w = (Return (n, sk), w')"
    and r: "sysExt w' = foldl (\<lambda>st x. snd (DeleteWorker E (wName x) st)) (sysExt w)
      (filter (prunable vms live now (pruneAfter (sysCleanup w))) all_ws)"
      "0 \<le> n" "n \<le> int (length (filter (prunable vms live now (pruneAfter (sysCleanup w))) all_ws))"
      "sysCap w' = sysCap w" "sysView w' = sysView w"
      "pendingDeletes (sysCleanup w') = pendingDeletes (sysCleanup w)"
    using prune_loop_deletes [OF assms(1) refl, of E vms live now all_ws 0 "{||}"] by auto
  show ?thesis using l r assms(2) by (simp add: pruneOfflineWorkers_def)
qed

theorem pruneOfflineWorkers_deletes_exactly_witness:
  "\<exists>n w'. pruneOfflineWorkers ex_env [] [(ex_worker ''old'' ''p'')\<lparr>wLastSeen := 1\<rparr>, ex_worker ''b'' ''q'']
      {|''b''|} (2 * hour) (ex_msys [] ex_pool) = (Return n, w') \<and> 0 \<le> n \<and> n \<le> 1"
proof -
  let ?all = "[(ex_worker ''old'' ''p'')\<lparr>wLastSeen := 1\<rparr>, ex_worker ''b'' ''q'']"
  have len: "length (filter (prunable [] {|''b''|} (2 * hour) hour) ?all) \<le> 1"
    by (simp add: prunable_def ex_worker_def)
  have "0 < pruneAfter (sysCleanup (ex_msys [] ex_pool))" by (simp add: hour_def)
  then obtain n w' where "pruneOfflineWorkers ex_env [] ?all {|''b''|} (2 * hour) (ex_msys [] ex_pool) = (Return n, w')"
    "0 \<le> n" "n \<le> int (length (filter (prunable [] {|''b''|} (2 * hour) hour) ?all))"
    using pruneOfflineWorkers_deletes_exactly [of "ex_msys [] ex_pool" ex_env "[]" ?all "{|''b''|}" "2 * hour"]
    by auto
  then show ?thesis using len by (intro exI [of _ n] exI [of _ w']) linarith
qed

text \<open>C28. A prune pass spares every worker it should: with any configuration the program accepts, whatever the
  lists, the records it deletes are some of the listed ones, none of them of a worker that the bridge still counts as
  live at the time the lists were read, that is under a live worker's name, that an operator paused, or
  that holds a VM.\<close>

theorem prune_spares_live_workers:
  assumes "Load readFile yamlUnmarshal getenv fns path = Inr cfg"
    and "metrics_ok w" and "pruneAfter (sysCleanup w) = WorkerPruneAfterDuration fns cfg"
    and "pruneOfflineWorkers E vms all_ws live now w = (r, w')"
  shows "\<exists>dies. sysExt w' = foldl (\<lambda>st x. snd (DeleteWorker E (wName x) st)) (sysExt w) (filter dies all_ws) \<and>
    (\<forall>x. dies x \<longrightarrow> \<not> WorkerLive x (effectiveWorkerStaleAfter fns cfg) now \<and> wName x |\<notin>| live \<and>
      \<not> wSchedulingPaused x \<and> (wName x = [] \<or> (\<forall>vm\<in>set vms. vWorker vm \<noteq> wName x)))"
proof (cases "0 < WorkerPruneAfterDuration fns cfg")
  case False
  then have "w' = w" using assms(3,4) by (simp add: pruneOfflineWorkers_def)
  then show ?thesis by (intro exI [of _ "\<lambda>_. False"]) simp
next
  case True
  let ?dies = "prunable vms live now (WorkerPruneAfterDuration fns cfg)"
  note v = Load_valid [OF assms(1)]
  have "0 < effectiveWorkerStaleAfter fns cfg"
    "effectiveWorkerStaleAfter fns cfg < WorkerPruneAfterDuration fns cfg"
    using valid_stale_positive [OF v] valid_prune_above_stale [OF v] True by auto
  then have "?dies x \<longrightarrow> \<not> WorkerLive x (effectiveWorkerStaleAfter fns cfg) now \<and> wName x |\<notin>| live \<and>
      \<not> wSchedulingPaused x \<and> (wName x = [] \<or> (\<forall>vm\<in>set vms. vWorker vm \<noteq> wName x))" for x
    by (auto simp: prunable_def WorkerLive_def is_zero_time_def image_iff)
  moreover have "sysExt w' = foldl (\<lambda>st x. snd (DeleteWorker E (wName x) st)) (sysExt w) (filter ?dies all_ws)"
    using prune_loop_deletes [OF assms(2) refl, of E vms live now all_ws 0 "{||}"] assms(3,4) True
    by (auto simp: pruneOfflineWorkers_def)
  ultimately show ?thesis by blast
qed

theorem prune_spares_live_workers_witness:
  "\<exists>r w'. pruneOfflineWorkers ex_env [ex_vm ''gha-orchard-ci-1'' ''running'' ''busy'' []]
      [(ex_worker ''paused'' ''p'')\<lparr>wLastSeen := 1, wSchedulingPaused := True\<rparr>, (ex_worker ''busy'' ''q'')\<lparr>wLastSeen := 1\<rparr>,
       (ex_worker ''live'' ''r'')\<lparr>wLastSeen := 2 * hour\<rparr>] {||} (2 * hour)
      ((ex_msys [] ex_pool)\<lparr>sysCleanup := SetWorkerPruneAfter 5400000000000 NewCleanup\<rparr>) = (r, w') \<and>
    sysExt w' = ex_state [] ex_pool"
proof -
  let ?vms = "[ex_vm ''gha-orchard-ci-1'' ''running'' ''busy'' []]"
  let ?p = "(ex_worker ''paused'' ''p'')\<lparr>wLastSeen := 1, wSchedulingPaused := True\<rparr>" and ?b = "(ex_worker ''busy'' ''q'')\<lparr>wLastSeen := 1\<rparr>"
    and ?l = "(ex_worker ''live'' ''r'')\<lparr>wLastSeen := 2 * hour\<rparr>"
  let ?w = "(ex_msys [] ex_pool)\<lparr>sysCleanup := SetWorkerPruneAfter 5400000000000 NewCleanup\<rparr>"
  obtain r w' where h: "pruneOfflineWorkers ex_env ?vms [?p, ?b, ?l] {||} (2 * hour) ?w = (r, w')" by (metis surj_pair)
  have m: "metrics_ok ?w" by (simp add: metrics_ok_def SetWorkerPruneAfter_def NewCleanup_def)
  obtain dies where d: "sysExt w' = foldl (\<lambda>st x. snd (DeleteWorker ex_env (wName x) st)) (sysExt ?w) (filter dies [?p, ?b, ?l])"
    "\<forall>x. dies x \<longrightarrow> \<not> WorkerLive x (effectiveWorkerStaleAfter (\<lambda>_ _ _. 0) (applyDefaults (ex_config ''5m'' ''1h30m''))) (2 * hour) \<and>
      wName x |\<notin>| {||} \<and> \<not> wSchedulingPaused x \<and> (wName x = [] \<or> (\<forall>vm\<in>set ?vms. vWorker vm \<noteq> wName x))"
    using prune_spares_live_workers [OF ex_config_loads m _ h]
    by (auto simp: ex_config_prune SetWorkerPruneAfter_def)
  have "\<not> dies ?p" "\<not> dies ?b" using d(2) by (auto simp: ex_worker_def ex_vm_def)
  moreover have "WorkerLive ?l (effectiveWorkerStaleAfter (\<lambda>_ _ _. 0) (applyDefaults (ex_config ''5m'' ''1h30m''))) (2 * hour)"
    using valid_stale_positive [OF Load_valid [OF ex_config_loads]] by (simp add: WorkerLive_def time_sub_def)
  then have "\<not> dies ?l" using d(2) by blast
  ultimately show ?thesis using h d(1) by simp
qed

end
