(* ===== verification/Eligibility_Model.thy ===== *)
theory Eligibility_Model
  imports Metrics_Model Autosize_Model
begin

text \<open>
  \<^verbatim>\<open>bridge/eligibility.go\<close>: which live, label-matching workers an AutoSize scale set cannot use
  and why, and the monitor that reports them as log lines and gauge series. The monitor's state is
  the record \<open>monitor\<close>; \<open>Observe\<close> returns the log lines it writes, the new state and the new
  registry. A nil monitor is the manager's business (it always builds one).
\<close>

record AutoSizeExclusion =
  exclWorker :: string
  exclPinLabel :: string
  exclReason :: string
  exclSharedWith :: "string list"

definition AutoSizeExclusions :: "Worker list \<Rightarrow> labels \<Rightarrow> u64 \<Rightarrow> u64 \<Rightarrow> AutoSizeExclusion list" where
  "AutoSizeExclusions workers vmLabels reserveCPU reserveMemMiB =
     (let counts = PinCounts workers in
      foldl (\<lambda>out w.
        if \<not> workerMatchesLabels w vmLabels then out
        else let reason = AutoSizeExclusionReason w counts reserveCPU reserveMemMiB in
          if reason = [] then out
          else let shared = (if reason = ExclusionDuplicatePinLabel
                 then map wName (filter (\<lambda>other. wName other \<noteq> wName w \<and>
                        PinIdentity other = PinIdentity w) workers)
                 else [])
               in out @ [\<lparr>exclWorker = wName w, exclPinLabel = PinIdentity w, exclReason = reason,
                          exclSharedWith = shared\<rparr>]) [] workers)"

record monitor =
  mExcluded :: vec_ref
  mEligible :: vec_ref
  mLast :: "(string, (string, AutoSizeExclusion) fmap) fmap"

datatype elig_log =
    WorkerExcluded string AutoSizeExclusion
  | EligibleAgain string string string
  | NoLongerLive string string string

definition NewEligibilityMonitor :: "registry option \<Rightarrow> monitor \<times> registry option" where
  "NewEligibilityMonitor reg =
     (case NewGaugeVec ''orchard_gh_bridge_autosize_worker_excluded''
             ''1 for each live worker that matches an AutoSize scale set's labels but cannot take its VMs, labelled with the reason.''
             [''scale_set'', ''worker'', ''pin_label'', ''reason''] reg of
        (excluded, reg1) \<Rightarrow>
          (case NewGaugeVec ''orchard_gh_bridge_autosize_eligible_workers''
                  ''Number of live workers an AutoSize scale set can place VMs on.'' [''scale_set''] reg1 of
             (eligible, reg2) \<Rightarrow>
               (\<lparr>mExcluded = excluded, mEligible = eligible, mLast = fmempty\<rparr>, reg2)))"

fun join_comma :: "string list \<Rightarrow> string" where
  "join_comma [] = []"
| "join_comma [s] = s"
| "join_comma (s # t # ts) = s @ '','' @ join_comma (t # ts)"

definition sameExclusion :: "AutoSizeExclusion \<Rightarrow> AutoSizeExclusion \<Rightarrow> bool" where
  "sameExclusion a b \<longleftrightarrow> exclReason a = exclReason b \<and> exclPinLabel a = exclPinLabel b \<and>
     join_comma (exclSharedWith a) = join_comma (exclSharedWith b)"

definition sortedKeys :: "(string, 'v) fmap \<Rightarrow> string list" where
  "sortedKeys m = sorted_list_of_fset (fmdom m)"

definition excl_labels :: "string \<Rightarrow> AutoSizeExclusion \<Rightarrow> string list" where
  "excl_labels scaleSet ex = [scaleSet, exclWorker ex, exclPinLabel ex, exclReason ex]"

fun warn_loop :: "vec_ref \<Rightarrow> string \<Rightarrow> (string, AutoSizeExclusion) fmap \<Rightarrow>
    (string, AutoSizeExclusion) fmap \<Rightarrow> string list \<Rightarrow> registry option \<Rightarrow>
    (elig_log list \<times> registry option) outcome" where
  "warn_loop g scaleSet prev cur [] reg = Return ([], reg)"
| "warn_loop g scaleSet prev cur (name # names) reg =
     (let ex = the (fmlookup cur name) in
      if (case fmlookup prev name of Some old \<Rightarrow> sameExclusion old ex | None \<Rightarrow> False)
      then warn_loop g scaleSet prev cur names reg
      else case (case fmlookup prev name of
                   Some old \<Rightarrow> GaugeVec_Delete g (excl_labels scaleSet old) reg
                 | None \<Rightarrow> Return reg) of
        Panic \<Rightarrow> Panic
      | Return reg1 \<Rightarrow>
          (case GaugeVec_Set g 1 (excl_labels scaleSet ex) reg1 of
             Panic \<Rightarrow> Panic
           | Return reg2 \<Rightarrow>
               (case warn_loop g scaleSet prev cur names reg2 of
                  Panic \<Rightarrow> Panic
                | Return (logs, reg3) \<Rightarrow> Return (WorkerExcluded scaleSet ex # logs, reg3))))"

fun clear_loop :: "vec_ref \<Rightarrow> string \<Rightarrow> (string, AutoSizeExclusion) fmap \<Rightarrow>
    (string, AutoSizeExclusion) fmap \<Rightarrow> string list \<Rightarrow> string list \<Rightarrow> registry option \<Rightarrow>
    (elig_log list \<times> registry option) outcome" where
  "clear_loop g scaleSet prev cur present [] reg = Return ([], reg)"
| "clear_loop g scaleSet prev cur present (name # names) reg =
     (if name |\<in>| fmdom cur then clear_loop g scaleSet prev cur present names reg
      else let old = the (fmlookup prev name) in
        case GaugeVec_Delete g (excl_labels scaleSet old) reg of
          Panic \<Rightarrow> Panic
        | Return reg1 \<Rightarrow>
            (case clear_loop g scaleSet prev cur present names reg1 of
               Panic \<Rightarrow> Panic
             | Return (logs, reg2) \<Rightarrow>
                 Return ((if name \<in> set present then EligibleAgain scaleSet name (exclReason old)
                          else NoLongerLive scaleSet name (exclReason old)) # logs, reg2)))"

definition current_exclusions :: "AutoSizeExclusion list \<Rightarrow> (string, AutoSizeExclusion) fmap" where
  "current_exclusions exs = foldl (\<lambda>cur ex. fmupd (exclWorker ex) ex cur) fmempty exs"

definition last_of :: "monitor \<Rightarrow> string \<Rightarrow> (string, AutoSizeExclusion) fmap" where
  "last_of m scaleSet = (case fmlookup (mLast m) scaleSet of None \<Rightarrow> fmempty | Some p \<Rightarrow> p)"

definition Observe :: "string \<Rightarrow> Worker list \<Rightarrow> labels \<Rightarrow> u64 \<Rightarrow> u64 \<Rightarrow> monitor \<Rightarrow>
    registry option \<Rightarrow> (elig_log list \<times> monitor \<times> registry option) outcome" where
  "Observe scaleSet workers vmLabels reserveCPU reserveMemMiB m reg =
     (let cur = current_exclusions (AutoSizeExclusions workers vmLabels reserveCPU reserveMemMiB);
          present = map wName workers;
          prev = last_of m scaleSet in
      case warn_loop (mExcluded m) scaleSet prev cur (sortedKeys cur) reg of
        Panic \<Rightarrow> Panic
      | Return (logs1, reg1) \<Rightarrow>
          (case clear_loop (mExcluded m) scaleSet prev cur present (sortedKeys prev) reg1 of
             Panic \<Rightarrow> Panic
           | Return (logs2, reg2) \<Rightarrow>
               (case GaugeVec_Set (mEligible m)
                       (f64 (WorkerCountForLabels workers vmLabels reserveCPU reserveMemMiB))
                       [scaleSet] reg2 of
                  Panic \<Rightarrow> Panic
                | Return reg3 \<Rightarrow>
                    Return (logs1 @ logs2, m\<lparr>mLast := fmupd scaleSet cur (mLast m)\<rparr>, reg3))))"

text \<open>Specification: the excluded workers, and when the gauge shows a family of exclusions.\<close>

definition excluded_worker :: "Worker list \<Rightarrow> labels \<Rightarrow> u64 \<Rightarrow> u64 \<Rightarrow> Worker \<Rightarrow> bool" where
  "excluded_worker ws l rc rm w \<longleftrightarrow> workerMatchesLabels w l \<and>
     AutoSizeExclusionReason w (PinCounts ws) rc rm \<noteq> []"

definition exclusion_of :: "Worker list \<Rightarrow> u64 \<Rightarrow> u64 \<Rightarrow> Worker \<Rightarrow> AutoSizeExclusion" where
  "exclusion_of ws rc rm w =
     (let reason = AutoSizeExclusionReason w (PinCounts ws) rc rm in
      \<lparr>exclWorker = wName w, exclPinLabel = PinIdentity w, exclReason = reason,
       exclSharedWith = (if reason = ExclusionDuplicatePinLabel
         then map wName (filter (\<lambda>v. wName v \<noteq> wName w \<and> PinIdentity v = PinIdentity w) ws) else [])\<rparr>)"

definition keyed :: "string \<Rightarrow> (string \<Rightarrow> AutoSizeExclusion option) \<Rightarrow> bool" where
  "keyed ss P \<longleftrightarrow> (\<forall>n ex. P n = Some ex \<longrightarrow> exclWorker ex = n \<and> label_tuple 4 (excl_labels ss ex))"

definition agrees :: "nat \<Rightarrow> string \<Rightarrow> (string list \<Rightarrow> int option) \<Rightarrow>
    (string \<Rightarrow> AutoSizeExclusion option) \<Rightarrow> registry option \<Rightarrow> bool" where
  "agrees i ss B P reg \<longleftrightarrow> gauge_ok i 4 reg \<and>
     (\<forall>k. label_tuple 4 k \<longrightarrow> reg_series i reg k =
        (if hd k = ss then (if \<exists>n ex. P n = Some ex \<and> k = excl_labels ss ex then Some 1 else None)
         else B k))"

subsection \<open>Exclusions\<close>

lemma AutoSizeExclusions_eq:
  "AutoSizeExclusions ws l rc rm = map (exclusion_of ws rc rm) (filter (excluded_worker ws l rc rm) ws)"
proof -
  have "foldl (\<lambda>out w.
        if \<not> workerMatchesLabels w l then out
        else let reason = AutoSizeExclusionReason w (PinCounts ws) rc rm in
          if reason = [] then out
          else let shared = (if reason = ExclusionDuplicatePinLabel
                 then map wName (filter (\<lambda>other. wName other \<noteq> wName w \<and>
                        PinIdentity other = PinIdentity w) ws)
                 else [])
               in out @ [\<lparr>exclWorker = wName w, exclPinLabel = PinIdentity w, exclReason = reason,
                          exclSharedWith = shared\<rparr>]) [] vs =
    map (exclusion_of ws rc rm) (filter (excluded_worker ws l rc rm) vs)" for vs
    by (induction vs rule: rev_induct) (simp_all add: exclusion_of_def excluded_worker_def Let_def)
  then show ?thesis by (simp add: AutoSizeExclusions_def Let_def)
qed

lemma candidates_filter:
  "autoSizeCandidates ws l rc rm =
    filter (\<lambda>w. workerMatchesLabels w l \<and> \<not> excluded_worker ws l rc rm w) ws"
  unfolding autoSizeCandidates_def Let_def excluded_worker_def by (intro filter_cong) auto

lemma current_exclusions_lookup:
  "fmlookup (current_exclusions exs) n =
    (if n \<in> exclWorker ` set exs then Some (last (filter (\<lambda>ex. exclWorker ex = n) exs)) else None)"
  unfolding current_exclusions_def by (induction exs rule: rev_induct) auto

lemma current_exclusions_in:
  assumes "fmlookup (current_exclusions exs) n = Some ex"
  shows "ex \<in> set exs" and "exclWorker ex = n"
proof -
  have "filter (\<lambda>ex. exclWorker ex = n) exs \<noteq> []" "ex = last (filter (\<lambda>ex. exclWorker ex = n) exs)"
    using assms by (auto simp: current_exclusions_lookup filter_empty_conv split: if_splits)
  then have "ex \<in> set (filter (\<lambda>ex. exclWorker ex = n) exs)" using last_in_set by metis
  then show "ex \<in> set exs" "exclWorker ex = n" by simp_all
qed

lemma sortedKeys_set [simp]: "set (sortedKeys m) = fset (fmdom m)" "distinct (sortedKeys m)"
  by (simp_all add: sortedKeys_def sorted_list_of_fset.rep_eq)

subsection \<open>The gauge follows the map\<close>

lemma excl_labels_inj:
  "excl_labels ss a = excl_labels ss b \<longleftrightarrow>
    exclWorker a = exclWorker b \<and> exclPinLabel a = exclPinLabel b \<and> exclReason a = exclReason b"
  by (auto simp: excl_labels_def)

lemma agrees_put:
  assumes "agrees i ss B P reg" and "keyed ss P" and "P n = None"
    and "exclWorker ex = n" and "label_tuple 4 (excl_labels ss ex)"
  shows "\<exists>reg'. GaugeVec_Set (Some i) 1 (excl_labels ss ex) reg = Return reg' \<and>
    agrees i ss B (P(n \<mapsto> ex)) reg'"
proof -
  obtain reg' where r: "GaugeVec_Set (Some i) 1 (excl_labels ss ex) reg = Return reg'"
      "gauge_ok i 4 reg'"
      "\<forall>k. label_tuple 4 k \<longrightarrow> reg_series i reg' k = (if k = excl_labels ss ex then Some 1 else reg_series i reg k)"
    using gauge.put_cases [of i 4 reg "excl_labels ss ex" 1] assms(1,5) by (auto simp: agrees_def)
  have "agrees i ss B (P(n \<mapsto> ex)) reg'"
    unfolding agrees_def
  proof (intro conjI allI impI)
    fix k
    assume k: "label_tuple 4 k"
    have "(\<exists>m e. (P(n \<mapsto> ex)) m = Some e \<and> k = excl_labels ss e) \<longleftrightarrow>
        k = excl_labels ss ex \<or> (\<exists>m e. P m = Some e \<and> k = excl_labels ss e)"
      using assms(3) by (auto split: if_splits) (metis option.distinct(1))
    moreover have "hd (excl_labels ss ex) = ss" by (simp add: excl_labels_def)
    ultimately show "reg_series i reg' k = (if hd k = ss then
        (if \<exists>m e. (P(n \<mapsto> ex)) m = Some e \<and> k = excl_labels ss e then Some 1 else None) else B k)"
      using r(3) k assms(1) by (auto simp: agrees_def)
  qed (rule r(2))
  then show ?thesis using r(1) by blast
qed

lemma agrees_del:
  assumes "agrees i ss B P reg" and "keyed ss P" and "P n = Some old"
  shows "\<exists>reg'. GaugeVec_Delete (Some i) (excl_labels ss old) reg = Return reg' \<and>
    agrees i ss B (P(n := None)) reg'"
proof -
  have old: "exclWorker old = n" "label_tuple 4 (excl_labels ss old)"
    using assms(2,3) by (auto simp: keyed_def)
  obtain reg' where r: "GaugeVec_Delete (Some i) (excl_labels ss old) reg = Return reg'"
      "gauge_ok i 4 reg'"
      "\<forall>k. label_tuple 4 k \<longrightarrow> reg_series i reg' k = (if k = excl_labels ss old then None else reg_series i reg k)"
    using gauge.del_cases [of i 4 reg "excl_labels ss old"] assms(1) old(2) by (auto simp: agrees_def)
  have "agrees i ss B (P(n := None)) reg'"
    unfolding agrees_def
  proof (intro conjI allI impI)
    fix k
    assume k: "label_tuple 4 k"
    have "(\<exists>m e. (P(n := None)) m = Some e \<and> k = excl_labels ss e) \<longleftrightarrow>
        k \<noteq> excl_labels ss old \<and> (\<exists>m e. P m = Some e \<and> k = excl_labels ss e)"
    proof (intro iffI)
      assume "\<exists>m e. (P(n := None)) m = Some e \<and> k = excl_labels ss e"
      then obtain m e where m: "m \<noteq> n" "P m = Some e" "k = excl_labels ss e"
        by (auto split: if_splits)
      then have "exclWorker e = m" using assms(2) by (auto simp: keyed_def)
      then have "k \<noteq> excl_labels ss old" using m old(1) by (auto simp: excl_labels_inj)
      then show "k \<noteq> excl_labels ss old \<and> (\<exists>m e. P m = Some e \<and> k = excl_labels ss e)" using m by blast
    next
      assume "k \<noteq> excl_labels ss old \<and> (\<exists>m e. P m = Some e \<and> k = excl_labels ss e)"
      then obtain m e where m: "k \<noteq> excl_labels ss old" "P m = Some e" "k = excl_labels ss e" by blast
      then have "m \<noteq> n" using assms(3) by auto
      then show "\<exists>m e. (P(n := None)) m = Some e \<and> k = excl_labels ss e" using m by auto
    qed
    moreover have "hd (excl_labels ss old) = ss" by (simp add: excl_labels_def)
    ultimately show "reg_series i reg' k = (if hd k = ss then
        (if \<exists>m e. (P(n := None)) m = Some e \<and> k = excl_labels ss e then Some 1 else None) else B k)"
      using r(3) k assms(1) by (auto simp: agrees_def)
  qed (rule r(2))
  then show ?thesis using r(1) by blast
qed

lemma keyed_upd: "keyed ss P \<Longrightarrow> keyed ss Q \<Longrightarrow> keyed ss (\<lambda>n. if n \<in> A then Q n else P n)"
  by (auto simp: keyed_def)

lemma keyed_del: "keyed ss P \<Longrightarrow> keyed ss (\<lambda>n. if n \<in> A then None else P n)"
  by (auto simp: keyed_def)

lemma warn_loop_agrees:
  assumes "agrees i ss B P reg" and "keyed ss P" and "keyed ss (fmlookup cur)"
    and "distinct names" and "\<forall>n\<in>set names. P n = fmlookup prev n \<and> n |\<in>| fmdom cur"
  shows "\<exists>logs reg'. warn_loop (Some i) ss prev cur names reg = Return (logs, reg') \<and>
    agrees i ss B (\<lambda>n. if n \<in> set names then fmlookup cur n else P n) reg'"
  using assms
proof (induction names arbitrary: P reg)
  case Nil
  then show ?case by simp
next
  case (Cons n names)
  from Cons.prems(5) obtain ex where ex: "fmlookup cur n = Some ex" by auto
  have kex: "exclWorker ex = n" "label_tuple 4 (excl_labels ss ex)"
    using Cons.prems(3) ex by (auto simp: keyed_def)
  let ?Q = "P(n \<mapsto> ex)"
  have kQ: "keyed ss ?Q" using Cons.prems(2) kex by (simp add: keyed_def)
  have eq: "(\<lambda>m. if m \<in> set names then fmlookup cur m else ?Q m) =
      (\<lambda>m. if m \<in> set (n # names) then fmlookup cur m else P m)"
    using ex by auto
  have rest: "\<forall>m\<in>set names. ?Q m = fmlookup prev m \<and> m |\<in>| fmdom cur"
    using Cons.prems(4,5) by auto
  have IH: "\<exists>logs reg'. warn_loop (Some i) ss prev cur names r = Return (logs, reg') \<and>
      agrees i ss B (\<lambda>m. if m \<in> set (n # names) then fmlookup cur m else P m) reg'"
    if "agrees i ss B ?Q r" for r
    using Cons.IH [OF that kQ Cons.prems(3) _ rest] Cons.prems(4) unfolding eq by simp
  have put: "\<exists>logs reg'. warn_loop (Some i) ss prev cur (n # names) reg = Return (logs, reg') \<and>
      agrees i ss B (\<lambda>m. if m \<in> set (n # names) then fmlookup cur m else P m) reg'"
    if "agrees i ss B (P(n := None)) r"
      and step: "\<And>reg2. GaugeVec_Set (Some i) 1 (excl_labels ss ex) r = Return reg2 \<Longrightarrow>
        warn_loop (Some i) ss prev cur (n # names) reg =
        (case warn_loop (Some i) ss prev cur names reg2 of Panic \<Rightarrow> Panic
         | Return (logs, reg3) \<Rightarrow> Return (WorkerExcluded ss ex # logs, reg3))" for r
  proof -
    have "keyed ss (P(n := None))" using Cons.prems(2) by (simp add: keyed_def)
    from agrees_put [OF that(1) this _ kex] obtain reg2 where
      s: "GaugeVec_Set (Some i) 1 (excl_labels ss ex) r = Return reg2" "agrees i ss B ?Q reg2"
      by auto
    from IH [OF s(2)] step [OF s(1)] show ?thesis by auto
  qed
  show ?case
  proof (cases "fmlookup prev n")
    case None
    then have P: "P(n := None) = P" using Cons.prems(5) by auto
    show ?thesis
      by (rule put [of reg]) (use Cons.prems(1) P None ex in \<open>simp_all add: Let_def\<close>)
  next
    case (Some old)
    then have P: "P n = Some old" using Cons.prems(5) by simp
    show ?thesis
    proof (cases "sameExclusion old ex")
      case True
      have "exclWorker old = n" using P Cons.prems(2) by (auto simp: keyed_def)
      then have same: "excl_labels ss old = excl_labels ss ex"
        using True kex by (simp add: excl_labels_inj sameExclusion_def)
      have "(\<exists>m e. ?Q m = Some e \<and> k = excl_labels ss e) \<longleftrightarrow> (\<exists>m e. P m = Some e \<and> k = excl_labels ss e)" for k
      proof (intro iffI; elim exE conjE)
        fix m e assume "?Q m = Some e" "k = excl_labels ss e"
        then show "\<exists>m e. P m = Some e \<and> k = excl_labels ss e"
          using P same by (cases "m = n") (metis fun_upd_same option.inject, metis fun_upd_other)
      next
        fix m e assume m: "P m = Some e" "k = excl_labels ss e"
        show "\<exists>m e. ?Q m = Some e \<and> k = excl_labels ss e"
        proof (cases "m = n")
          case True
          then show ?thesis using m P same by (intro exI [of _ n] exI [of _ ex]) simp
        next
          case False
          then show ?thesis using m by (intro exI [of _ m] exI [of _ e]) simp
        qed
      qed
      then have "agrees i ss B ?Q reg" using Cons.prems(1) by (simp add: agrees_def)
      from IH [OF this] show ?thesis using Some True ex by (simp add: Let_def)
    next
      case False
      from agrees_del [OF Cons.prems(1,2) P] obtain r where
        r: "GaugeVec_Delete (Some i) (excl_labels ss old) reg = Return r" "agrees i ss B (P(n := None)) r"
        by auto
      show ?thesis
        by (rule put [OF r(2)]) (use r(1) Some False ex in \<open>simp add: Let_def\<close>)
    qed
  qed
qed

lemma clear_loop_agrees:
  assumes "agrees i ss B P reg" and "keyed ss P" and "distinct names"
    and "\<forall>n\<in>set names. n |\<notin>| fmdom cur \<longrightarrow> P n = fmlookup prev n \<and> n |\<in>| fmdom prev"
  shows "\<exists>logs reg'. clear_loop (Some i) ss prev cur present names reg = Return (logs, reg') \<and>
    agrees i ss B (\<lambda>n. if n \<in> {n \<in> set names. n |\<notin>| fmdom cur} then None else P n) reg'"
  using assms
proof (induction names arbitrary: P reg)
  case Nil
  then show ?case by simp
next
  case (Cons n names)
  show ?case
  proof (cases "n |\<in>| fmdom cur")
    case True
    have "(\<lambda>m. if m \<in> {m \<in> set (n # names). m |\<notin>| fmdom cur} then None else P m) =
        (\<lambda>m. if m \<in> {m \<in> set names. m |\<notin>| fmdom cur} then None else P m)" using True by auto
    then show ?thesis using Cons.IH [OF Cons.prems(1,2)] Cons.prems(3,4) True by simp
  next
    case False
    then obtain old where old: "fmlookup prev n = Some old" "P n = Some old"
      using Cons.prems(4) by auto
    from agrees_del [OF Cons.prems(1,2) old(2)] obtain r where
      r: "GaugeVec_Delete (Some i) (excl_labels ss old) reg = Return r" "agrees i ss B (P(n := None)) r"
      by auto
    have k: "keyed ss (P(n := None))" using Cons.prems(2) by (simp add: keyed_def)
    have eq: "(\<lambda>m. if m \<in> {m \<in> set (n # names). m |\<notin>| fmdom cur} then None else P m) =
        (\<lambda>m. if m \<in> {m \<in> set names. m |\<notin>| fmdom cur} then None else (P(n := None)) m)"
      using False by auto
    have "\<forall>m\<in>set names. m |\<notin>| fmdom cur \<longrightarrow> (P(n := None)) m = fmlookup prev m \<and> m |\<in>| fmdom prev"
      using Cons.prems(3,4) by auto
    from Cons.IH [OF r(2) k _ this] Cons.prems(3) obtain logs reg' where
      "clear_loop (Some i) ss prev cur present names r = Return (logs, reg')"
      "agrees i ss B (\<lambda>m. if m \<in> {m \<in> set names. m |\<notin>| fmdom cur} then None else (P(n := None)) m) reg'"
      by auto
    then show ?thesis unfolding eq using False r(1) old(1) by (simp add: Let_def)
  qed
qed

lemma warn_loop_frame:
  "warn_loop (Some i) ss prev cur names reg = Return (logs, reg') \<Longrightarrow> i \<noteq> j \<Longrightarrow>
    reg_series j reg' = reg_series j reg \<and> gauge_ok j n reg' = gauge_ok j n reg"
proof (induction names arbitrary: reg logs)
  case Nil
  then show ?case by simp
next
  case (Cons name names)
  show ?case
  proof (cases "case fmlookup prev name of Some old \<Rightarrow> sameExclusion old (the (fmlookup cur name)) | None \<Rightarrow> False")
    case True
    then show ?thesis using Cons by (simp add: Let_def)
  next
    case False
    let ?del = "case fmlookup prev name of Some old \<Rightarrow> GaugeVec_Delete (Some i) (excl_labels ss old) reg
        | None \<Rightarrow> Return reg"
    from False Cons.prems(1) obtain r1 r2 logs1 where r: "?del = Return r1"
      "GaugeVec_Set (Some i) 1 (excl_labels ss (the (fmlookup cur name))) r1 = Return r2"
      "warn_loop (Some i) ss prev cur names r2 = Return (logs1, reg')"
      by (auto simp: Let_def split: outcome.splits)
    have "reg_series j r1 = reg_series j reg \<and> gauge_ok j n r1 = gauge_ok j n reg"
      using r(1) Cons.prems(2) on_vec_frame [of i _ reg r1 j]
      by (auto simp: GaugeVec_Delete_def split: option.splits)
    then show ?thesis
      using on_vec_frame [OF r(2) [unfolded GaugeVec_Set_def] Cons.prems(2)] Cons.IH [OF r(3) Cons.prems(2)]
      by simp
  qed
qed

lemma clear_loop_frame:
  "clear_loop (Some i) ss prev cur present names reg = Return (logs, reg') \<Longrightarrow> i \<noteq> j \<Longrightarrow>
    reg_series j reg' = reg_series j reg \<and> gauge_ok j n reg' = gauge_ok j n reg"
proof (induction names arbitrary: reg logs)
  case Nil
  then show ?case by simp
next
  case (Cons name names)
  show ?case
  proof (cases "name |\<in>| fmdom cur")
    case True
    then show ?thesis using Cons by simp
  next
    case False
    with Cons.prems(1) obtain r1 logs1 where
      r: "GaugeVec_Delete (Some i) (excl_labels ss (the (fmlookup prev name))) reg = Return r1"
      "clear_loop (Some i) ss prev cur present names r1 = Return (logs1, reg')"
      by (auto simp: Let_def split: outcome.splits)
    show ?thesis
      using on_vec_frame [OF r(1) [unfolded GaugeVec_Delete_def] Cons.prems(2)] Cons.IH [OF r(2) Cons.prems(2)]
      by simp
  qed
qed

text \<open>The invariant of a monitor with gauge \<open>i\<close> for exclusions and \<open>j\<close> for eligible workers: the
  exclusion gauge has a series, at 1, for exactly the exclusions the monitor remembers.\<close>

definition monitor_ok :: "nat \<Rightarrow> nat \<Rightarrow> monitor \<Rightarrow> registry option \<Rightarrow> bool" where
  "monitor_ok i j m reg \<longleftrightarrow> i \<noteq> j \<and> mExcluded m = Some i \<and> mEligible m = Some j \<and>
     gauge_ok i 4 reg \<and> gauge_ok j 1 reg \<and> (\<forall>ss. keyed ss (fmlookup (last_of m ss))) \<and>
     (\<forall>k. label_tuple 4 k \<longrightarrow> reg_series i reg k =
        (if \<exists>n ex. fmlookup (last_of m (hd k)) n = Some ex \<and> k = excl_labels (hd k) ex
         then Some 1 else None))"

definition utf8_text :: "string \<Rightarrow> bool" where
  "utf8_text s \<longleftrightarrow> CHR 0xFF \<notin> set s"

lemma reason_utf8: "utf8_text (AutoSizeExclusionReason w counts rc rm)"
  by (simp add: AutoSizeExclusionReason_def exclusion_defs utf8_text_def Let_def split: option.split)

lemma keyed_current:
  assumes "utf8_text ss" and "\<forall>w\<in>set ws. utf8_text (wName w) \<and> utf8_text (PinIdentity w)"
  shows "keyed ss (fmlookup (current_exclusions (AutoSizeExclusions ws l rc rm)))"
  unfolding keyed_def
proof (intro allI impI conjI)
  fix n ex
  assume a: "fmlookup (current_exclusions (AutoSizeExclusions ws l rc rm)) n = Some ex"
  show "exclWorker ex = n" by (rule current_exclusions_in(2) [OF a])
  obtain w where w: "w \<in> set ws" "ex = exclusion_of ws rc rm w"
    using current_exclusions_in(1) [OF a] by (auto simp: AutoSizeExclusions_eq)
  have "utf8_text (wName w)" "utf8_text (PinIdentity w)" using assms(2) w(1) by simp_all
  then show "label_tuple 4 (excl_labels ss ex)"
    using assms(1) w(2) reason_utf8 [of w "PinCounts ws" rc rm]
    by (simp add: label_tuple_def utf8_labels_def excl_labels_def exclusion_of_def utf8_text_def Let_def)
qed

lemma last_of_upd [simp]:
  "last_of (m\<lparr>mLast := fmupd ss cur (mLast m)\<rparr>) ss' = (if ss' = ss then cur else last_of m ss')"
  by (simp add: last_of_def)

lemma Observe_step:
  assumes ok: "monitor_ok i j m reg" and u: "utf8_text ss"
    and ws: "\<forall>w\<in>set ws. utf8_text (wName w) \<and> utf8_text (PinIdentity w)"
    and cur: "cur = current_exclusions (AutoSizeExclusions ws l rc rm)"
  shows "\<exists>logs reg'. Observe ss ws l rc rm m reg =
      Return (logs, m\<lparr>mLast := fmupd ss cur (mLast m)\<rparr>, reg') \<and>
    monitor_ok i j (m\<lparr>mLast := fmupd ss cur (mLast m)\<rparr>) reg' \<and>
    (\<forall>k. label_tuple 1 k \<longrightarrow> reg_series j reg' k =
      (if k = [ss] then Some (f64 (WorkerCountForLabels ws l rc rm)) else reg_series j reg k))"
proof -
  let ?B = "\<lambda>k. if \<exists>n ex. fmlookup (last_of m (hd k)) n = Some ex \<and> k = excl_labels (hd k) ex
      then Some (1 :: int) else None"
  let ?prev = "last_of m ss"
  have kcur: "keyed ss (fmlookup cur)" unfolding cur by (rule keyed_current [OF u ws])
  have kprev: "keyed ss (fmlookup ?prev)" using ok by (simp add: monitor_ok_def)
  have g: "mExcluded m = Some i" "mEligible m = Some j" "i \<noteq> j" using ok by (simp_all add: monitor_ok_def)
  have "agrees i ss ?B (fmlookup ?prev) reg"
    using ok by (simp add: agrees_def monitor_ok_def)
  from warn_loop_agrees [OF this kprev kcur, of "sortedKeys cur" ?prev] obtain logs1 reg1 where
    w: "warn_loop (Some i) ss ?prev cur (sortedKeys cur) reg = Return (logs1, reg1)"
    "agrees i ss ?B (\<lambda>n. if n \<in> set (sortedKeys cur) then fmlookup cur n else fmlookup ?prev n) reg1"
    by auto
  have k1: "keyed ss (\<lambda>n. if n \<in> set (sortedKeys cur) then fmlookup cur n else fmlookup ?prev n)"
    by (rule keyed_upd [OF kprev kcur])
  from clear_loop_agrees [OF w(2) k1, of "sortedKeys ?prev" cur ?prev "map wName ws"] obtain logs2 reg2 where
    c: "clear_loop (Some i) ss ?prev cur (map wName ws) (sortedKeys ?prev) reg1 = Return (logs2, reg2)"
    "agrees i ss ?B (\<lambda>n. if n \<in> {n \<in> set (sortedKeys ?prev). n |\<notin>| fmdom cur} then None
       else if n \<in> set (sortedKeys cur) then fmlookup cur n else fmlookup ?prev n) reg2"
    by auto
  have "(\<lambda>n. if n \<in> {n \<in> set (sortedKeys ?prev). n |\<notin>| fmdom cur} then None
       else if n \<in> set (sortedKeys cur) then fmlookup cur n else fmlookup ?prev n) = fmlookup cur"
    by (auto simp: fun_eq_iff fmdom_notD)
  then have a2: "agrees i ss ?B (fmlookup cur) reg2" using c(2) by simp
  have j1: "gauge_ok j 1 reg1 = gauge_ok j 1 reg" "reg_series j reg1 = reg_series j reg"
    using warn_loop_frame [OF w(1)] g(3) by simp_all
  have j2: "gauge_ok j 1 reg2 = gauge_ok j 1 reg1" "reg_series j reg2 = reg_series j reg1"
    using clear_loop_frame [OF c(1)] g(3) by simp_all
  have "gauge_ok j 1 reg2" "label_tuple 1 [ss]"
    using j1 j2 ok u by (simp_all add: monitor_ok_def label_tuple_def utf8_labels_def utf8_text_def)
  then obtain reg3 where s: "GaugeVec_Set (Some j) (f64 (WorkerCountForLabels ws l rc rm)) [ss] reg2 = Return reg3"
      "gauge_ok j 1 reg3"
      "\<forall>k. label_tuple 1 k \<longrightarrow> reg_series j reg3 k =
        (if k = [ss] then Some (f64 (WorkerCountForLabels ws l rc rm)) else reg_series j reg2 k)"
    by (rule gauge.put_cases)
  have i3: "gauge_ok i 4 reg3 = gauge_ok i 4 reg2" "reg_series i reg3 = reg_series i reg2"
    using on_vec_frame [OF s(1) [unfolded GaugeVec_Set_def]] g(3) by simp_all
  have "monitor_ok i j (m\<lparr>mLast := fmupd ss cur (mLast m)\<rparr>) reg3"
    using a2 i3 s(2) g kcur ok by (auto simp: monitor_ok_def agrees_def)
  moreover have "Observe ss ws l rc rm m reg = Return (logs1 @ logs2, m\<lparr>mLast := fmupd ss cur (mLast m)\<rparr>, reg3)"
    using w(1) c(1) s(1) g by (simp add: Observe_def Let_def cur [symmetric])
  ultimately show ?thesis using s(3) j1 j2 by auto
qed

lemma NewEligibilityMonitor_ok:
  "monitor_ok (length r) (Suc (length r)) (fst (NewEligibilityMonitor (Some r)))
     (snd (NewEligibilityMonitor (Some r)))"
  by (simp add: NewEligibilityMonitor_def NewGaugeVec_def register_def monitor_ok_def gauge_ok_def
      nth_append vec_ok_def keyed_def last_of_def reg_series_def vec_series_def)

subsection \<open>Quiet while nothing changes\<close>

lemma sameExclusion_refl [simp]: "sameExclusion a a"
  by (simp add: sameExclusion_def)

lemma warn_loop_same:
  "\<forall>n\<in>set names. n |\<in>| fmdom cur \<Longrightarrow> warn_loop g ss cur cur names reg = Return ([], reg)"
  by (induction names) (auto simp: Let_def split: option.splits elim!: fmdomE)

lemma clear_loop_same:
  "\<forall>n\<in>set names. n |\<in>| fmdom cur \<Longrightarrow> clear_loop g ss prev cur present names reg = Return ([], reg)"
  by (induction names) auto

subsection \<open>Properties\<close>

text \<open>C39. No label-matching worker drops out of an AutoSize pool silently: the matching workers are
  split, in order, into the eligible candidates and the reported exclusions, each exclusion with a
  reason, and the two counts add up.\<close>

theorem AutoSizeExclusions_complement:
  "AutoSizeExclusions ws l rc rm =
     map (exclusion_of ws rc rm) (filter (\<lambda>w. workerMatchesLabels w l \<and> w \<notin> set (autoSizeCandidates ws l rc rm)) ws) \<and>
   [] \<notin> exclReason ` set (AutoSizeExclusions ws l rc rm) \<and>
   WorkerCountForLabels ws l rc rm + int (length (AutoSizeExclusions ws l rc rm)) =
     int (length (filter (\<lambda>w. workerMatchesLabels w l) ws))"
proof (intro conjI)
  have "filter (\<lambda>w. workerMatchesLabels w l \<and> w \<notin> set (autoSizeCandidates ws l rc rm)) ws =
      filter (excluded_worker ws l rc rm) ws"
    by (intro filter_cong) (auto simp: candidates_filter excluded_worker_def)
  then show "AutoSizeExclusions ws l rc rm =
     map (exclusion_of ws rc rm) (filter (\<lambda>w. workerMatchesLabels w l \<and> w \<notin> set (autoSizeCandidates ws l rc rm)) ws)"
    by (simp add: AutoSizeExclusions_eq)
  show "[] \<notin> exclReason ` set (AutoSizeExclusions ws l rc rm)"
    by (auto simp: AutoSizeExclusions_eq exclusion_of_def excluded_worker_def Let_def)
  have "length (filter (\<lambda>w. workerMatchesLabels w l \<and> \<not> excluded_worker ws l rc rm w) vs) +
      length (filter (excluded_worker ws l rc rm) vs) = length (filter (\<lambda>w. workerMatchesLabels w l) vs)" for vs
    by (induction vs) (auto simp: excluded_worker_def)
  from this [of ws] show "WorkerCountForLabels ws l rc rm + int (length (AutoSizeExclusions ws l rc rm)) =
     int (length (filter (\<lambda>w. workerMatchesLabels w l) ws))"
    by (simp add: WorkerCountForLabels_def candidates_filter AutoSizeExclusions_eq)
qed

text \<open>C40. After every observation the exclusion gauge shows, at value 1, exactly the exclusions of the
  workers just seen for that scale set and what was shown before for every other scale set, and
  the eligible gauge shows the number of candidates; the invariant that makes the next observation
  exact is kept, and no label mismatch can panic.\<close>

theorem Observe_reports_exactly:
  assumes "monitor_ok i j m reg" and "utf8_text ss"
    and "\<forall>w\<in>set ws. utf8_text (wName w) \<and> utf8_text (PinIdentity w)" and "length ws < 2 ^ 53"
  shows "\<exists>logs m' reg'. Observe ss ws l rc rm m reg = Return (logs, m', reg') \<and> monitor_ok i j m' reg' \<and>
    (\<forall>k. label_tuple 4 k \<longrightarrow> reg_series i reg' k =
      (if hd k = ss then
         (if \<exists>n ex. fmlookup (current_exclusions (AutoSizeExclusions ws l rc rm)) n = Some ex \<and> k = excl_labels ss ex
          then Some 1 else None)
       else reg_series i reg k)) \<and>
    reg_series j reg' [ss] = Some (WorkerCountForLabels ws l rc rm)"
proof -
  obtain logs reg' where o: "Observe ss ws l rc rm m reg = Return (logs,
      m\<lparr>mLast := fmupd ss (current_exclusions (AutoSizeExclusions ws l rc rm)) (mLast m)\<rparr>, reg')"
    and ok: "monitor_ok i j (m\<lparr>mLast := fmupd ss (current_exclusions (AutoSizeExclusions ws l rc rm)) (mLast m)\<rparr>) reg'"
    and e: "\<forall>k. label_tuple 1 k \<longrightarrow> reg_series j reg' k =
      (if k = [ss] then Some (f64 (WorkerCountForLabels ws l rc rm)) else reg_series j reg k)"
    using Observe_step [OF assms(1-3) refl] by blast
  have "length (autoSizeCandidates ws l rc rm) \<le> length ws" by (simp add: candidates_filter)
  then have "f64 (WorkerCountForLabels ws l rc rm) = WorkerCountForLabels ws l rc rm"
    using assms(4) by (intro f64_small) (simp add: WorkerCountForLabels_def)
  moreover have "label_tuple 1 [ss]"
    using assms(2) by (simp add: label_tuple_def utf8_labels_def utf8_text_def)
  ultimately have "reg_series j reg' [ss] = Some (WorkerCountForLabels ws l rc rm)" using e by simp
  moreover have "reg_series i reg' k =
      (if hd k = ss then
         (if \<exists>n ex. fmlookup (current_exclusions (AutoSizeExclusions ws l rc rm)) n = Some ex \<and> k = excl_labels ss ex
          then Some 1 else None)
       else reg_series i reg k)" if "label_tuple 4 k" for k
    using ok assms(1) that by (simp add: monitor_ok_def)
  ultimately show ?thesis using o ok by blast
qed

theorem Observe_reports_exactly_witness:
  "\<exists>logs m' reg'. Observe ''ci'' [ex_worker ''a'' ''mini-1''] fmempty 4 4096
      (fst (NewEligibilityMonitor (Some NewRegistry))) (snd (NewEligibilityMonitor (Some NewRegistry))) =
      Return (logs, m', reg') \<and>
    reg_series 1 reg' [''ci''] = Some (WorkerCountForLabels [ex_worker ''a'' ''mini-1''] fmempty 4 4096)"
proof -
  have "monitor_ok 0 1 (fst (NewEligibilityMonitor (Some NewRegistry))) (snd (NewEligibilityMonitor (Some NewRegistry)))"
    using NewEligibilityMonitor_ok [of NewRegistry] by (simp add: NewRegistry_def)
  from Observe_reports_exactly [OF this, of "''ci''" "[ex_worker ''a'' ''mini-1'']" fmempty 4 4096]
  show ?thesis by (auto simp: utf8_text_def ex_worker_def PinIdentity_def PinLabelKey_def)
qed

text \<open>The monitor is quiet while nothing changes: observing the same workers again writes no log
  line and touches no exclusion series, however often the reconcile loop runs.\<close>

theorem Observe_quiet:
  assumes "Observe ss ws l rc rm m reg = Return (logs, m', reg')"
  shows "Observe ss ws l rc rm m' reg' =
    (case GaugeVec_Set (mEligible m) (f64 (WorkerCountForLabels ws l rc rm)) [ss] reg' of
       Panic \<Rightarrow> Panic
     | Return reg'' \<Rightarrow> Return ([], m', reg''))"
proof -
  let ?cur = "current_exclusions (AutoSizeExclusions ws l rc rm)"
  have m': "m' = m\<lparr>mLast := fmupd ss ?cur (mLast m)\<rparr>"
    using assms by (auto simp: Observe_def Let_def split: outcome.splits prod.splits)
  then have "last_of m' ss = ?cur" "mEligible m' = mEligible m" "mLast m' = fmupd ss ?cur (mLast m)"
    by simp_all
  moreover have "m'\<lparr>mLast := fmupd ss ?cur (mLast m')\<rparr> = m'"
    using m' by simp
  ultimately show ?thesis
    by (simp add: Observe_def Let_def warn_loop_same clear_loop_same split: outcome.splits)
qed

theorem Observe_quiet_witness:
  "\<exists>logs m' reg' reg''. Observe ''ci'' [ex_worker ''a'' []] fmempty 4 4096
      (fst (NewEligibilityMonitor (Some NewRegistry))) (snd (NewEligibilityMonitor (Some NewRegistry))) =
      Return (logs, m', reg') \<and>
    Observe ''ci'' [ex_worker ''a'' []] fmempty 4 4096 m' reg' = Return ([], m', reg'')"
proof -
  let ?ws = "[ex_worker ''a'' []]"
  have ok: "monitor_ok 0 1 (fst (NewEligibilityMonitor (Some NewRegistry))) (snd (NewEligibilityMonitor (Some NewRegistry)))"
    using NewEligibilityMonitor_ok [of NewRegistry] by (simp add: NewRegistry_def)
  have u: "utf8_text ''ci''" "\<forall>w\<in>set ?ws. utf8_text (wName w) \<and> utf8_text (PinIdentity w)"
    by (simp_all add: utf8_text_def ex_worker_def PinIdentity_def PinLabelKey_def)
  obtain logs m1 reg1 where o: "Observe ''ci'' ?ws fmempty 4 4096 (fst (NewEligibilityMonitor (Some NewRegistry)))
      (snd (NewEligibilityMonitor (Some NewRegistry))) = Return (logs, m1, reg1)" "monitor_ok 0 1 m1 reg1"
    using Observe_step [OF ok u refl] by metis
  obtain logs2 m2 reg2 where o2: "Observe ''ci'' ?ws fmempty 4 4096 m1 reg1 = Return (logs2, m2, reg2)"
    using Observe_step [OF o(2) u refl] by metis
  have "logs2 = [] \<and> m2 = m1"
    using Observe_quiet [OF o(1)] o2 by (auto split: outcome.splits)
  then show ?thesis using o(1) o2 by blast
qed

end
