(* ===== verification/Manager_Model.thy ===== *)
theory Manager_Model
  imports Cleanup_Model Eligibility_Model
begin

text \<open>
  \<^verbatim>\<open>manager/manager.go\<close>: the manager that wires the scale sets to one capacity counter, one view and
  one cleanup loop. Its state \<open>mgr\<close> extends the cleanup state by the handles (bridge, listener limit,
  static limit) and the eligibility monitor. \<open>mgr_hooks\<close> and \<open>mgr_wiring\<close> are the callbacks it
  installs in the bridges, the cleanup loop and the counter; the interpretations of
  \<open>Manager_Spec\<close> are on them.

  The GitHub client library, the listener and the context's clock are arguments (\<open>scaleset_client\<close>,
  \<open>outside\<close>).
\<close>

datatype mgr_cb = RecomputeShares

record scaleSetHandle =
  hBridge :: bridge
  hMaxRunners :: int
  hStaticMaxRunners :: int

record 'o mgr = "('o, mgr_cb) msys" +
  mHandles :: "scaleSetHandle list"
  mMonitor :: monitor
  mStaleAfter :: duration

record RunnerScaleSet =
  rsID :: int
  rsName :: string
  rsRunnerGroupID :: int
  rsLabels :: "string list"
  rsDisableUpdate :: bool

record 'o scaleset_client =
  runnerClient :: "'o gh_client"
  GetRunnerGroupByName :: "string \<Rightarrow> 'o \<Rightarrow> (gerror + int) \<times> 'o"
  GetRunnerScaleSet :: "int \<Rightarrow> string \<Rightarrow> 'o \<Rightarrow> (gerror + RunnerScaleSet option) \<times> 'o"
  UpdateRunnerScaleSet :: "int \<Rightarrow> RunnerScaleSet \<Rightarrow> 'o \<Rightarrow> (gerror + RunnerScaleSet) \<times> 'o"
  CreateRunnerScaleSet :: "RunnerScaleSet \<Rightarrow> 'o \<Rightarrow> (gerror + RunnerScaleSet) \<times> 'o"
  MessageSessionClient :: "int \<Rightarrow> string \<Rightarrow> 'o \<Rightarrow> gerror option \<times> 'o"

record 'o outside =
  newGHClient :: "string \<Rightarrow> 'o \<Rightarrow> (gerror + 'o scaleset_client) \<times> 'o"
  ctx_sleep :: "duration \<Rightarrow> 'o \<Rightarrow> gerror option \<times> 'o"
  newListener :: "int \<Rightarrow> int \<Rightarrow> 'o \<Rightarrow> gerror option \<times> 'o"

subsection \<open>Capacity probes\<close>

definition discoverCapacity :: "'o env \<Rightarrow> duration \<Rightarrow> 'o \<Rightarrow> (int \<times> gerror option) \<times> 'o" where
  "discoverCapacity E stale st =
     (case ListWorkers E st of
        (Inl err, st1) \<Rightarrow> ((0, Some err), st1)
      | (Inr workers, st1) \<Rightarrow>
          (let stale = (if stale \<le> 0 then DefaultWorkerStaleAfter else stale) in
           case time_Now E st1 of
             (now, st2) \<Rightarrow> ((discoverTotal (LiveWorkers workers stale now), None), st2)))"

definition listLiveWorkers :: "'o env \<Rightarrow> duration \<Rightarrow> 'o \<Rightarrow> (gerror + Worker list) \<times> 'o" where
  "listLiveWorkers E stale st =
     (case ListWorkers E st of
        (Inl err, st1) \<Rightarrow> (Inl err, st1)
      | (Inr workers, st1) \<Rightarrow>
          (case time_Now E st1 of (now, st2) \<Rightarrow> (Inr (LiveWorkers workers stale now), st2)))"

definition workerCapacityFn :: "bool \<Rightarrow> u64 \<Rightarrow> u64 \<Rightarrow> Worker list \<Rightarrow> labels \<Rightarrow> int" where
  "workerCapacityFn autoSize reserveCPU reserveMemMiB =
     (if autoSize then
        (case AutoSizeReserves reserveCPU reserveMemMiB of
           (cpu, mem) \<Rightarrow> (\<lambda>workers ls. WorkerCountForLabels workers ls cpu mem))
      else CapacityForLabels)"

definition vmConsumesLabeledWorker :: "VM \<Rightarrow> Worker list \<Rightarrow> labels \<Rightarrow> bool" where
  "vmConsumesLabeledWorker vm workers vmLabels =
     (case (if vWorker vm \<noteq> [] then find (\<lambda>w. wName w = vWorker vm) workers else None) of
        Some w \<Rightarrow> workerMatchesAllLabels w vmLabels
      | None \<Rightarrow> list_ex (\<lambda>w. workerMatchesAllLabels w (vLabels vm) \<and> workerMatchesAllLabels w vmLabels) workers)"

subsection \<open>Construction\<close>

definition defaultNewGHClient :: "(string \<Rightarrow> gerror + string) \<Rightarrow> (string \<Rightarrow> string \<Rightarrow> gerror + 'c) \<Rightarrow>
    (string \<Rightarrow> string \<Rightarrow> int \<Rightarrow> string \<Rightarrow> gerror + 'c) \<Rightarrow> Config \<Rightarrow> string \<Rightarrow> gerror + 'c" where
  "defaultNewGHClient readFile withToken withApp cfg configURL =
     (let gh = cGitHub cfg in
      if ghToken gh \<noteq> [] then withToken configURL (ghToken gh)
      else case GitHubPrivateKeyPEM readFile cfg of
        Inl err \<Rightarrow> Inl (Wrap ''reading private key'' err)
      | Inr pem \<Rightarrow> withApp configURL (dec_int (ghAppID gh)) (ghInstallationID gh) pem)"

definition New :: "'o env \<Rightarrow> (nat \<Rightarrow> nat \<Rightarrow> nat \<Rightarrow> nat) \<Rightarrow> Config \<Rightarrow> registry option \<Rightarrow> 'o \<Rightarrow> 'o mgr" where
  "New E fns cfg reg st =
     (case (if MaxVMs cfg = 0 then
              (case discoverCapacity E (WorkerStaleAfterDuration fns cfg) st of
                 ((slots, err), st1) \<Rightarrow> (slots, st1))
            else (MaxVMs cfg, st)) of
        (maxVMs, st1) \<Rightarrow>
          (let stale = WorkerStaleAfterDuration fns cfg;
               stale = (if stale \<le> 0 then DefaultWorkerStaleAfter else stale) in
           case NewEligibilityMonitor reg of
             (mon, reg1) \<Rightarrow>
               \<lparr>sysExt = st1, sysCap = NewCapacity maxVMs,
                sysView = Some (NewStateView DefaultStateViewTTL stale),
                sysMetrics = reg1, sysCleanup = NewCleanup, mHandles = [], mMonitor = mon,
                mStaleAfter = stale\<rparr>))"

subsection \<open>Shares\<close>

definition othersActive :: "Snapshot \<Rightarrow> scaleSetHandle list \<Rightarrow> nat \<Rightarrow> labels \<Rightarrow> int" where
  "othersActive sn handles i ls =
     foldl (\<lambda>n (j, other).
        if j = i then n
        else foldl (\<lambda>n vm.
               if vStatus vm = VMStatusStopped \<or> vStatus vm = VMStatusFailed then n
               else if vmConsumesLabeledWorker vm (sWorkers sn) ls then n + 1 else n)
             n (ManagedVMsForScaleSet sn (scaleSetName (hBridge other))))
       0 (List.enumerate 0 handles)"

definition scale_set_share :: "Snapshot \<Rightarrow> scaleSetHandle list \<Rightarrow> nat \<Rightarrow> int" where
  "scale_set_share sn handles i =
     (let b = hBridge (handles ! i); ls = vcLabels (vmConfig b); au = vcAutoSize (vmConfig b);
          workerCap = workerCapacityFn (asEnabled au) (asReserveCPU au) (asReserveMemoryMiB au)
                        (sWorkers sn) ls;
          share = wrap64 (workerCap - othersActive sn handles i ls)
      in if share < 0 then 0 else share)"

definition push_shares :: "Snapshot \<Rightarrow> scaleSetHandle list \<Rightarrow> scaleSetHandle list" where
  "push_shares sn handles =
     map (\<lambda>(i, h). if 0 < hStaticMaxRunners h then h
                   else h\<lparr>hMaxRunners := scale_set_share sn handles i\<rparr>)
       (List.enumerate 0 handles)"

definition recomputeScaleSetShares :: "'o env \<Rightarrow> 'o mgr \<Rightarrow> 'o mgr" where
  "recomputeScaleSetShares E w =
     (case state_Get E w of
        ((None, err), w1) \<Rightarrow> w1
      | ((Some sn, err), w1) \<Rightarrow> w1\<lparr>mHandles := push_shares sn (mHandles w1)\<rparr>)"

subsection \<open>Wiring\<close>

fun observe_sets :: "ScaleSetConfig list \<Rightarrow> Worker list \<Rightarrow> 'o mgr \<Rightarrow> unit outcome \<times> 'o mgr" where
  "observe_sets [] workers w = (Return (), w)"
| "observe_sets (ss # sss) workers w =
     (if \<not> asEnabled (vcAutoSize (ssVM ss)) then observe_sets sss workers w
      else case AutoSizeReserves (asReserveCPU (vcAutoSize (ssVM ss))) (asReserveMemoryMiB (vcAutoSize (ssVM ss))) of
        (cpu, mem) \<Rightarrow>
          (case Observe (ssName ss) workers (vcLabels (ssVM ss)) cpu mem (mMonitor w) (sysMetrics w) of
             Panic \<Rightarrow> (Panic, w)
           | Return (logs, m, reg) \<Rightarrow>
               observe_sets sss workers (w\<lparr>mMonitor := m, sysMetrics := reg\<rparr>)))"

definition observeAutoSizeEligibility :: "Config \<Rightarrow> Worker list \<Rightarrow> 'o mgr \<Rightarrow> unit outcome \<times> 'o mgr" where
  "observeAutoSizeEligibility cfg workers w = observe_sets (ScaleSets cfg) workers w"

definition purge_everywhere :: "string \<Rightarrow> 'o mgr \<Rightarrow> 'o mgr" where
  "purge_everywhere vmName w =
     w\<lparr>mHandles := map (\<lambda>h. h\<lparr>hBridge := PurgeActiveVM vmName (hBridge h)\<rparr>) (mHandles w)\<rparr>"

definition mgr_hooks :: "'o env \<Rightarrow> 'o mgr hooks" where
  "mgr_hooks E =
     \<lparr>onVMChange = Some (recomputeScaleSetShares E),
      onDeleteFailed = Some (\<lambda>vmName w. w\<lparr>sysCleanup := MarkForDeletion vmName (sysCleanup w)\<rparr>)\<rparr>"

definition mgr_wiring :: "'o env \<Rightarrow> Config \<Rightarrow> 'o gh_client option \<Rightarrow> ('o, mgr_cb, 'o mgr) wiring" where
  "mgr_wiring E cfg gh =
     \<lparr>runnerRemover = map_option RemoveRunnerByName gh,
      onVMCleaned = Some (\<lambda>vmName w. (Return (), recomputeScaleSetShares E (purge_everywhere vmName w))),
      onSweep = Some (observeAutoSizeEligibility cfg),
      callback = (\<lambda>fn workers w. case fn of RecomputeShares \<Rightarrow> recomputeScaleSetShares E w)\<rparr>"

text \<open>\<open>Run\<close> up to the start of its goroutines: the cleanup loop's configuration and the callbacks.
  The first scale set's URL is read without a check.\<close>

definition configure_cleanup :: "(nat \<Rightarrow> nat \<Rightarrow> nat \<Rightarrow> nat) \<Rightarrow> Config \<Rightarrow> cleanup \<Rightarrow> cleanup" where
  "configure_cleanup fns cfg c =
     (let d = MaxVMAgeDuration fns cfg; c = (if 0 < d then SetMaxAge d c else c);
          p = MaxPendingAgeDuration fns cfg; c = (if 0 < p then SetMaxPendingAge p c else c)
      in SetWorkerPruneAfter (WorkerPruneAfterDuration fns cfg) c)"

definition Run_setup :: "'o env \<Rightarrow> 'o outside \<Rightarrow> (nat \<Rightarrow> nat \<Rightarrow> nat \<Rightarrow> nat) \<Rightarrow> Config \<Rightarrow> 'o mgr \<Rightarrow>
    'o gh_client option outcome \<times> 'o mgr" where
  "Run_setup E out fns cfg w =
     (let w = w\<lparr>sysCap := OnWorkersChanged RecomputeShares (sysCap w)\<rparr> in
      if ScaleSets cfg = [] then (Panic, w)
      else case newGHClient out (ssGitHubConfigURL (hd (ScaleSets cfg))) (sysExt w) of
        (gh, st) \<Rightarrow>
          (case SetMetrics (sysMetrics w) (configure_cleanup fns cfg NewCleanup) of
             (c, reg) \<Rightarrow>
               (Return (case gh of Inl err \<Rightarrow> None | Inr g \<Rightarrow> Some (runnerClient g)),
                w\<lparr>sysExt := st, sysCleanup := c, sysMetrics := reg\<rparr>)))"

subsection \<open>One scale set\<close>

definition registerScaleSet :: "'o scaleset_client \<Rightarrow> ScaleSetConfig \<Rightarrow> 'o \<Rightarrow>
    (gerror + RunnerScaleSet) \<times> 'o" where
  "registerScaleSet g ssCfg st =
     (case (if ssRunnerGroup ssCfg \<noteq> [] \<and> ssRunnerGroup ssCfg \<noteq> ''default''
            then GetRunnerGroupByName g (ssRunnerGroup ssCfg) st else (Inr 1, st)) of
        (Inl err, st1) \<Rightarrow> (Inl (Wrap ''getting runner group'' err), st1)
      | (Inr groupID, st1) \<Rightarrow>
          (let desired = \<lparr>rsID = 0, rsName = ssName ssCfg, rsRunnerGroupID = groupID,
                 rsLabels = ssLabels ssCfg, rsDisableUpdate = True\<rparr> in
           case GetRunnerScaleSet g groupID (ssName ssCfg) st1 of
             (Inr (Some existing), st2) \<Rightarrow>
               (case UpdateRunnerScaleSet g (rsID existing) desired st2 of
                  (Inl err, st3) \<Rightarrow> (Inl (Wrap (''updating scale set '' @ ssName ssCfg) err), st3)
                | (Inr updated, st3) \<Rightarrow> (Inr updated, st3))
           | (_, st2) \<Rightarrow>
               (case CreateRunnerScaleSet g desired st2 of
                  (Inl err, st3) \<Rightarrow> (Inl (Wrap ''creating scale set'' err), st3)
                | (Inr ss, st3) \<Rightarrow> (Inr ss, st3))))"

text \<open>The wait for the first matching worker has no bound: it ends with a positive capacity or with
  the context, or never.\<close>

partial_function (option) wait_for_workers :: "'o env \<Rightarrow> 'o outside \<Rightarrow> duration \<Rightarrow>
    (Worker list \<Rightarrow> int) \<Rightarrow> 'o \<Rightarrow> ((gerror + int) \<times> 'o) option" where
  "wait_for_workers E out stale capacityFn st =
     (case ctx_sleep out (10 * second) st of
        (Some err, st1) \<Rightarrow> Some (Inl err, st1)
      | (None, st1) \<Rightarrow>
          (case listLiveWorkers E stale st1 of
             (Inl err, st2) \<Rightarrow> wait_for_workers E out stale capacityFn st2
           | (Inr workers, st2) \<Rightarrow>
               if 0 < capacityFn workers then Some (Inr (capacityFn workers), st2)
               else wait_for_workers E out stale capacityFn st2))"

definition initial_maxRunners :: "'o env \<Rightarrow> 'o outside \<Rightarrow> duration \<Rightarrow> ScaleSetConfig \<Rightarrow> 'o \<Rightarrow>
    ((gerror + int) \<times> 'o) option" where
  "initial_maxRunners E out stale ssCfg st =
     (if 0 < ssMaxRunners ssCfg then Some (Inr (ssMaxRunners ssCfg), st)
      else let au = vcAutoSize (ssVM ssCfg);
               capacityFn = (\<lambda>ws. workerCapacityFn (asEnabled au) (asReserveCPU au) (asReserveMemoryMiB au)
                               ws (vcLabels (ssVM ssCfg)))
           in case listLiveWorkers E stale st of
                (r, st1) \<Rightarrow>
                  (let n = (case r of Inl err \<Rightarrow> 0 | Inr workers \<Rightarrow> capacityFn workers) in
                   if n = 0 then wait_for_workers E out stale capacityFn st1 else Some (Inr n, st1)))"

function session_loop :: "'o scaleset_client \<Rightarrow> 'o outside \<Rightarrow> string \<Rightarrow> int \<Rightarrow> nat \<Rightarrow> 'o \<Rightarrow>
    gerror option \<times> 'o" where
  "session_loop g out name sid attempt st =
     (case MessageSessionClient g sid ''orchard-gh-bridge'' st of
        (None, st1) \<Rightarrow> (None, st1)
      | (Some err, st1) \<Rightarrow>
          if 10 \<le> attempt then (Some (Wrap (''creating message session for '' @ name) err), st1)
          else case ctx_sleep out (int (attempt * 3) * second) st1 of
            (Some e, st2) \<Rightarrow> (Some e, st2)
          | (None, st2) \<Rightarrow> session_loop g out name sid (attempt + 1) st2)"
  by pat_completeness auto

termination session_loop
  by (relation "measure (\<lambda>(g, out, name, sid, attempt, st). 10 - attempt)") auto

declare session_loop.simps [simp del]

text \<open>From the handle on: append it, hydrate its bridge, reserve the adopted slots, recompute.\<close>

definition adopt_handle :: "'o env \<Rightarrow> bridge \<Rightarrow> int \<Rightarrow> int \<Rightarrow> 'o mgr \<Rightarrow> 'o mgr" where
  "adopt_handle E b maxRunners static w =
     (let i = length (mHandles w);
          w1 = w\<lparr>mHandles := mHandles w @
                 [\<lparr>hBridge = b, hMaxRunners = maxRunners, hStaticMaxRunners = static\<rparr>]\<rparr>
      in case HydrateFromOrchard E b w1 of
           ((adopted, herr), b', w2) \<Rightarrow>
             (let w3 = w2\<lparr>mHandles := (mHandles w2)[i := (mHandles w2 ! i)\<lparr>hBridge := b'\<rparr>]\<rparr>;
                  w4 = (if 0 < adopted then w3\<lparr>sysCap := AdoptExisting adopted (sysCap w3)\<rparr> else w3)
              in recomputeScaleSetShares E w4))"

text \<open>\<open>runScaleSet\<close> up to \<open>listener.Run\<close>; \<open>None\<close> is the endless wait.\<close>

definition runScaleSet :: "'o env \<Rightarrow> 'o outside \<Rightarrow> ScaleSetConfig \<Rightarrow> 'o mgr \<Rightarrow>
    (gerror option \<times> 'o mgr) option" where
  "runScaleSet E out ssCfg w =
     (case newGHClient out (ssGitHubConfigURL ssCfg) (sysExt w) of
        (Inl err, st1) \<Rightarrow> Some (Some (Wrap (''creating GitHub client for '' @ ssName ssCfg) err), w\<lparr>sysExt := st1\<rparr>)
      | (Inr g, st1) \<Rightarrow>
          (case registerScaleSet g ssCfg st1 of
             (Inl err, st2) \<Rightarrow> Some (Some (Wrap (''registering scale set '' @ ssName ssCfg) err), w\<lparr>sysExt := st2\<rparr>)
           | (Inr ss, st2) \<Rightarrow>
               (case initial_maxRunners E out (mStaleAfter w) ssCfg st2 of
                  None \<Rightarrow> None
                | Some (Inl err, st3) \<Rightarrow> Some (Some err, w\<lparr>sysExt := st3\<rparr>)
                | Some (Inr maxRunners, st3) \<Rightarrow>
                    (case session_loop g out (ssName ssCfg) (rsID ss) 1 st3 of
                       (Some err, st4) \<Rightarrow> Some (Some err, w\<lparr>sysExt := st4\<rparr>)
                     | (None, st4) \<Rightarrow>
                         (case newListener out (rsID ss) maxRunners st4 of
                            (Some err, st5) \<Rightarrow> Some (Some (Wrap (''creating listener for '' @ ssName ssCfg) err), w\<lparr>sysExt := st5\<rparr>)
                          | (None, st5) \<Rightarrow>
                              Some (None, adopt_handle E (NewBridge (ssName ssCfg) (rsID ss) (ssVM ssCfg))
                                maxRunners (ssMaxRunners ssCfg) (w\<lparr>sysExt := st5\<rparr>)))))))"

text \<open>What \<open>runScaleSet\<close> returns once \<open>listener.Run\<close> has, given the state of the context then.\<close>

definition listener_end :: "string \<Rightarrow> gerror option \<Rightarrow> gerror option \<Rightarrow> gerror option" where
  "listener_end name run_err ctx_err =
     (case run_err of
        None \<Rightarrow> None
      | Some err \<Rightarrow> (if ctx_err \<noteq> None then None else Some (Wrap (''listener for '' @ name) err)))"

subsection \<open>Events\<close>

text \<open>What the listener of handle \<open>i\<close> delivers, on the bridge the handle holds. While a handler runs,
  the callbacks read other handles' configuration only, never the bridge's own map.\<close>

definition put_bridge :: "nat \<Rightarrow> bridge \<Rightarrow> 'o mgr \<Rightarrow> 'o mgr" where
  "put_bridge i b w = w\<lparr>mHandles := (mHandles w)[i := (mHandles w ! i)\<lparr>hBridge := b\<rparr>]\<rparr>"

definition on_desired :: "'o env \<Rightarrow> 'o gh_client \<Rightarrow> nat \<Rightarrow> int \<Rightarrow> 'o mgr \<Rightarrow>
    (int \<times> gerror option) outcome \<times> 'o mgr" where
  "on_desired E gh i count w =
     (case HandleDesiredRunnerCount E gh (mgr_hooks E) count (hBridge (mHandles w ! i)) w of
        (r, b, w') \<Rightarrow> (r, put_bridge i b w'))"

definition on_completed :: "'o env \<Rightarrow> 'o gh_client \<Rightarrow> nat \<Rightarrow> string \<Rightarrow> int \<Rightarrow> 'o mgr \<Rightarrow>
    gerror option outcome \<times> 'o mgr" where
  "on_completed E gh i name rid w =
     (case HandleJobCompleted E gh (mgr_hooks E) name rid (hBridge (mHandles w ! i)) w of
        (r, b, w') \<Rightarrow> (r, put_bridge i b w'))"

definition on_started :: "nat \<Rightarrow> string \<Rightarrow> 'o mgr \<Rightarrow> gerror option \<times> 'o mgr" where
  "on_started i name w =
     (case HandleJobStarted name (hBridge (mHandles w ! i)) w of (r, b, w') \<Rightarrow> (r, put_bridge i b w'))"

definition on_tick :: "'o env \<Rightarrow> Config \<Rightarrow> 'o gh_client option \<Rightarrow> 'o mgr \<Rightarrow> unit outcome \<times> 'o mgr" where
  "on_tick E cfg gh w = sweep E (mgr_wiring E cfg gh) w"

end
