(* ===== verification/Manager_Spec.thy ===== *)
theory Manager_Spec
  imports Manager_Model
begin

text \<open>
  The interfaces of the bridge and the cleanup loop, interpreted on the callbacks the manager really
  installs, and what follows for the whole program: slot accounting of every event, shares,
  bounded session retries, the wait for workers, and the invariant of every reachable state.
\<close>

subsection \<open>What the callbacks change\<close>

lemma push_shares_length [simp]: "length (push_shares sn hs) = length hs"
  by (simp add: push_shares_def)

lemma push_shares_nth:
  "i < length hs \<Longrightarrow> push_shares sn hs ! i =
    (if 0 < hStaticMaxRunners (hs ! i) then hs ! i
     else (hs ! i)\<lparr>hMaxRunners := scale_set_share sn hs i\<rparr>)"
  by (simp add: push_shares_def nth_enumerate_eq)

lemma push_shares_bridges [simp]: "map hBridge (push_shares sn hs) = map hBridge hs"
  by (rule nth_equalityI) (simp_all add: push_shares_nth)

lemma recompute_frame:
  "sysCap (recomputeScaleSetShares E w) = sysCap w"
  "sysCleanup (recomputeScaleSetShares E w) = sysCleanup w"
  "sysMetrics (recomputeScaleSetShares E w) = sysMetrics w"
  "mMonitor (recomputeScaleSetShares E w) = mMonitor w"
  "mStaleAfter (recomputeScaleSetShares E w) = mStaleAfter w"
  "map hBridge (mHandles (recomputeScaleSetShares E w)) = map hBridge (mHandles w)"
proof -
  obtain osn err w1 where g: "state_Get E w = ((osn, err), w1)" by (metis surj_pair)
  obtain v st where w1: "w1 = w\<lparr>sysExt := st, sysView := v\<rparr>"
    using state_Get_msys [of E w] g by auto
  have r: "recomputeScaleSetShares E w = (case osn of None \<Rightarrow> w1
      | Some sn \<Rightarrow> w1\<lparr>mHandles := push_shares sn (mHandles w1)\<rparr>)"
    using g by (simp add: recomputeScaleSetShares_def split: option.split)
  show "sysCap (recomputeScaleSetShares E w) = sysCap w"
    "sysCleanup (recomputeScaleSetShares E w) = sysCleanup w"
    "sysMetrics (recomputeScaleSetShares E w) = sysMetrics w"
    "mMonitor (recomputeScaleSetShares E w) = mMonitor w"
    "mStaleAfter (recomputeScaleSetShares E w) = mStaleAfter w"
    "map hBridge (mHandles (recomputeScaleSetShares E w)) = map hBridge (mHandles w)"
    unfolding r w1 by (simp_all split: option.split)
qed

lemma observe_sets_frame:
  "observe_sets sss ws w = (r, w') \<Longrightarrow> sysCap w' = sysCap w \<and> sysCleanup w' = sysCleanup w \<and>
    sysView w' = sysView w \<and> mHandles w' = mHandles w"
  by (induction sss arbitrary: w)
    (auto split: if_splits prod.splits outcome.splits)

interpretation mgr: job_hooks "mgr_hooks E" for E :: "'o env"
  by unfold_locales (auto simp: mgr_hooks_def recompute_frame)

interpretation mgr_sweep: sweep_hooks "mgr_wiring E cfg gh"
  for E :: "'o env" and cfg :: Config and gh :: "'o gh_client option"
proof unfold_locales
  show "sysCap w' = sysCap w \<and> sysCleanup w' = sysCleanup w \<and> sysMetrics w' = sysMetrics w"
    if "onVMCleaned (mgr_wiring E cfg gh) = Some fn" "fn nm w = (r, w')" for fn nm w r w'
    using that by (auto simp: mgr_wiring_def recompute_frame purge_everywhere_def)
  show "sysCap (callback (mgr_wiring E cfg gh) cb ws w) = sysCap w \<and>
      sysCleanup (callback (mgr_wiring E cfg gh) cb ws w) = sysCleanup w \<and>
      sysMetrics (callback (mgr_wiring E cfg gh) cb ws w) = sysMetrics w" for cb ws w
    by (cases cb) (simp add: mgr_wiring_def recompute_frame)
  show "sysCap w' = sysCap w \<and> sysCleanup w' = sysCleanup w"
    if "onSweep (mgr_wiring E cfg gh) = Some gn" "gn ws w = (r, w')" for gn ws w r w'
    using that observe_sets_frame [of "ScaleSets cfg" ws w r w']
    by (auto simp: mgr_wiring_def observeAutoSizeEligibility_def)
qed

subsection \<open>Shares\<close>

definition consumes :: "Snapshot \<Rightarrow> labels \<Rightarrow> VM \<Rightarrow> bool" where
  "consumes sn ls vm \<longleftrightarrow> \<not> vm_terminal vm \<and> vmConsumesLabeledWorker vm (sWorkers sn) ls"

definition others_spec :: "Snapshot \<Rightarrow> scaleSetHandle list \<Rightarrow> nat \<Rightarrow> labels \<Rightarrow> nat" where
  "others_spec sn hs i ls =
     (\<Sum>j \<leftarrow> filter (\<lambda>j. j \<noteq> i) [0..<length hs].
        length (filter (consumes sn ls) (ManagedVMsForScaleSet sn (scaleSetName (hBridge (hs ! j))))))"

lemma consumed_fold:
  "foldl (\<lambda>n vm.
     if vStatus vm = VMStatusStopped \<or> vStatus vm = VMStatusFailed then n
     else if vmConsumesLabeledWorker vm (sWorkers sn) ls then n + 1 else n) (k :: int) vms =
   k + int (length (filter (consumes sn ls) vms))"
  by (induction vms arbitrary: k) (auto simp: consumes_def vm_terminal_def)

lemma enumerate_eq: "List.enumerate 0 hs = map (\<lambda>j. (j, hs ! j)) [0..<length hs]"
  by (rule nth_equalityI) (simp_all add: nth_enumerate_eq)

lemma othersActive_eq: "othersActive sn hs i ls = int (others_spec sn hs i ls)"
proof -
  have "foldl (\<lambda>n (j, other). if j = i then n
        else foldl (\<lambda>n vm.
               if vStatus vm = VMStatusStopped \<or> vStatus vm = VMStatusFailed then n
               else if vmConsumesLabeledWorker vm (sWorkers sn) ls then n + 1 else n)
             n (ManagedVMsForScaleSet sn (scaleSetName (hBridge other))))
       (k :: int) (map (\<lambda>j. (j, hs ! j)) js) =
     k + int (\<Sum>j \<leftarrow> filter (\<lambda>j. j \<noteq> i) js.
        length (filter (consumes sn ls) (ManagedVMsForScaleSet sn (scaleSetName (hBridge (hs ! j))))))" for k js
    by (induction js arbitrary: k) (simp_all add: consumed_fold)
  from this [of 0] show ?thesis
    unfolding othersActive_def others_spec_def enumerate_eq by simp
qed

lemma others_spec_le: "others_spec sn hs i ls \<le> length hs * length (sVMs sn)"
proof -
  have le: "length (filter (consumes sn ls) (ManagedVMsForScaleSet sn nm)) \<le> length (sVMs sn)" for nm
    unfolding ManagedVMsForScaleSet_def by (metis length_filter_le order_trans)
  have "(\<Sum>j \<leftarrow> js. length (filter (consumes sn ls) (ManagedVMsForScaleSet sn (scaleSetName (hBridge (hs ! j)))))) \<le>
      length js * length (sVMs sn)" for js
    by (induction js) (simp_all add: add_mono le)
  from this [of "filter (\<lambda>j. j \<noteq> i) [0..<length hs]"]
  have "others_spec sn hs i ls \<le> length (filter (\<lambda>j. j \<noteq> i) [0..<length hs]) * length (sVMs sn)"
    by (simp add: others_spec_def)
  also have "length (filter (\<lambda>j. j \<noteq> i) [0..<length hs]) \<le> length hs"
    by (metis length_filter_le length_upt minus_nat.diff_0)
  finally show ?thesis by (simp add: mult_right_mono)
qed

definition pool_capacity :: "Snapshot \<Rightarrow> bridge \<Rightarrow> int" where
  "pool_capacity sn b =
     workerCapacityFn (asEnabled (vcAutoSize (vmConfig b))) (asReserveCPU (vcAutoSize (vmConfig b)))
       (asReserveMemoryMiB (vcAutoSize (vmConfig b))) (sWorkers sn) (vcLabels (vmConfig b))"

lemma pool_capacity_bounds:
  assumes "fleet_slots (sWorkers sn) < 2 ^ 62" and "length (sWorkers sn) < 2 ^ 62"
  shows "0 \<le> pool_capacity sn b" and "pool_capacity sn b < 2 ^ 62"
proof -
  have s: "0 \<le> CapacityForLabels (sWorkers sn) ls \<and> CapacityForLabels (sWorkers sn) ls < 2 ^ 62" for ls
    using label_count.count_bounded [of "sWorkers sn" ls] assms(1) by simp
  have a: "0 \<le> WorkerCountForLabels (sWorkers sn) ls rc rm \<and> WorkerCountForLabels (sWorkers sn) ls rc rm < 2 ^ 62"
    for ls rc rm
  proof -
    have "length (autoSizeCandidates (sWorkers sn) ls rc rm) \<le> length (sWorkers sn)"
      by (simp add: autoSizeCandidates_def Let_def)
    then show ?thesis using assms(2) by (simp add: WorkerCountForLabels_def)
  qed
  show "0 \<le> pool_capacity sn b" "pool_capacity sn b < 2 ^ 62"
    unfolding pool_capacity_def workerCapacityFn_def using s a by (auto split: prod.split)
qed

lemma scale_set_share_exact:
  assumes "fleet_slots (sWorkers sn) < 2 ^ 62" and "length (sWorkers sn) < 2 ^ 62"
    and "length hs * length (sVMs sn) < 2 ^ 62"
  shows "scale_set_share sn hs i = max 0 (pool_capacity sn (hBridge (hs ! i)) -
    int (others_spec sn hs i (vcLabels (vmConfig (hBridge (hs ! i))))))"
proof -
  let ?o = "others_spec sn hs i (vcLabels (vmConfig (hBridge (hs ! i))))"
  have "int ?o \<le> int (length hs * length (sVMs sn))" using others_spec_le by (rule of_nat_mono)
  also have "\<dots> < 2 ^ 62" using assms(3) by (metis of_nat_less_iff of_nat_numeral of_nat_power)
  finally have "int ?o < 2 ^ 62" .
  then have "wrap64 (pool_capacity sn (hBridge (hs ! i)) - int ?o) = pool_capacity sn (hBridge (hs ! i)) - int ?o"
    using pool_capacity_bounds [OF assms(1,2)] by (intro wrap64_diff) simp_all
  then show ?thesis
    by (simp add: scale_set_share_def Let_def othersActive_eq pool_capacity_def)
qed

lemma scale_set_share_nonneg [simp]: "0 \<le> scale_set_share sn hs i"
  by (simp add: scale_set_share_def Let_def)

subsection \<open>Session retries and the wait for workers\<close>

lemma session_loop_counts:
  assumes step: "\<And>st r st'. MessageSessionClient g sid ''orchard-gh-bridge'' st = (r, st') \<Longrightarrow> cnt st' = Suc (cnt st)"
    and idle: "\<And>d st r st'. ctx_sleep out d st = (r, st') \<Longrightarrow> cnt st' = cnt st"
  shows "1 \<le> attempt \<Longrightarrow> attempt \<le> 10 \<Longrightarrow> session_loop g out name sid attempt st = (r, st') \<Longrightarrow>
    cnt st < cnt st' \<and> cnt st' + attempt \<le> cnt st + 11 \<and>
    (r \<noteq> None \<longrightarrow> (\<forall>d s. fst (ctx_sleep out d s) = None) \<longrightarrow> cnt st' + attempt = cnt st + 11)"
proof (induction "10 - attempt" arbitrary: attempt st)
  case 0
  obtain m st1 where m: "MessageSessionClient g sid ''orchard-gh-bridge'' st = (m, st1)" by (metis surj_pair)
  show ?case using 0 m step [OF m]
    by (subst (asm) session_loop.simps) (auto split: option.splits)
next
  case (Suc k)
  obtain m st1 where m: "MessageSessionClient g sid ''orchard-gh-bridge'' st = (m, st1)" by (metis surj_pair)
  obtain e st2 where e: "ctx_sleep out (int (attempt * 3) * second) st1 = (e, st2)" by (metis surj_pair)
  have c: "cnt st2 = Suc (cnt st)" using step [OF m] idle [OF e] by simp
  have lt: "attempt < 10" using Suc.hyps(2) by simp
  consider "m = None" | "m \<noteq> None" "e \<noteq> None" | "m \<noteq> None" "e = None" by blast
  then show ?case
  proof cases
    case 1
    then show ?thesis using Suc.prems m step [OF m]
      by (subst (asm) session_loop.simps) auto
  next
    case 2
    then have "cnt st' = Suc (cnt st)" "fst (ctx_sleep out (int (attempt * 3) * second) st1) \<noteq> None"
      using Suc.prems m e c lt by (subst (asm) session_loop.simps, auto)+
    then show ?thesis using lt by fastforce
  next
    case 3
    then have "session_loop g out name sid (attempt + 1) st2 = (r, st')"
      using Suc.prems m e lt by (subst (asm) session_loop.simps) auto
    moreover have "k = 10 - (attempt + 1)" using Suc.hyps(2) by simp
    ultimately show ?thesis using Suc.hyps(1) [of "attempt + 1" st2] c lt by auto
  qed
qed

definition wait_round :: "'o env \<Rightarrow> 'o outside \<Rightarrow> duration \<Rightarrow> 'o \<Rightarrow> (gerror + Worker list) \<times> 'o" where
  "wait_round E out stale st = listLiveWorkers E stale (snd (ctx_sleep out (10 * second) st))"

definition round_capacity :: "'o env \<Rightarrow> 'o outside \<Rightarrow> duration \<Rightarrow> (Worker list \<Rightarrow> int) \<Rightarrow> 'o \<Rightarrow> int" where
  "round_capacity E out stale cap st =
     (case fst (wait_round E out stale st) of Inl err \<Rightarrow> 0 | Inr ws \<Rightarrow> cap ws)"

lemma wait_step:
  assumes "fst (ctx_sleep out (10 * second) st) = None"
  shows "wait_for_workers E out stale cap st =
    (if 0 < round_capacity E out stale cap st
     then Some (Inr (round_capacity E out stale cap st), snd (wait_round E out stale st))
     else wait_for_workers E out stale cap (snd (wait_round E out stale st)))"
  using assms
  by (subst wait_for_workers.simps)
    (auto simp: round_capacity_def wait_round_def split: prod.splits sum.splits option.splits)

lemma wait_positive:
  assumes "wait_for_workers E out stale cap st = Some (Inr n, st')"
  shows "0 < n"
proof -
  have "\<forall>n s. y = (Inr n, s) \<longrightarrow> 0 < n" if "wait_for_workers E out stale cap st = Some y" for y
    using that
    by (rule wait_for_workers.raw_induct [rotated, where P = "\<lambda>E out stale cap st y. \<forall>n s. y = (Inr n, s) \<longrightarrow> 0 < n"])
      (auto split: prod.splits sum.splits option.splits if_splits)
  then show ?thesis using assms by blast
qed

lemma wait_finds:
  assumes "\<forall>s. fst (ctx_sleep out (10 * second) s) = None"
  shows "0 < round_capacity E out stale cap (((\<lambda>s. snd (wait_round E out stale s)) ^^ k) st) \<Longrightarrow>
    \<exists>n st'. wait_for_workers E out stale cap st = Some (Inr n, st')"
proof (induction k arbitrary: st)
  case 0
  then show ?case using wait_step [of out st E stale cap] assms by simp
next
  case (Suc k)
  have "0 < round_capacity E out stale cap (((\<lambda>s. snd (wait_round E out stale s)) ^^ k) (snd (wait_round E out stale st)))"
    using Suc.prems by (simp add: funpow_Suc_right del: funpow.simps)
  from Suc.IH [OF this] show ?case
    using wait_step [of out st E stale cap] assms by auto
qed

subsection \<open>A concrete manager\<close>

definition ex_mgr :: "int \<Rightarrow> VM list \<Rightarrow> Worker list \<Rightarrow> bridge list \<Rightarrow> ex_world mgr" where
  "ex_mgr m vms ws bs =
     \<lparr>sysExt = ex_state vms ws, sysCap = NewCapacity m, sysView = Some (NewStateView 0 0),
      sysMetrics = None, sysCleanup = ex_cleanup,
      mHandles = map (\<lambda>b. \<lparr>hBridge = b, hMaxRunners = 0, hStaticMaxRunners = 0\<rparr>) bs,
      mMonitor = \<lparr>mExcluded = None, mEligible = None, mLast = fmempty\<rparr>, mStaleAfter = 2 * minute\<rparr>"

lemma ex_mgr_sel [simp]:
  "sysExt (ex_mgr m vms ws bs) = ex_state vms ws" "sysCap (ex_mgr m vms ws bs) = NewCapacity m"
  "sysView (ex_mgr m vms ws bs) = Some (NewStateView 0 0)" "sysCleanup (ex_mgr m vms ws bs) = ex_cleanup"
  "mHandles (ex_mgr m vms ws bs) = map (\<lambda>b. \<lparr>hBridge = b, hMaxRunners = 0, hStaticMaxRunners = 0\<rparr>) bs"
  by (simp_all add: ex_mgr_def)

lemma ex_mgr_Get:
  "state_Get ex_env (ex_mgr m vms ws bs) =
    (let sn = newSnapshot vms ws 1000 (2 * minute) in
     ((Some sn, None), (ex_mgr m vms ws bs)\<lparr>sysView :=
       Some ((NewStateView 0 0)\<lparr>snap := Some sn, lastErr := None\<rparr>)\<rparr>))"
  by (simp add: state_Get_def Get_new_view Let_def)

lemma ex_mgr_list:
  "listVMsAndWorkers ex_env (ex_mgr m vms ws bs) =
    ((Some \<lparr>stVMs = vms, stLive = LiveWorkers ws (2 * minute) 1000, stAll = ws, stFetchedAt = 1000, stFresh = True\<rparr>, None),
     (ex_mgr m vms ws bs)\<lparr>sysView :=
       Some ((NewStateView 0 0)\<lparr>snap := Some (newSnapshot vms ws 1000 (2 * minute)), lastErr := None\<rparr>)\<rparr>)"
  by (simp add: listVMsAndWorkers_def ex_mgr_Get Let_def)

subsection \<open>Properties\<close>

text \<open>C7. One desired-count event accounts for every VM, on every path and error: it never panics, the
  count it returns lies between what was tracked and what was asked, the shared counter moved by
  exactly the difference, the counter stays within its limit whenever a VM was created, and the
  bridge tracks at most that many new VMs, all under names of its scale set.\<close>

theorem HandleDesired_accounts:
  assumes "cap_ok (sysCap w)" and "in_int64 count" and "0 \<le> count"
    and "in_int64 (ActiveVMCount b)" and "uint (placementCursor b) < 2 ^ 62"
  shows "\<exists>n err b' w'. HandleDesiredRunnerCount E gh (mgr_hooks E) count b w = (Return (n, err), b', w') \<and>
    ActiveVMCount b \<le> n \<and> n \<le> max (ActiveVMCount b) count \<and>
    current (sysCap w') = current (sysCap w) + (n - ActiveVMCount b) \<and>
    cmax (sysCap w') = cmax (sysCap w) \<and> cap_ok (sysCap w') \<and>
    (ActiveVMCount b < n \<longrightarrow> current (sysCap w') \<le> cmax (sysCap w')) \<and>
    tracks b b' (n - ActiveVMCount b)"
proof -
  have "desired_ok count b w (HandleDesiredRunnerCount E gh (mgr_hooks E) count b w)"
    using assms by (rule mgr.desired)
  then show ?thesis by (auto simp: desired_ok_def split: prod.splits outcome.splits)
qed

theorem HandleDesired_accounts_witness:
  "\<exists>n err b' w'. HandleDesiredRunnerCount ex_env ex_gh (mgr_hooks ex_env) 3 (ex_bridge True)
      (ex_mgr 2 [] ex_pool [ex_bridge True]) = (Return (n, err), b', w') \<and>
    0 \<le> n \<and> n \<le> 3 \<and> current (sysCap w') = n"
  using HandleDesired_accounts [of "ex_mgr 2 [] ex_pool [ex_bridge True]" 3 "ex_bridge True" ex_env ex_gh]
  by (auto simp: in_int64_def)

text \<open>C13. A completed job returns its slot exactly when Orchard accepted the delete; when the delete
  failed, the slot stays reserved and the VM is queued for the cleanup loop. Either way the bridge
  no longer tracks it, so a VM is never both forgotten and unqueued.\<close>

theorem HandleJobCompleted_accounts:
  assumes "cap_ok (sysCap w)" and "fmlookup (activeVMs b) name = Some vm" and "vm \<noteq> []"
    and "HandleJobCompleted E gh (mgr_hooks E) name rid b w = (Return r, b', w')"
  shows "cap_ok (sysCap w') \<and> cmax (sysCap w') = cmax (sysCap w) \<and>
    (if fst (DeleteVM E vm (sysExt w)) = Return None
     then current (sysCap w') = max 0 (current (sysCap w) - 1)
     else current (sysCap w') = current (sysCap w) \<and> vm |\<in>| pendingDeletes (sysCleanup w'))"
proof -
  have "vm |\<in>| pendingDeletes (sysCleanup w')" if "fst (DeleteVM E vm (sysExt w)) \<noteq> Return None"
    using assms(2-4) that
    by (auto simp: HandleJobCompleted_def Let_def mgr_hooks_def MarkForDeletion_def
        split: prod.splits outcome.splits option.splits)
  then show ?thesis using mgr.job_accounts [OF assms(1,4)] assms(2) by simp
qed

theorem HandleJobCompleted_accounts_witness:
  "\<exists>b' w'. HandleJobCompleted ex_env ex_gh (mgr_hooks ex_env) ''vm'' 1
      ((ex_bridge False)\<lparr>activeVMs := fmupd ''vm'' ''vm'' fmempty\<rparr>)
      ((ex_mgr 2 [] ex_pool [])\<lparr>sysExt := (ex_state [] ex_pool)\<lparr>exFail := True\<rparr>\<rparr>) = (Return None, b', w') \<and>
    ''vm'' |\<in>| pendingDeletes (sysCleanup w')"
proof -
  let ?b = "(ex_bridge False)\<lparr>activeVMs := fmupd ''vm'' ''vm'' fmempty\<rparr>"
  let ?w = "(ex_mgr 2 [] ex_pool [])\<lparr>sysExt := (ex_state [] ex_pool)\<lparr>exFail := True\<rparr>\<rparr>"
  obtain b' w' where h: "HandleJobCompleted ex_env ex_gh (mgr_hooks ex_env) ''vm'' 1 ?b ?w = (Return None, b', w')"
    by (simp add: HandleJobCompleted_def Let_def)
  show ?thesis using HandleJobCompleted_accounts [OF _ _ _ h] h by simp
qed

text \<open>C3. A sweep that could read its lists rebuilds the books: the limit becomes the slots of the live,
  unpaused workers, and the counter becomes the number of managed VMs that are pending or on a live
  worker, less the ones it just deleted; with no VM due it is exactly that number. A VM stranded on
  a vanished worker drops out of both sides.\<close>

theorem sweep_rebuilds_books:
  assumes "listVMsAndWorkers E w = ((Some st, None), w1)" and "fleet_slots (stLive st) < 2 ^ 63"
    and "sweep E (mgr_wiring E cfg gh) w = (r, w')"
  shows "cmax (sysCap w') = fleet_slots (filter (\<lambda>x. \<not> wSchedulingPaused x) (stLive st)) \<and>
    0 \<le> current (sysCap w') \<and> current (sysCap w') \<le> int (length (filter (in_use st) (stVMs st))) \<and>
    ((\<forall>vm\<in>set (stVMs st). IsManagedVM (vName vm) \<longrightarrow>
        \<not> fst (deletion_due (sysCleanup w) vm (fst (time_Now E (sysExt w1))))) \<longrightarrow>
     current (sysCap w') = int (length (filter (in_use st) (stVMs st))))"
proof -
  obtain t :: tally where t: "sysCap w' = (sysCap w)\<lparr>current := managedCount t, cmax := maxCapacityTotal (stLive st)\<rparr>"
    "managedCount t \<le> int (length (filter (in_use st) (stVMs st)))"
    "int (length (filter (in_use st) (stVMs st))) - deleted t \<le> managedCount t" "0 \<le> managedCount t"
    "(\<forall>vm\<in>set (stVMs st). IsManagedVM (vName vm) \<longrightarrow>
        \<not> fst (deletion_due (sysCleanup w) vm (fst (time_Now E (sysExt w1))))) \<longrightarrow> deleted t = 0"
    by (rule mgr_sweep.sweep_summary [OF assms(1,3)])
  have "fleet_slots (filter (\<lambda>x. \<not> wSchedulingPaused x) (stLive st)) < 2 ^ 63"
    using fleet_slots_filter_le [of "\<lambda>x. \<not> wSchedulingPaused x" "stLive st"] assms(2) by linarith
  then show ?thesis using t max_count.count_exact by auto
qed

theorem sweep_rebuilds_books_witness:
  "cmax (sysCap (snd (sweep ex_env (mgr_wiring ex_env (ex_config [] []) None) (ex_mgr 9 [] ex_pool [])))) = 2 \<and>
   current (sysCap (snd (sweep ex_env (mgr_wiring ex_env (ex_config [] []) None) (ex_mgr 9 [] ex_pool [])))) = 0"
proof -
  obtain r w' where s: "sweep ex_env (mgr_wiring ex_env (ex_config [] []) None) (ex_mgr 9 [] ex_pool []) = (r, w')"
    by (metis surj_pair)
  have "fleet_slots (filter (\<lambda>x. \<not> wSchedulingPaused x) ex_pool) = 2"
    using ex_pool_facts(3) by (simp add: ex_pool_def ex_worker_def)
  then show ?thesis
    using sweep_rebuilds_books [OF ex_mgr_list _ s] s by (simp add: ex_pool_facts)
qed

text \<open>C5. A failed delete is retried by every sweep whose listing shows the VM: whatever the VM's status, the
  sweep asks Orchard again when it comes to it, and the VM leaves the queue exactly when that delete, in
  the state of that moment, is accepted; so a transient failure keeps it queued for the next sweep. The
  queue only shrinks in a sweep, and only names the listing shows survive: a listing older than the VM drops it.\<close>

theorem sweep_retries_failed_deletes:
  assumes "listVMsAndWorkers E w = ((Some sw, None), w1)" and "sweep E (mgr_wiring E cfg gh) w = (r, w')"
    and "stVMs sw = xs @ vm # ys" and "IsManagedVM (vName vm)" and "vName vm \<notin> vName ` (set xs \<union> set ys)"
    and "vName vm |\<in>| pendingDeletes (sysCleanup w)"
  shows "(vName vm |\<in>| pendingDeletes (sysCleanup w') \<longleftrightarrow>
      fst (DeleteVM E (vName vm) (sysExt (turn E (mgr_wiring E cfg gh) sw xs w1))) \<noteq> Return None) \<and>
    (\<forall>n. n |\<in>| pendingDeletes (sysCleanup w') \<longrightarrow> n |\<in>| pendingDeletes (sysCleanup w) \<and>
      (\<exists>vm\<in>set (stVMs sw). vName vm = n \<and> IsManagedVM n))"
  using mgr_sweep.sweep_asks [OF assms] mgr_sweep.sweep_summary [OF assms(1,2)] by blast

text \<open>One queued VM that runs, listed from the view; the delete is refused or accepted.\<close>

definition ex_retry :: "bool \<Rightarrow> ex_world mgr" where
  "ex_retry down = (let vm = ex_vm ''gha-orchard-ci-1'' ''running'' ''a'' [] in
     (ex_mgr 9 [vm] ex_pool [])\<lparr>sysExt := (ex_state [vm] ex_pool)\<lparr>exFail := down\<rparr>,
       sysView := Some ((NewStateView (10 * minute) 0)\<lparr>snap := Some (newSnapshot [vm] ex_pool 1000 (2 * minute))\<rparr>),
       sysCleanup := MarkForDeletion (vName vm) ex_cleanup\<rparr>)"

lemma ex_retry_list:
  "listVMsAndWorkers ex_env (ex_retry down) =
    ((Some \<lparr>stVMs = [ex_vm ''gha-orchard-ci-1'' ''running'' ''a'' []], stLive = LiveWorkers ex_pool (2 * minute) 1000,
       stAll = ex_pool, stFetchedAt = 1000, stFresh = True\<rparr>, None), ex_retry down)"
  by (simp add: ex_retry_def Let_def listVMsAndWorkers_def state_Get_def Get_def fresh_snap_def newSnapshot_def
      NewStateView_def ex_mgr_def ex_state_def time_sub_def minute_def second_def)

theorem sweep_retries_failed_deletes_witness:
  "''gha-orchard-ci-1'' |\<in>| pendingDeletes (sysCleanup (snd (sweep ex_env (mgr_wiring ex_env (ex_config [] []) None) (ex_retry True)))) \<and>
   ''gha-orchard-ci-1'' |\<notin>| pendingDeletes (sysCleanup (snd (sweep ex_env (mgr_wiring ex_env (ex_config [] []) None) (ex_retry False))))"
proof -
  have n: "vName (ex_vm ''gha-orchard-ci-1'' ''running'' ''a'' []) = ''gha-orchard-ci-1''" by (simp add: ex_vm_def)
  have m: "IsManagedVM ''gha-orchard-ci-1''" by (simp add: IsManagedVM_def vmNamePrefix_def has_prefix_def)
  have q: "''gha-orchard-ci-1'' |\<in>| pendingDeletes (sysCleanup (ex_retry down))" for down
    by (simp add: ex_retry_def Let_def n MarkForDeletion_def)
  have t: "exFail (sysExt (turn ex_env (mgr_wiring ex_env (ex_config [] []) None) sw [] (ex_retry down))) = down" for sw down
    by (simp add: turn_def ex_retry_def Let_def ex_state_def)
  have "''gha-orchard-ci-1'' |\<in>| pendingDeletes (sysCleanup (snd (sweep ex_env (mgr_wiring ex_env (ex_config [] []) None) (ex_retry down)))) \<longleftrightarrow> down"
    for down
    using sweep_retries_failed_deletes [OF ex_retry_list prod.collapse [symmetric], of "[]" _ "[]" down "ex_config [] []" None] n m q t
    by simp
  then show ?thesis by blast
qed

text \<open>C4. Recomputing pushes to every scale set without a static limit exactly its pool capacity minus
  the active VMs of the other scale sets that sit on, or are bound for, workers of its pool, never
  below zero and without wrap-around; a static limit, the bridges and the slot counter are left
  alone.\<close>

theorem recompute_pushes_shares:
  assumes "state_Get E w = ((Some sn, err), w1)" and "i < length (mHandles w)"
    and "fleet_slots (sWorkers sn) < 2 ^ 62" and "length (sWorkers sn) < 2 ^ 62"
    and "length (mHandles w) * length (sVMs sn) < 2 ^ 62"
  shows "mHandles (recomputeScaleSetShares E w) ! i =
    (if 0 < hStaticMaxRunners (mHandles w ! i) then mHandles w ! i
     else (mHandles w ! i)\<lparr>hMaxRunners := max 0 (pool_capacity sn (hBridge (mHandles w ! i)) -
       int (others_spec sn (mHandles w) i (vcLabels (vmConfig (hBridge (mHandles w ! i))))))\<rparr>) \<and>
    sysCap (recomputeScaleSetShares E w) = sysCap w"
proof -
  have "mHandles w1 = mHandles w" using state_Get_msys [of E w] assms(1) by auto
  then show ?thesis
    using assms(1,2) scale_set_share_exact [OF assms(3,4,5), of i] recompute_frame(1) [of E w]
    by (simp add: recomputeScaleSetShares_def push_shares_nth)
qed

theorem recompute_pushes_shares_witness:
  "hMaxRunners (mHandles (recomputeScaleSetShares ex_env (ex_mgr 2 [] ex_pool [ex_bridge True])) ! 0) = 2"
proof -
  let ?w = "ex_mgr 2 [] ex_pool [ex_bridge True]"
  let ?sn = "newSnapshot [] ex_pool 1000 (2 * minute)"
  have "autoSizeCandidates ex_pool fmempty 4 4096 = ex_pool"
    by (simp add: ex_pool_def autosize_eval)
  then have cap: "pool_capacity ?sn (ex_bridge True) = 2"
    by (simp add: pool_capacity_def workerCapacityFn_def WorkerCountForLabels_def ex_pool_facts
        AutoSizeReserves_def DefaultAutoSizeReserveCPU_def DefaultAutoSizeReserveMemoryMiB_def)
      (simp add: ex_bridge_def NewBridge_def ex_vmconfig_def ex_pool_def)
  have "others_spec ?sn (mHandles ?w) 0 fmempty = 0" by (simp add: others_spec_def)
  then show ?thesis
    using recompute_pushes_shares [OF ex_mgr_Get [unfolded Let_def], of 0 2 "[]" ex_pool "[ex_bridge True]"] cap
    by (simp add: ex_pool_facts) (simp add: ex_pool_def)
qed

text \<open>Opening the message session is tried at most ten times: whatever counts the attempts grows by
  at least one and at most ten, and by exactly ten when it ends in an error although the context
  was never cancelled.\<close>

theorem session_attempts_bounded:
  assumes "\<And>st r st'. MessageSessionClient g sid ''orchard-gh-bridge'' st = (r, st') \<Longrightarrow> cnt st' = Suc (cnt st)"
    and "\<And>d st r st'. ctx_sleep out d st = (r, st') \<Longrightarrow> cnt st' = cnt st"
    and "session_loop g out name sid 1 st = (r, st')"
  shows "cnt st < cnt st' \<and> cnt st' \<le> cnt st + 10 \<and>
    (r \<noteq> None \<longrightarrow> (\<forall>d s. fst (ctx_sleep out d s) = None) \<longrightarrow> cnt st' = cnt st + 10)"
proof -
  have "cnt st < cnt st' \<and> cnt st' + 1 \<le> cnt st + 11 \<and>
      (r \<noteq> None \<longrightarrow> (\<forall>d s. fst (ctx_sleep out d s) = None) \<longrightarrow> cnt st' + 1 = cnt st + 11)"
    by (rule session_loop_counts [where cnt = cnt and attempt = 1, OF assms(1) assms(2) _ _ assms(3)]) simp_all
  then show ?thesis by simp
qed

definition ex_scaleset_client :: "nat scaleset_client" where
  "ex_scaleset_client =
     \<lparr>runnerClient = \<lparr>GenerateJitRunnerConfig = (\<lambda>name sid st. (Inr ''jit'', st)),
        RemoveRunner = (\<lambda>rid st. (Return None, st)), GetRunnerByName = (\<lambda>name st. (Return (Inr None), st))\<rparr>,
      GetRunnerGroupByName = (\<lambda>name st. (Inr 1, st)), GetRunnerScaleSet = (\<lambda>gid name st. (Inr None, st)),
      UpdateRunnerScaleSet = (\<lambda>sid ss st. (Inr ss, st)), CreateRunnerScaleSet = (\<lambda>ss st. (Inr ss, st)),
      MessageSessionClient = (\<lambda>sid owner st. (Some (APIError 409), Suc st))\<rparr>"

definition ex_outside :: "'a outside" where
  "ex_outside = \<lparr>newGHClient = (\<lambda>url st. (Inl (Opaque ''offline''), st)), ctx_sleep = (\<lambda>d st. (None, st)),
     newListener = (\<lambda>sid n st. (None, st))\<rparr>"

theorem session_attempts_bounded_witness:
  "snd (session_loop ex_scaleset_client ex_outside ''ci'' 7 1 0) \<le> 10"
proof -
  obtain r st' where s: "session_loop ex_scaleset_client ex_outside ''ci'' 7 1 0 = (r, st')" by (metis surj_pair)
  have "st' \<le> 0 + 10"
    using session_attempts_bounded [of ex_scaleset_client 7 "\<lambda>n. n" ex_outside, OF _ _ s]
    by (simp add: ex_scaleset_client_def ex_outside_def)
  then show ?thesis using s by simp
qed

text \<open>C33. The wait for the first worker ends as soon as it can: if the context is never cancelled and
  some later poll would report capacity, the wait returns; and whenever it returns without an
  error, the limit it hands to the session is positive, so GitHub never sees a capacity of zero
  from it.\<close>

theorem wait_for_workers_returns:
  assumes "\<forall>s. fst (ctx_sleep out (10 * second) s) = None"
    and "0 < round_capacity E out stale cap (((\<lambda>s. snd (wait_round E out stale s)) ^^ k) st)"
  shows "\<exists>n st'. wait_for_workers E out stale cap st = Some (Inr n, st') \<and> 0 < n"
proof -
  obtain n st' where "wait_for_workers E out stale cap st = Some (Inr n, st')"
    using wait_finds [OF assms] by blast
  moreover from this have "0 < n" by (rule wait_positive)
  ultimately show ?thesis by blast
qed

theorem wait_for_workers_returns_witness:
  "\<exists>n st'. wait_for_workers ex_env ex_outside (2 * minute) (\<lambda>ws. CapacityForLabels ws fmempty)
     (ex_state [] ex_pool) = Some (Inr n, st') \<and> 0 < n"
  by (rule wait_for_workers_returns [where k = 0])
    (simp_all add: ex_outside_def round_capacity_def wait_round_def listLiveWorkers_def ex_pool_facts)

text \<open>The limit a fresh manager starts with: the configured \<open>maxVMs\<close> if there is one; otherwise
  every advertised slot of a live worker, paused ones included, or zero when the list could not be
  read. So with nothing configured it exceeds the limit of the first sweep by exactly the slots of
  paused workers.\<close>

theorem startup_limit:
  assumes "ListWorkers E st = (Inr ws, st1)" and "time_Now E st1 = (now, st2)"
    and "fleet_slots ws < 2 ^ 63"
    and "stale = (if WorkerStaleAfterDuration fns cfg \<le> 0 then DefaultWorkerStaleAfter
      else WorkerStaleAfterDuration fns cfg)"
  shows "cmax (sysCap (New E fns cfg reg st)) =
      (if MaxVMs cfg \<noteq> 0 then MaxVMs cfg else fleet_slots (LiveWorkers ws stale now)) \<and>
    (MaxVMs cfg = 0 \<longrightarrow> cmax (sysCap (New E fns cfg reg st)) =
       maxCapacityTotal (LiveWorkers ws stale now) +
       fleet_slots (filter wSchedulingPaused (LiveWorkers ws stale now)))"
proof -
  let ?L = "LiveWorkers ws stale now"
  have le: "fleet_slots ?L < 2 ^ 63"
    using fleet_slots_filter_le [of "\<lambda>w. WorkerLive w stale now" ws] assms(3) by (simp add: LiveWorkers_def)
  have d: "discoverTotal ?L = fleet_slots ?L"
    using discover_count.count_exact [of ?L] le by simp
  have "fleet_slots (filter (\<lambda>w. \<not> wSchedulingPaused w) ?L) < 2 ^ 63"
    using fleet_slots_filter_le [of "\<lambda>w. \<not> wSchedulingPaused w" ?L] le by linarith
  then have m: "maxCapacityTotal ?L = fleet_slots (filter (\<lambda>w. \<not> wSchedulingPaused w) ?L)"
    by (rule max_count.count_exact)
  have split: "fleet_slots vs = fleet_slots (filter (\<lambda>w. \<not> wSchedulingPaused w) vs) +
      fleet_slots (filter wSchedulingPaused vs)" for vs
    by (induction vs) simp_all
  have cap: "cmax (sysCap (New E fns cfg reg st)) = (if MaxVMs cfg \<noteq> 0 then MaxVMs cfg else fleet_slots ?L)"
    using assms(1,2,4) d by (simp add: New_def discoverCapacity_def Let_def split: prod.split)
  then show ?thesis using m split [of ?L] by simp
qed

theorem startup_limit_witness:
  "cmax (sysCap (New ex_env (\<lambda>_ _ _. 0) (ex_config [] []) None (ex_state [] ex_pool))) = 2"
proof -
  have "fst (ListWorkers ex_env (ex_state [] ex_pool)) = Inr ex_pool" by simp
  have s: "WorkerStaleAfterDuration (\<lambda>_ _ _. 0) (ex_config [] []) = 0" "MaxVMs (ex_config [] []) = 0"
    by (simp_all add: WorkerStaleAfterDuration_def) (simp add: ex_config_def)
  show ?thesis
    using startup_limit [of ex_env "ex_state [] ex_pool" ex_pool _ 1000 _ "2 * minute" "\<lambda>_ _ _. 0" "ex_config [] []" None] s
    by (simp add: ex_pool_facts DefaultWorkerStaleAfter_def)
qed

text \<open>C34. A configured \<open>maxVMs\<close> caps the program only until the first sweep that can read its lists:
  the sweep replaces it with the fleet's slots, whatever was configured.\<close>

theorem sweep_overrides_maxVMs:
  assumes "MaxVMs cfg \<noteq> 0" and "w0 = New E fns cfg reg st"
    and "Run_setup E out fns cfg w0 = (Return gh, w)"
    and "listVMsAndWorkers E w = ((Some sw, None), w1)" and "fleet_slots (stLive sw) < 2 ^ 63"
    and "on_tick E cfg gh w = (r, w')"
  shows "cmax (sysCap w) = MaxVMs cfg \<and>
    cmax (sysCap w') = fleet_slots (filter (\<lambda>x. \<not> wSchedulingPaused x) (stLive sw))"
proof -
  obtain t :: tally where t: "sysCap w' = (sysCap w)\<lparr>current := managedCount t, cmax := maxCapacityTotal (stLive sw)\<rparr>"
    by (rule mgr_sweep.sweep_summary [OF assms(4) assms(6) [unfolded on_tick_def]])
  have "fleet_slots (filter (\<lambda>x. \<not> wSchedulingPaused x) (stLive sw)) < 2 ^ 63"
    using fleet_slots_filter_le [of "\<lambda>x. \<not> wSchedulingPaused x" "stLive sw"] assms(5) by linarith
  moreover have "cmax (sysCap w0) = MaxVMs cfg"
    using assms(1,2) by (simp add: New_def Let_def split: prod.split)
  then have "cmax (sysCap w) = MaxVMs cfg"
    using assms(3) by (auto simp: Run_setup_def Let_def OnWorkersChanged_def split: if_splits prod.splits)
  ultimately show ?thesis using t max_count.count_exact by simp
qed

lemma ex_started:
  assumes "cfg = (ex_config [] [])\<lparr>MaxVMs := 1\<rparr>"
    and "w0 = New ex_env (\<lambda>_ _ _. 0) cfg None (ex_state [] ex_pool)"
    and "Run_setup ex_env ex_outside (\<lambda>_ _ _. 0) cfg w0 = (r, w)"
  shows "r = Return None" "sysExt w = ex_state [] ex_pool"
    "sysView w = Some (NewStateView DefaultStateViewTTL (2 * minute))"
proof -
  have z: "WorkerStaleAfterDuration (\<lambda>_ _ _. 0) cfg = 0" "ScaleSets cfg \<noteq> []" "MaxVMs cfg = 1"
    using assms(1) by (simp_all add: WorkerStaleAfterDuration_def)
  have w0: "sysExt w0 = ex_state [] ex_pool" "sysView w0 = Some (NewStateView DefaultStateViewTTL (2 * minute))"
    using z assms(2) by (auto simp: New_def Let_def DefaultWorkerStaleAfter_def split: prod.split)
  show "r = Return None" "sysExt w = ex_state [] ex_pool"
    "sysView w = Some (NewStateView DefaultStateViewTTL (2 * minute))"
    using assms(3) z(2) w0 by (auto simp: Run_setup_def Let_def ex_outside_def split: prod.splits)
qed

theorem sweep_overrides_maxVMs_witness:
  "\<exists>w w'. cmax (sysCap w) = 1 \<and> snd (on_tick ex_env ((ex_config [] [])\<lparr>MaxVMs := 1\<rparr>) None w) = w' \<and>
     cmax (sysCap w') = 2"
proof -
  let ?cfg = "(ex_config [] [])\<lparr>MaxVMs := 1\<rparr>"
  let ?w0 = "New ex_env (\<lambda>_ _ _. 0) ?cfg None (ex_state [] ex_pool)"
  obtain r w where s: "Run_setup ex_env ex_outside (\<lambda>_ _ _. 0) ?cfg ?w0 = (r, w)" by (metis surj_pair)
  note st = ex_started [OF refl refl s]
  have d: "staleAfter (NewStateView DefaultStateViewTTL (2 * minute)) = 2 * minute"
    by (simp add: NewStateView_def minute_def second_def)
  obtain w1 where l: "listVMsAndWorkers ex_env w =
      ((Some \<lparr>stVMs = [], stLive = ex_pool, stAll = ex_pool, stFetchedAt = 1000, stFresh = True\<rparr>, None), w1)"
    using st(2,3) by (simp add: listVMsAndWorkers_def state_Get_def Get_new_view Let_def d ex_pool_facts)
  obtain r' w' where t: "on_tick ex_env ?cfg None w = (r', w')" by (metis surj_pair)
  have "fleet_slots (filter (\<lambda>x. \<not> wSchedulingPaused x) ex_pool) = 2"
    using ex_pool_facts(3) by (simp add: ex_pool_def ex_worker_def)
  moreover have "cmax (sysCap w) = 1 \<and>
      cmax (sysCap w') = fleet_slots (filter (\<lambda>x. \<not> wSchedulingPaused x) ex_pool)"
    using sweep_overrides_maxVMs [OF _ refl s [unfolded st(1)] l _ t] by (simp add: ex_pool_facts)
  ultimately show ?thesis using t by (intro exI [of _ w] exI [of _ w']) simp
qed

end
