(* ===== verification/Manager_Reach.thy ===== *)
theory Manager_Reach
  imports Manager_Spec
begin

text \<open>
  The running program: the scale sets' event handlers, the cleanup tick, the start of a scale set
  and anything that happens outside, in any order (\<open>mgr_step\<close>), from the state \<open>Run\<close> sets up.
  \<open>mgr_reach k w\<close> counts the steps because the placement cursor only ever grows.

  \<open>world_inv\<close> is a state predicate that survives every effect a handler has on the shared state;
  \<open>job_inv\<close> and \<open>sweep_inv\<close> add the callbacks and give that whole handlers and whole sweeps keep it.
  They are interpreted on \<open>fleet_ok\<close>, the invariant of the manager's handles and view. Handlers are
  atomic steps here; the finer interleaving of the slot counter and of the view are
  \<open>Capacity_Model\<close> and \<open>State_View_Conc\<close>.
\<close>

subsection \<open>Predicates that survive a handler\<close>

locale world_inv =
  fixes E :: "'o env" and I :: "('o, 'cb, 'z) sys_scheme \<Rightarrow> bool"
  assumes inv_ext: "I w \<Longrightarrow> I (w\<lparr>sysExt := st\<rparr>)"
    and inv_cap: "I w \<Longrightarrow> I (w\<lparr>sysCap := c\<rparr>)"
    and inv_get: "I w \<Longrightarrow> state_Get E w = (r, w') \<Longrightarrow> I w'"
    and inv_invalidate: "I w \<Longrightarrow> I (state_Invalidate w)"
begin

lemma create_inv: "createOneVM E gh cpu mem ls b w = (r, b', w') \<Longrightarrow> I w \<Longrightarrow> I w'"
  by (cases rule: createOneVM_cases) (auto intro: inv_ext)

lemma gate_inv: "static_gate E needed b w = (g, w') \<Longrightarrow> I w \<Longrightarrow> I w'"
  by (auto simp: static_gate_def Let_def split: if_splits prod.splits option.splits
      intro: inv_get)

lemma hydrate_inv: "HydrateFromOrchard E b w = (r, b', w') \<Longrightarrow> I w \<Longrightarrow> I w'"
  by (auto simp: HydrateFromOrchard_def split: if_splits prod.splits option.splits intro: inv_get)

end

locale job_inv = world_inv E I for E :: "'o env" and I :: "('o, 'cb, 'z) sys_scheme \<Rightarrow> bool" +
  fixes H :: "('o, 'cb, 'z) sys_scheme hooks"
  assumes inv_change: "I w \<Longrightarrow> onVMChange H = Some fn \<Longrightarrow> I (fn w)"
    and inv_failed: "I w \<Longrightarrow> onDeleteFailed H = Some gn \<Longrightarrow> I (gn vm w)"
begin

lemma notify_inv: "I w \<Longrightarrow> I (notifyChange H w)"
  by (simp add: notifyChange_def inv_change split: option.split)

lemma create_loop_inv:
  "create_loop E gh H n acquired created b w = (r, b', w') \<Longrightarrow> I w \<Longrightarrow> I w'"
proof (induction n arbitrary: created b w)
  case 0
  then show ?case by simp
next
  case (Suc n)
  obtain e b1 w1 where c: "createOneVM E gh (vcCPU (vmConfig b)) (vcMemory (vmConfig b))
      (vcLabels (vmConfig b)) b w = (e, b1, w1)" by (metis prod_cases3)
  then have "I w1" using create_inv Suc.prems(2) by blast
  then show ?case
    using Suc.prems c Suc.IH [of "created + 1" b1 w1] by (cases e) (auto intro: notify_inv inv_cap)
qed

lemma autosize_loop_inv:
  "autosize_loop E gh H cand rc rm start n i acquired created skipped b w = (r, b', w') \<Longrightarrow> I w \<Longrightarrow> I w'"
proof (induction n arbitrary: i created skipped b w)
  case 0
  then show ?case by simp
next
  case (Suc n)
  let ?k = "go_rem (wrap64 (start + i)) (int (length cand))"
  show ?case
  proof (cases "?k < 0 \<or> int (length cand) \<le> ?k")
    case True
    then show ?thesis using Suc.prems by (simp add: Let_def)
  next
    case k: False
    show ?thesis
    proof (cases "AutoSizedVM (cand ! nat ?k) rc rm")
      case (Inl err)
      then have "autosize_loop E gh H cand rc rm start n (i + 1) acquired created (skipped + 1) b
          (w\<lparr>sysCap := Release 1 (sysCap w)\<rparr>) = (r, b', w')"
        using Suc.prems k by (simp add: Let_def)
      then show ?thesis using Suc.IH Suc.prems(2) inv_cap by blast
    next
      case (Inr cm)
      obtain cpu mem where cm: "cm = (cpu, mem)" by (metis surj_pair)
      obtain e b1 w1 where c: "createOneVM E gh cpu mem
          (mergePinLabel (vcLabels (vmConfig b)) (PinIdentity (cand ! nat ?k))) b w = (e, b1, w1)"
        by (metis prod_cases3)
      then have "I w1" using create_inv Suc.prems(2) by blast
      then show ?thesis
        using Suc.prems(1) k Inr cm c Suc.IH [of "i + 1" "created + 1" skipped b1 w1]
        by (cases e) (auto simp: Let_def doCreateOneVM_def intro: notify_inv inv_cap)
    qed
  qed
qed

lemma autosize_inv:
  assumes "handleAutoSizeScaleUp E gh H needed ca b w = (r, b', w')" and "I w"
  shows "I w'"
proof -
  obtain osn err w1 where g: "state_Get E w = ((osn, err), w1)" by (metis surj_pair)
  have "I w1" using inv_get [OF assms(2) g] .
  then show ?thesis
    using assms g
    by (auto simp: handleAutoSizeScaleUp_def Let_def
        split: if_splits prod.splits option.splits outcome.splits
        dest!: autosize_loop_inv intro: notify_inv inv_invalidate inv_cap)
qed

lemma desired_inv:
  assumes "HandleDesiredRunnerCount E gh H count b w = (r, b', w')" and "I w"
  shows "I w'"
proof -
  obtain g w1 where g: "static_gate E (wrap64 (count - int (map_len (activeVMs b)))) b w = (g, w1)"
    by (metis surj_pair)
  have "I w1" using gate_inv [OF g assms(2)] .
  then show ?thesis
    using assms g
    by (auto simp: HandleDesiredRunnerCount_def Let_def
        split: if_splits prod.splits option.splits outcome.splits
        dest!: create_loop_inv intro: notify_inv inv_invalidate inv_cap autosize_inv)
qed

lemma completed_inv:
  assumes "HandleJobCompleted E gh H name rid b w = (r, b', w')" and "I w"
  shows "I w'"
proof -
  have ext: "I (w\<lparr>sysExt := st, sysCap := c\<rparr>)" for st c
    using inv_cap [OF inv_ext [OF assms(2)]] .
  show ?thesis
    using assms ext
    by (auto simp: HandleJobCompleted_def Let_def split: prod.splits option.splits outcome.splits
        intro: notify_inv inv_invalidate inv_ext inv_failed)
qed

end

locale sweep_inv = world_inv E I for E :: "'o env" and I :: "('o, 'cb, 'z) msys_scheme \<Rightarrow> bool" +
  fixes K :: "('o, 'cb, ('o, 'cb, 'z) msys_scheme) wiring"
  assumes inv_cleanup: "I w \<Longrightarrow> I (w\<lparr>sysCleanup := c\<rparr>)"
    and inv_pruned: "I w \<Longrightarrow> CounterVec_Inc (prunedTotal (sysCleanup w)) [] (sysMetrics w) = Return m \<Longrightarrow>
      I (w\<lparr>sysMetrics := m\<rparr>)"
    and inv_cleaned: "I w \<Longrightarrow> onVMCleaned K = Some fn \<Longrightarrow> fn vm w = (r, w') \<Longrightarrow> I w'"
    and inv_swept: "I w \<Longrightarrow> onSweep K = Some gn \<Longrightarrow> gn ws w = (r, w') \<Longrightarrow> I w'"
    and inv_callback: "I w \<Longrightarrow> I (callback K cb ws w)"
begin

lemma removeRunner_inv: "removeRunner K nm w = (r, w') \<Longrightarrow> I w \<Longrightarrow> I w'"
  by (auto simp: removeRunner_def split: option.splits prod.splits outcome.splits intro: inv_ext)

lemma processVM_inv:
  assumes "processVM E K vm now w = (d, w')" and "I w"
  shows "I w'"
proof -
  have "I (w\<lparr>sysExt := st, sysCleanup := c\<rparr>)" for st c
    using inv_cleanup [OF inv_ext [OF assms(2)]] .
  then show ?thesis
    using assms
    by (auto simp: processVM_def Let_def split: prod.splits if_splits outcome.splits option.splits
        dest!: removeRunner_inv intro: inv_ext inv_cleaned)
qed

lemma sweep_loop_inv: "sweep_loop E K live now vms t w = (t', w') \<Longrightarrow> I w \<Longrightarrow> I w'"
proof (induction vms arbitrary: t w)
  case Nil
  then show ?case by simp
next
  case (Cons vm vms)
  obtain d w1 where p: "processVM E K vm now w = (d, w1)" by (metis surj_pair)
  show ?case
  proof (cases "IsManagedVM (vName vm)")
    case False
    then show ?thesis using Cons by simp
  next
    case True
    then obtain t1 where "sweep_loop E K live now vms t1 w1 = (t', w')"
      using Cons.prems(1) p by (cases d) (auto simp: Let_def split: if_splits)
    then show ?thesis using Cons.IH processVM_inv [OF p Cons.prems(2)] by blast
  qed
qed

lemma callbacks_inv: "I w \<Longrightarrow> I (foldl (\<lambda>w fn. callback K fn ws w) w fns)"
  by (induction fns arbitrary: w) (simp_all add: inv_callback)

lemma prune_loop_inv:
  "prune_loop E counts live now xs n skipped w = (r, w') \<Longrightarrow> I w \<Longrightarrow> I w'"
proof (induction xs arbitrary: n skipped w)
  case Nil
  then show ?case by simp
next
  case (Cons x xs)
  have keep: "I (w\<lparr>sysExt := st\<rparr>)" "I (w\<lparr>sysCleanup := c\<rparr>)" for st c
    using inv_ext [OF Cons.prems(2)] inv_cleanup [OF Cons.prems(2)] .
  have inc: "I (w\<lparr>sysExt := st, sysMetrics := m\<rparr>)"
    if "CounterVec_Inc (prunedTotal (sysCleanup w)) [] (sysMetrics w) = Return m" for st m
    using inv_pruned [OF keep(1), of st m] that by simp
  show ?case
    using Cons.prems
    by (auto simp: Let_def keep inc split: if_splits prod.splits option.splits outcome.splits
        intro: Cons.IH)
qed

lemma sweep_prune_inv: "sweep_prune E st live w = (r, w') \<Longrightarrow> I w \<Longrightarrow> I w'"
  by (auto simp: sweep_prune_def pruneOfflineWorkers_def split: if_splits prod.splits outcome.splits
      dest!: prune_loop_inv intro: inv_invalidate inv_cleanup)

lemma reconcile_inv: "I w \<Longrightarrow> I (sweep_reconcile K st t w)"
  by (auto simp: sweep_reconcile_def Let_def pushMaxCapacity_def SetMax_def
      intro!: callbacks_inv inv_cap inv_invalidate inv_cleanup)

lemma list_inv: "listVMsAndWorkers E w = (r, w') \<Longrightarrow> I w \<Longrightarrow> I w'"
  by (auto simp: listVMsAndWorkers_def split: if_splits prod.splits option.splits sum.splits
      intro: inv_get inv_ext)

lemma sweep_keeps:
  assumes "sweep E K w = (r, w')" and "I w"
  shows "I w'"
proof -
  obtain osw err w1 where l: "listVMsAndWorkers E w = ((osw, err), w1)" by (metis surj_pair)
  have w1: "I w1" using list_inv [OF l assms(2)] .
  show ?thesis
  proof (cases "err = None \<and> osw \<noteq> None")
    case False
    then show ?thesis using assms(1) l w1 by (auto simp: sweep_def split: option.splits)
  next
    case True
    then obtain sw where sw: "osw = Some sw" "err = None" by blast
    obtain now st where n: "time_Now E (sysExt w1) = (now, st)" by (metis surj_pair)
    let ?live = "fset_of_list (map wName (stLive sw))"
    obtain t w2 where s: "sweep_loop E K ?live now (stVMs sw)
        \<lparr>managedCount = 0, deleted = 0, orphaned = 0, seen = {||}\<rparr> (w1\<lparr>sysExt := st\<rparr>) = (t, w2)"
      by (metis surj_pair)
    obtain q w3 where p: "sweep_prune E sw ?live (sweep_reconcile K sw t w2) = (q, w3)" by (metis surj_pair)
    have "I w2" using sweep_loop_inv [OF s] inv_ext [OF w1] by blast
    then have w3: "I w3" using sweep_prune_inv [OF p] reconcile_inv by blast
    have "sweep_finish E K sw ?live t w2 = (r, w')"
      using assms(1) l sw n s by (simp add: sweep_def Let_def)
    then show ?thesis
      using p w3 by (cases q) (auto simp: sweep_finish_def split: option.splits intro: inv_swept)
  qed
qed

end

subsection \<open>The steps of the program\<close>

text \<open>\<open>env_small\<close> bounds what Orchard can list, \<open>B\<close> VMs and \<open>B\<close> slots; \<open>count\<close> is what GitHub asks
  for, and \<open>m\<close> the limit a scale set starts listening with.\<close>

definition env_small :: "int \<Rightarrow> 'o env \<Rightarrow> bool" where
  "env_small B E \<longleftrightarrow>
     (\<forall>st vms st'. ListVMs E st = (Inr vms, st') \<longrightarrow> int (length vms) \<le> B) \<and>
     (\<forall>st ws st'. ListWorkers E st = (Inr ws, st') \<longrightarrow> fleet_slots ws \<le> B)"

inductive mgr_step :: "'o env \<Rightarrow> 'o gh_client \<Rightarrow> Config \<Rightarrow> 'o gh_client option \<Rightarrow> int \<Rightarrow> nat \<Rightarrow>
    'o mgr \<Rightarrow> 'o mgr \<Rightarrow> bool" for E gh cfg rem B N where
  step_desired: "i < length (mHandles w) \<Longrightarrow> 0 \<le> count \<Longrightarrow> count \<le> B \<Longrightarrow>
     on_desired E gh i count w = (r, w') \<Longrightarrow> mgr_step E gh cfg rem B N w w'"
| step_started: "i < length (mHandles w) \<Longrightarrow> on_started i name w = (r1, w') \<Longrightarrow>
     mgr_step E gh cfg rem B N w w'"
| step_completed: "i < length (mHandles w) \<Longrightarrow> on_completed E gh i name rid w = (r2, w') \<Longrightarrow>
     mgr_step E gh cfg rem B N w w'"
| step_tick: "on_tick E cfg rem w = (r3, w') \<Longrightarrow> mgr_step E gh cfg rem B N w w'"
| step_adopt: "length (mHandles w) < N \<Longrightarrow> 0 \<le> m \<Longrightarrow>
     mgr_step E gh cfg rem B N w (adopt_handle E (NewBridge name sid vmc) m static w)"
| step_world: "mgr_step E gh cfg rem B N w (w\<lparr>sysExt := st\<rparr>)"

inductive mgr_reach :: "'o env \<Rightarrow> 'o gh_client \<Rightarrow> Config \<Rightarrow> 'o gh_client option \<Rightarrow> int \<Rightarrow> nat \<Rightarrow>
    'o mgr \<Rightarrow> nat \<Rightarrow> 'o mgr \<Rightarrow> bool" for E gh cfg rem B N w0 where
  reach_start: "mgr_reach E gh cfg rem B N w0 0 w0"
| reach_step: "mgr_reach E gh cfg rem B N w0 k w \<Longrightarrow> mgr_step E gh cfg rem B N w w' \<Longrightarrow>
     mgr_reach E gh cfg rem B N w0 (Suc k) w'"

inductive_cases reach_zeroE: "mgr_reach E gh cfg rem B N w0 0 w"
inductive_cases reach_sucE: "mgr_reach E gh cfg rem B N w0 (Suc k) w"

subsection \<open>The invariant\<close>

definition view_small :: "int \<Rightarrow> StateView option \<Rightarrow> bool" where
  "view_small B ov \<longleftrightarrow> (case ov of None \<Rightarrow> True | Some v \<Rightarrow> view_ok v \<and>
     (case snap v of None \<Rightarrow> True
      | Some sn \<Rightarrow> int (length (sVMs sn)) \<le> B \<and> fleet_slots (sAllWorkers sn) \<le> B))"

definition bridge_ok :: "int \<Rightarrow> nat \<Rightarrow> bridge \<Rightarrow> bool" where
  "bridge_ok B k b \<longleftrightarrow> ActiveVMCount b \<le> B \<and> uint (placementCursor b) \<le> int k * B \<and>
     (\<forall>nm v. fmlookup (activeVMs b) nm = Some v \<longrightarrow> v = nm \<and> nm \<noteq> [])"

definition fleet_ok :: "int \<Rightarrow> nat \<Rightarrow> 'o mgr \<Rightarrow> bool" where
  "fleet_ok B k w \<longleftrightarrow> view_small B (sysView w) \<and>
     (\<forall>h\<in>set (mHandles w). 0 \<le> hMaxRunners h \<and> bridge_ok B k (hBridge h))"

text \<open>The counter: within its range, and above the limit only by what hydration adopted.\<close>

definition books_ok :: "int \<Rightarrow> 'o mgr \<Rightarrow> bool" where
  "books_ok B w \<longleftrightarrow> 0 \<le> current (sysCap w) \<and>
     current (sysCap w) \<le> B * (1 + int (length (mHandles w))) \<and> - B \<le> cmax (sysCap w) \<and> cmax (sysCap w) \<le> B"

lemma books_cap_ok:
  assumes "books_ok B w" and "B \<le> 2 ^ 31" and "length (mHandles w) \<le> 2 ^ 20" and "0 \<le> B"
  shows "cap_ok (sysCap w)"
proof -
  have "int (length (mHandles w)) \<le> 2 ^ 20" using assms(3) by (metis of_nat_le_iff of_nat_numeral of_nat_power)
  then have "B * (1 + int (length (mHandles w))) \<le> 2 ^ 31 * (1 + 2 ^ 20)"
    using assms(2,4) by (intro mult_mono) simp_all
  then show ?thesis using assms unfolding books_ok_def cap_ok_def by simp
qed

lemma env_small_lists:
  "env_small B E \<Longrightarrow> ListVMs E st = (Inr vms, st') \<Longrightarrow> int (length vms) \<le> B"
  "env_small B E \<Longrightarrow> ListWorkers E st = (Inr ws, st') \<Longrightarrow> fleet_slots ws \<le> B"
  unfolding env_small_def by blast+

lemma view_small_get:
  assumes env: "env_small B E" and v: "view_small B (sysView w)" and g: "state_Get E w = (r, w')"
  shows "view_small B (sysView w')"
    and "r = (Some sn, e) \<Longrightarrow> int (length (sVMs sn)) \<le> B \<and> fleet_slots (sAllWorkers sn) \<le> B \<and>
      (\<exists>d. snapshot_ok d sn)"
proof -
  have fresh: "int (length (sVMs sn)) \<le> B \<and> fleet_slots (sAllWorkers sn) \<le> B"
    if "refresh E s st = (Inr sn, st')" for s st sn st'
    using that by (auto simp: refresh_def split: prod.splits sum.splits dest: env_small_lists [OF env])
  have "view_small B (sysView w') \<and> (\<forall>sn e. r = (Some sn, e) \<longrightarrow> int (length (sVMs sn)) \<le> B \<and>
      fleet_slots (sAllWorkers sn) \<le> B \<and> (\<exists>d. snapshot_ok d sn))"
  proof (cases "sysView w")
    case None
    then show ?thesis using g by (auto simp: state_Get_def view_small_def)
  next
    case (Some s)
    obtain q s' st' where q: "Get E s (sysExt w) = (q, s', st')" by (rule prod_cases3)
    have w': "w' = w\<lparr>sysExt := st', sysView := Some s'\<rparr>" "r = q"
      using g Some q by (simp_all add: state_Get_def)
    have ok: "view_ok s" and small: "\<forall>sn. snap s = Some sn \<longrightarrow> int (length (sVMs sn)) \<le> B \<and> fleet_slots (sAllWorkers sn) \<le> B"
      using v Some by (auto simp: view_small_def split: option.splits)
    have "\<forall>sn. snap s' = Some sn \<longrightarrow> int (length (sVMs sn)) \<le> B \<and> fleet_slots (sAllWorkers sn) \<le> B"
      using q small fresh by (cases rule: Get_cases [of E s "sysExt w"]) auto
    moreover have "view_ok s'" using Get_inv [OF ok q] .
    moreover have "snap s' = fst q" using view.get_cached [of E s "sysExt w" "fst q" "snd q" s' st'] q by simp
    ultimately show ?thesis using w' by (auto simp: view_small_def view_ok_def split: option.split)
  qed
  then show "view_small B (sysView w')" "r = (Some sn, e) \<Longrightarrow> int (length (sVMs sn)) \<le> B \<and>
      fleet_slots (sAllWorkers sn) \<le> B \<and> (\<exists>d. snapshot_ok d sn)" by blast+
qed

lemma bridge_ok_mono: "bridge_ok B k b \<Longrightarrow> k \<le> l \<Longrightarrow> 0 \<le> B \<Longrightarrow> bridge_ok B l b"
  unfolding bridge_ok_def by (meson mult_right_mono of_nat_le_iff order_trans)

lemma fleet_ok_mono: "fleet_ok B k w \<Longrightarrow> k \<le> l \<Longrightarrow> 0 \<le> B \<Longrightarrow> fleet_ok B l w"
  by (auto simp: fleet_ok_def intro: bridge_ok_mono)

lemma bridge_ok_purge: "bridge_ok B k b \<Longrightarrow> bridge_ok B k (PurgeActiveVM vm b)"
  by (auto simp: bridge_ok_def PurgeActiveVM_def ActiveVMCount_def fmlookup_drop map_len_drop split: if_splits)

definition fleet_inv :: "'o env \<Rightarrow> int \<Rightarrow> nat \<Rightarrow> 'o mgr \<Rightarrow> bool" where
  "fleet_inv E B k w \<longleftrightarrow> env_small B E \<and> fleet_ok B k w"

lemma fleet_ok_handles:
  assumes "fleet_ok B k w" and "view_small B (sysView w')"
    and "\<And>h. h \<in> set (mHandles w') \<Longrightarrow> 0 \<le> hMaxRunners h \<and> (\<exists>b \<in> hBridge ` set (mHandles w). hBridge h = b)"
  shows "fleet_ok B k w'"
  using assms by (force simp: fleet_ok_def)

lemma fleet_inv_recompute:
  assumes "fleet_inv E B k w"
  shows "fleet_inv E B k (recomputeScaleSetShares E w)"
proof -
  obtain osn err w1 where g: "state_Get E w = ((osn, err), w1)" by (metis surj_pair)
  obtain v st where w1: "w1 = w\<lparr>sysExt := st, sysView := v\<rparr>" using state_Get_msys [of E w] g by auto
  have v: "view_small B (sysView w1)"
    using view_small_get(1) [OF _ _ g] assms by (simp add: fleet_inv_def fleet_ok_def)
  let ?w' = "recomputeScaleSetShares E w"
  have same: "map hBridge (mHandles ?w') = map hBridge (mHandles w)" by (rule recompute_frame(6))
  have "0 \<le> hMaxRunners h" if h: "h \<in> set (mHandles ?w')" for h
  proof (cases osn)
    case None
    then show ?thesis using h g w1 assms by (simp add: recomputeScaleSetShares_def fleet_inv_def fleet_ok_def)
  next
    case (Some sn)
    then have "mHandles ?w' = push_shares sn (mHandles w)"
      using g w1 by (simp add: recomputeScaleSetShares_def)
    then obtain i where i: "i < length (mHandles w)" "h = push_shares sn (mHandles w) ! i"
      using h by (metis in_set_conv_nth push_shares_length)
    moreover have "0 \<le> hMaxRunners (mHandles w ! i)"
      using assms i(1) by (simp add: fleet_inv_def fleet_ok_def)
    ultimately show ?thesis by (simp add: push_shares_nth)
  qed
  moreover have "hBridge h \<in> hBridge ` set (mHandles w)" if "h \<in> set (mHandles ?w')" for h
    using that same by (metis image_eqI image_set)
  moreover have "sysView ?w' = sysView w1"
    using g by (simp add: recomputeScaleSetShares_def split: option.split)
  ultimately show ?thesis
    using assms v fleet_ok_handles [of B k w ?w'] by (auto simp: fleet_inv_def)
qed

lemma fleet_inv_frame [simp]:
  "fleet_inv E B k (w\<lparr>sysExt := st\<rparr>) = fleet_inv E B k w"
  "fleet_inv E B k (w\<lparr>sysCap := c\<rparr>) = fleet_inv E B k w"
  "fleet_inv E B k (w\<lparr>sysCleanup := cl\<rparr>) = fleet_inv E B k w"
  "fleet_inv E B k (w\<lparr>sysMetrics := m\<rparr>) = fleet_inv E B k w"
  "fleet_inv E B k (w\<lparr>mMonitor := mo\<rparr>) = fleet_inv E B k w"
  by (simp_all add: fleet_inv_def fleet_ok_def)

lemma fleet_inv_get:
  assumes "fleet_inv E B k w" and "state_Get E w = (r, w')"
  shows "fleet_inv E B k w'"
proof -
  obtain v st where w': "w' = w\<lparr>sysExt := st, sysView := v\<rparr>" using state_Get_msys [of E w] assms(2) by auto
  then show ?thesis
    using view_small_get(1) [OF _ _ assms(2)] assms(1) by (simp add: fleet_inv_def fleet_ok_def)
qed

lemma fleet_inv_invalidate: "fleet_inv E B k w \<Longrightarrow> fleet_inv E B k (state_Invalidate w)"
  by (auto simp: fleet_inv_def fleet_ok_def state_Invalidate_def view_small_def Invalidate_def view_ok_def
      split: option.splits)

lemma fleet_inv_purge:
  "fleet_inv E B k w \<Longrightarrow> fleet_inv E B k (purge_everywhere vm w)"
  by (auto simp: fleet_inv_def fleet_ok_def purge_everywhere_def bridge_ok_purge)

interpretation fleet_job: job_inv E "fleet_inv E B k" "mgr_hooks E" for E :: "'o env" and B k
  by unfold_locales
    (auto simp: mgr_hooks_def fleet_inv_recompute fleet_inv_invalidate intro: fleet_inv_get)

lemma fleet_inv_observe:
  "observe_sets sss ws w = (r, w') \<Longrightarrow> fleet_inv E B k w \<Longrightarrow> fleet_inv E B k w'"
  by (induction sss arbitrary: w) (auto split: if_splits prod.splits outcome.splits)

interpretation fleet_sweep: sweep_inv E "fleet_inv E B k" "mgr_wiring E cfg gh"
  for E :: "'o env" and B k and cfg :: Config and gh :: "'o gh_client option"
proof unfold_locales
  show "fleet_inv E B k (callback (mgr_wiring E cfg gh) cb ws w)" if "fleet_inv E B k w" for w cb ws
    using that by (cases cb) (simp add: mgr_wiring_def fleet_inv_recompute)
  show "fleet_inv E B k w'" if "fleet_inv E B k w" "onSweep (mgr_wiring E cfg gh) = Some gn" "gn ws w = (r, w')"
    for w gn ws r w'
    using that fleet_inv_observe by (auto simp: mgr_wiring_def observeAutoSizeEligibility_def)
qed (auto simp: mgr_wiring_def fleet_inv_recompute fleet_inv_purge)

subsection \<open>One step of each kind\<close>

lemma VMName_nonempty [simp]: "VMName ss u \<noteq> []"
proof -
  have "trim_right CHR ''-'' (take 63 (VMNamePrefixForScaleSet ss @ take 8 u)) \<noteq> []"
  proof -
    obtain ys where eq: "take 63 (VMNamePrefixForScaleSet ss @ take 8 u) = ''gha-orchar'' @ (''d'' @ ys)"
      by (simp add: prefix_eq vmNamePrefix_def)
    have t: "trim_right CHR ''-'' (''gha-orchar'' @ (''d'' @ ys)) = ''gha-orchar'' @ trim_right CHR ''-'' (''d'' @ ys)"
      by (rule trim_right_append [where x = "CHR ''d''"]) simp_all
    show ?thesis unfolding eq t by simp
  qed
  then show ?thesis by (auto simp: VMName_def Let_def prefix_eq)
qed

lemma create_loop_cursor:
  "create_loop E gh H n acquired created b w = (r, b', w') \<Longrightarrow> placementCursor b' = placementCursor b"
proof (induction n arbitrary: created b w)
  case 0
  then show ?case by simp
next
  case (Suc n)
  obtain e b1 w1 where c: "createOneVM E gh (vcCPU (vmConfig b)) (vcMemory (vmConfig b))
      (vcLabels (vmConfig b)) b w = (e, b1, w1)" by (metis prod_cases3)
  show ?case
    using Suc.prems c createOneVM_frame(5) [OF c] Suc.IH [of "created + 1" b1 w1] by (cases e) auto
qed

lemma place_all_cursor:
  "place_all E gh H rc rm acquired wks created b w = (r, b', w') \<Longrightarrow> placementCursor b' = placementCursor b"
proof (induction wks arbitrary: created b w)
  case Nil
  then show ?case by simp
next
  case (Cons wk wks)
  obtain e b1 w1 where c: "createOneVM E gh (the (fmlookup (wResources wk) resourceLogicalCores) - rc)
             (the (fmlookup (wResources wk) resourceMemoryMiB) - rm)
             (mergePinLabel (vcLabels (vmConfig b)) (PinIdentity wk)) b w = (e, b1, w1)"
    by (metis prod_cases3)
  show ?case
    using Cons.prems c createOneVM_frame(5) [OF c] Cons.IH [of "created + 1" b1 w1] by (cases e) auto
qed

lemma batch_result_bridge: "fst (snd (batch_result H ca (r, b', w'))) = b'"
  by (cases r; cases "snd r") (auto simp: batch_result_def)

lemma desired_cursor:
  assumes "cap_ok (sysCap w)" and "0 \<le> count" and "in_int64 count" and "in_int64 (ActiveVMCount b)"
    and "uint (placementCursor b) < 2 ^ 62" and "count < 2 ^ 62"
    and h: "HandleDesiredRunnerCount E gh H count b w = (r, b', w')"
  shows "uint (placementCursor b') \<le> uint (placementCursor b) + count"
proof -
  have nn: "0 \<le> ActiveVMCount b" by (simp add: ActiveVMCount_def)
  define needed where "needed = count - ActiveVMCount b"
  have needed: "wrap64 needed = needed"
    using assms(2-4) nn unfolding in_int64_def needed_def by (intro wrap64_id) linarith+
  note unfold = HandleDesiredRunnerCount_def Let_def ActiveVMCount_def [symmetric] needed needed_def [symmetric]
  consider "needed \<le> 0" | "0 < needed" "\<not> asEnabled (vcAutoSize (vmConfig b))"
    | "0 < needed" "asEnabled (vcAutoSize (vmConfig b))" by linarith
  then show ?thesis
  proof cases
    case 1
    then show ?thesis using h [unfolded unfold] assms(2) by simp
  next
    case 2
    then show ?thesis using h [unfolded unfold] assms(2)
      by (auto split: prod.splits option.splits if_splits dest!: create_loop_cursor)
  next
    case 3
    then have a: "handleAutoSizeScaleUp E gh H needed (ActiveVMCount b) b w = (r, b', w')"
      using h [unfolded unfold] by simp
    show ?thesis
      using assms(1) 3(1) assms(5)
    proof (cases rule: handleAutoSize_cases [where ca = "ActiveVMCount b" and E = E and gh = gh and H = H])
      case (idle w1)
      then show ?thesis using a assms(2) by simp
    next
      case (batch sn err w1 rc rm cand m c)
      let ?b2 = "b\<lparr>placementCursor := placementCursor b + word_of_int m\<rparr>"
      obtain q b3 w3 where p: "place_all E gh H rc rm m
          (autosize_plan cand (uint (placementCursor b)) (nat m)) 0 ?b2 (w1\<lparr>sysCap := c\<rparr>) = (q, b3, w3)"
        by (rule prod_cases3)
      have "b' = b3" using a batch(13) p batch_result_bridge [of H "ActiveVMCount b" q b3 w3] by simp
      then have "placementCursor b' = placementCursor b + word_of_int m" using place_all_cursor [OF p] by simp
      moreover have "uint (placementCursor b + word_of_int m) \<le> uint (placementCursor b) + m"
      proof -
        have "uint (word_of_int m :: u64) = m"
          using batch(6,7) assms(6) nn by (simp add: needed_def uint_word_of_int take_bit_int_eq_self)
        then show ?thesis by (metis uint_add_le)
      qed
      moreover have "m \<le> count" using batch(7) nn by (simp add: needed_def)
      ultimately show ?thesis by simp
    qed
  qed
qed

text \<open>No handler adds or drops a scale set: the same two locales, on the number of handles.\<close>

lemma recompute_length [simp]: "length (mHandles (recomputeScaleSetShares E w)) = length (mHandles w)"
  using recompute_frame(6) [of E w] by (metis length_map)

lemma state_Get_handles [simp]: "state_Get E w = (r, w') \<Longrightarrow> mHandles w' = mHandles w" for w :: "'o mgr"
  using state_Get_msys [of E w] by auto

interpretation len_job: job_inv E "\<lambda>w. length (mHandles w) = n" "mgr_hooks E" for E :: "'o env" and n
  by unfold_locales (auto simp: mgr_hooks_def state_Invalidate_def)

interpretation len_sweep: sweep_inv E "\<lambda>w. length (mHandles w) = n" "mgr_wiring E cfg gh"
  for E :: "'o env" and n and cfg :: Config and gh :: "'o gh_client option"
proof unfold_locales
  show "length (mHandles (callback (mgr_wiring E cfg gh) cb ws w)) = n" if "length (mHandles w) = n" for w cb ws
    using that by (cases cb) (simp add: mgr_wiring_def)
  show "length (mHandles w') = n"
    if "length (mHandles w) = n" "onSweep (mgr_wiring E cfg gh) = Some gn" "gn ws w = (r, w')" for w gn ws r w'
    using that observe_sets_frame [of "ScaleSets cfg" ws w r w']
    by (auto simp: mgr_wiring_def observeAutoSizeEligibility_def)
qed (auto simp: mgr_wiring_def purge_everywhere_def)

lemma fleet_inv_put:
  assumes "fleet_inv E B k w" and "bridge_ok B k b" and "i < length (mHandles w)"
  shows "fleet_inv E B k (put_bridge i b w)"
proof -
  have "set (mHandles (put_bridge i b w)) \<subseteq> insert ((mHandles w ! i)\<lparr>hBridge := b\<rparr>) (set (mHandles w))"
    by (simp add: put_bridge_def set_update_subset_insert)
  moreover have "0 \<le> hMaxRunners (mHandles w ! i)"
    using assms(1,3) by (simp add: fleet_inv_def fleet_ok_def)
  moreover have "sysView (put_bridge i b w) = sysView w" by (simp add: put_bridge_def)
  ultimately show ?thesis using assms(1,2) by (auto simp: fleet_inv_def fleet_ok_def)
qed

lemma put_bridge_sel [simp]:
  "sysCap (put_bridge i b w) = sysCap w" "sysExt (put_bridge i b w) = sysExt w"
  "sysCleanup (put_bridge i b w) = sysCleanup w"
  "length (mHandles (put_bridge i b w)) = length (mHandles w)"
  by (simp_all add: put_bridge_def)

lemma bridge_bounds:
  assumes "bridge_ok B k b" and "B \<le> 2 ^ 31" and "k \<le> 2 ^ 30" and "0 \<le> B"
  shows "in_int64 (ActiveVMCount b)" and "uint (placementCursor b) < 2 ^ 62"
proof -
  have "0 \<le> ActiveVMCount b" by (simp add: ActiveVMCount_def)
  then show "in_int64 (ActiveVMCount b)" using assms by (simp add: bridge_ok_def in_int64_def)
  have "int k \<le> 2 ^ 30" using assms(3) by (metis of_nat_le_iff of_nat_numeral of_nat_power)
  then have "int k * B \<le> 2 ^ 30 * 2 ^ 31" using assms(2,4) by (intro mult_mono) simp_all
  then show "uint (placementCursor b) < 2 ^ 62" using assms(1) by (simp add: bridge_ok_def)
qed

text \<open>A desired-count event on a bridge in range: it returns, and bridge and counter stay in range.\<close>

lemma desired_step:
  assumes b: "bridge_ok B k b" and B: "0 \<le> B" "B \<le> 2 ^ 31" and k: "k \<le> 2 ^ 30" and c: "0 \<le> count" "count \<le> B"
    and cap: "cap_ok (sysCap w)" and h: "HandleDesiredRunnerCount E gh (mgr_hooks E) count b w = (r, b', w')"
  obtains n err where "r = Return (n, err)" and "bridge_ok B (Suc k) b'"
    and "ActiveVMCount b \<le> n" and "n \<le> max (ActiveVMCount b) count"
    and "current (sysCap w') = current (sysCap w) + (n - ActiveVMCount b)"
    and "ActiveVMCount b < n \<longrightarrow> current (sysCap w') \<le> cmax (sysCap w)"
    and "cmax (sysCap w') = cmax (sysCap w)"
proof -
  note bb = bridge_bounds [OF b B(2) k B(1)]
  have c64: "in_int64 count" using c B by (simp add: in_int64_def)
  have d: "desired_ok count b w (HandleDesiredRunnerCount E gh (mgr_hooks E) count b w)"
    using cap c64 c(1) bb by (rule mgr.desired)
  obtain n err where n: "r = Return (n, err)" "ActiveVMCount b \<le> n" "n \<le> max (ActiveVMCount b) count"
      "current (sysCap w') = current (sysCap w) + (n - ActiveVMCount b)" "cmax (sysCap w') = cmax (sysCap w)"
      "ActiveVMCount b < n \<longrightarrow> current (sysCap w') \<le> cmax (sysCap w')" "tracks b b' (n - ActiveVMCount b)"
    using d unfolding h by (auto simp: desired_ok_def split: outcome.splits)
  have "uint (placementCursor b') \<le> uint (placementCursor b) + count"
    using desired_cursor [OF cap c(1) c64 bb _ h] c(2) B(2) by simp
  moreover have "v = nm \<and> nm \<noteq> []" if "fmlookup (activeVMs b') nm = Some v" for nm v
    using that n(7) b VMName_nonempty unfolding tracks_def bridge_ok_def by metis
  moreover have "ActiveVMCount b' \<le> B"
    using b n(3,7) c(2) unfolding bridge_ok_def tracks_def by linarith
  ultimately have "bridge_ok B (Suc k) b'"
    using b c(2) by (simp add: bridge_ok_def algebra_simps)
  then show thesis using that n by simp
qed

lemma completed_step:
  assumes h: "HandleJobCompleted E gh (mgr_hooks E) name rid b w = (r, b', w')" and cap: "cap_ok (sysCap w)"
  shows "0 \<le> current (sysCap w') \<and> current (sysCap w') \<le> current (sysCap w) \<and> cmax (sysCap w') = cmax (sysCap w) \<and>
    (bridge_ok B k b \<longrightarrow> bridge_ok B k b')"
proof (intro conjI impI)
  have nn: "0 \<le> current (sysCap w)" using cap by (simp add: cap_ok_def)
  have "0 \<le> current (sysCap w') \<and> current (sysCap w') \<le> current (sysCap w) \<and> cmax (sysCap w') = cmax (sysCap w)"
  proof (cases r)
    case (Return e)
    then show ?thesis using mgr.job_accounts [OF cap h [unfolded Return]] nn by (auto split: option.splits if_splits)
  next
    case Panic
    then show ?thesis using h nn
      by (auto simp: HandleJobCompleted_def Let_def split: option.splits prod.splits outcome.splits)
  qed
  then show "0 \<le> current (sysCap w')" "current (sysCap w') \<le> current (sysCap w)" "cmax (sysCap w') = cmax (sysCap w)"
    by simp_all
  assume "bridge_ok B k b"
  moreover have "b' = b \<or> b' = PurgeActiveVM name b"
    using h by (auto simp: HandleJobCompleted_def PurgeActiveVM_def Let_def
        split: option.splits prod.splits outcome.splits)
  ultimately show "bridge_ok B k b'" using bridge_ok_purge by blast
qed

lemma hydrate_step:
  assumes h: "HydrateFromOrchard E b w = ((adopted, e), b', w')" and w: "fleet_inv E B k w"
    and b: "bridge_ok B k b" "activeVMs b = fmempty" and B: "0 \<le> B"
  shows "0 \<le> adopted" and "adopted \<le> B" and "bridge_ok B k b'" and "sysCap w' = sysCap w"
    and "mHandles w' = mHandles w"
proof -
  have fold: "fmdom (foldl (\<lambda>act vm. fmupd (vName vm) (vName vm) act) fmempty vms) = fset_of_list (map vName vms)"
    for vms by (induction vms rule: rev_induct) simp_all
  have all: "0 \<le> adopted \<and> adopted \<le> B \<and> bridge_ok B k b' \<and> sysCap w' = sysCap w \<and> mHandles w' = mHandles w"
  proof (cases "sysView w = None")
    case True
    then show ?thesis using h b B by (auto simp: HydrateFromOrchard_def)
  next
    case False
    obtain osn err w1 where g: "state_Get E w = ((osn, err), w1)" by (metis surj_pair)
    note fr = state_Get_frame(1) [OF g] state_Get_handles [OF g]
    show ?thesis
    proof (cases osn)
      case None
      then show ?thesis using h b B False g fr by (simp add: HydrateFromOrchard_def del: not_None_eq)
    next
      case (Some sn)
      let ?vms = "ManagedVMsForScaleSet sn (scaleSetName b)"
      let ?live = "filter (\<lambda>vm. \<not> vm_terminal vm) ?vms"
      have e: "((adopted, e), b', w') = ((countActiveVMs ?vms, err),
          b\<lparr>activeVMs := foldl (\<lambda>act vm. fmupd (vName vm) (vName vm) act) fmempty ?live\<rparr>, w1)"
        using h False g Some b(2) by (simp add: HydrateFromOrchard_def hydrate_fold del: not_None_eq)
      have "int (length (sVMs sn)) \<le> B"
        using view_small_get(2) [OF _ _ g [unfolded Some]] w by (auto simp: fleet_inv_def fleet_ok_def)
      moreover have "length ?live \<le> length (sVMs sn)"
        by (simp add: ManagedVMsForScaleSet_def)
      ultimately have n: "int (length ?live) \<le> B" by simp
      have "ActiveVMCount b' \<le> int (length ?live)"
      proof -
        have "fcard (fset_of_list (map vName ?live)) \<le> length ?live"
          by (metis card_length fcard.rep_eq fset_of_list.rep_eq length_map)
        then show ?thesis using e by (simp add: ActiveVMCount_def map_len_def fold)
      qed
      moreover have "adopted = int (length ?live)" using e by (simp add: countActiveVMs_eq)
      moreover have "v = nm \<and> nm \<noteq> []" if "fmlookup (activeVMs b') nm = Some v" for nm v
      proof -
        have "nm \<in> vName ` set ?live" "v = nm" using that e by (auto simp: fold_fmupd_lookup split: if_splits)
        moreover have "IsManagedVM nm" using calculation(1) ManagedVMsForScaleSet_managed by fastforce
        ultimately show ?thesis by (auto simp: IsManagedVM_def has_prefix_def vmNamePrefix_def)
      qed
      ultimately show ?thesis using n e fr b(1) by (auto simp: bridge_ok_def)
    qed
  qed
  then show "0 \<le> adopted" "adopted \<le> B" "bridge_ok B k b'" "sysCap w' = sysCap w" "mHandles w' = mHandles w"
    by simp_all
qed

lemma adopt_step:
  assumes w: "fleet_inv E B k w" and bk: "books_ok B w" and B: "0 \<le> B" "B \<le> 2 ^ 31"
    and len: "length (mHandles w) < 2 ^ 20" and m: "0 \<le> m"
    and a: "w' = adopt_handle E (NewBridge name sid vmc) m static w"
  shows "fleet_inv E B k w'" and "books_ok B w'" and "length (mHandles w') = Suc (length (mHandles w))"
proof -
  let ?i = "length (mHandles w)"
  let ?b = "NewBridge name sid vmc"
  let ?w1 = "w\<lparr>mHandles := mHandles w @ [\<lparr>hBridge = ?b, hMaxRunners = m, hStaticMaxRunners = static\<rparr>]\<rparr>"
  have nb: "bridge_ok B k ?b" "activeVMs ?b = fmempty"
    using B by (simp_all add: bridge_ok_def NewBridge_def ActiveVMCount_def)
  have w1: "fleet_inv E B k ?w1" using w nb m by (auto simp: fleet_inv_def fleet_ok_def)
  obtain adopted e b' w2 where h: "HydrateFromOrchard E ?b ?w1 = ((adopted, e), b', w2)" by (metis prod_cases3 surj_pair)
  note s = hydrate_step [OF h w1 nb B(1)]
  have w2: "fleet_inv E B k w2" using fleet_job.hydrate_inv [OF h w1] .
  let ?w3 = "put_bridge ?i b' w2"
  let ?w4 = "if 0 < adopted then ?w3\<lparr>sysCap := AdoptExisting adopted (sysCap ?w3)\<rparr> else ?w3"
  have w': "w' = recomputeScaleSetShares E ?w4"
    unfolding a adopt_handle_def Let_def h by (simp add: put_bridge_def)
  have "fleet_inv E B k ?w3" using fleet_inv_put [OF w2 s(3)] s(5) by simp
  then show "fleet_inv E B k w'" unfolding w' by (intro fleet_inv_recompute) simp
  have l: "length (mHandles ?w4) = Suc ?i" using s(5) by simp
  then show n: "length (mHandles w') = Suc ?i" unfolding w' by simp
  have "int ?i < 2 ^ 20" using len by (metis of_nat_less_iff of_nat_numeral of_nat_power)
  then have "B * (1 + int ?i) \<le> 2 ^ 31 * (1 + 2 ^ 20)" using B by (intro mult_mono) simp_all
  then have "wrap64 (current (sysCap w) + adopted) = current (sysCap w) + adopted"
    using bk s(1,2) B by (intro wrap64_id) (simp_all add: books_ok_def)
  then have "current (sysCap ?w4) = current (sysCap w) + adopted" "cmax (sysCap ?w4) = cmax (sysCap w)"
    using s(1,4) by (simp_all add: AdoptExisting_def)
  then show "books_ok B w'"
    using bk s(1,2) n unfolding books_ok_def w' recompute_frame(1) by (simp add: algebra_simps)
qed

lemma listed_small:
  assumes w: "fleet_inv E B k w" and l: "listVMsAndWorkers E w = ((Some sw, None), w1)"
  shows "int (length (stVMs sw)) \<le> B" and "fleet_slots (stLive sw) \<le> B"
proof -
  have env: "env_small B E" and v: "view_small B (sysView w)" using w by (simp_all add: fleet_inv_def fleet_ok_def)
  have "int (length (stVMs sw)) \<le> B \<and> fleet_slots (stLive sw) \<le> B"
  proof (cases "sysView w = None")
    case True
    then show ?thesis using l
      by (auto simp: listVMsAndWorkers_def split: prod.splits sum.splits dest: env_small_lists [OF env])
  next
    case False
    obtain sn e where g: "state_Get E w = ((Some sn, e), w1)" and sw: "stVMs sw = sVMs sn" "stLive sw = sWorkers sn"
      using l False by (auto simp: listVMsAndWorkers_def split: prod.splits option.splits)
    obtain d where d: "int (length (sVMs sn)) \<le> B" "fleet_slots (sAllWorkers sn) \<le> B" "snapshot_ok d sn"
      using view_small_get(2) [OF env v g refl] by blast
    have "fleet_slots (sWorkers sn) \<le> fleet_slots (sAllWorkers sn)"
      unfolding snapshot_ok_workers [OF d(3)] LiveWorkers_def by (rule fleet_slots_filter_le)
    then show ?thesis using d sw by simp
  qed
  then show "int (length (stVMs sw)) \<le> B" "fleet_slots (stLive sw) \<le> B" by simp_all
qed

lemma tick_step:
  assumes w: "fleet_inv E B k w" and bk: "books_ok B w" and B: "0 \<le> B" "B \<le> 2 ^ 31"
    and t: "on_tick E cfg rem w = (r, w')"
  shows "fleet_inv E B k w'" and "books_ok B w'" and "length (mHandles w') = length (mHandles w)"
proof -
  note s = t [unfolded on_tick_def]
  show "fleet_inv E B k w'" using fleet_sweep.sweep_keeps [OF s w] .
  show n: "length (mHandles w') = length (mHandles w)" using len_sweep.sweep_keeps [OF s refl] .
  obtain osw err w1 where l: "listVMsAndWorkers E w = ((osw, err), w1)" by (metis surj_pair)
  have "(current (sysCap w') = current (sysCap w) \<and> cmax (sysCap w') = cmax (sysCap w)) \<or>
      (0 \<le> current (sysCap w') \<and> current (sysCap w') \<le> B \<and> 0 \<le> cmax (sysCap w') \<and> cmax (sysCap w') \<le> B)"
  proof (cases "err = None \<and> osw \<noteq> None")
    case False
    then have "w' = w1" using s l by (auto simp: sweep_def split: option.splits)
    then show ?thesis using listVMsAndWorkers_frame [OF l] by simp
  next
    case True
    then obtain sw where l': "listVMsAndWorkers E w = ((Some sw, None), w1)" using l by blast
    obtain t :: tally where t: "sysCap w' = (sysCap w)\<lparr>current := managedCount t, cmax := maxCapacityTotal (stLive sw)\<rparr>"
        "managedCount t \<le> int (length (filter (in_use sw) (stVMs sw)))" "0 \<le> managedCount t"
      by (rule mgr_sweep.sweep_summary [OF l' s])
    note sm = listed_small [OF w l']
    have "length (filter (in_use sw) (stVMs sw)) \<le> length (stVMs sw)" by (rule length_filter_le)
    then have "managedCount t \<le> B" using t(2) sm(1) by linarith
    moreover have "fleet_slots (stLive sw) < 2 ^ 63" using sm(2) B(2) by simp
    then have "0 \<le> maxCapacityTotal (stLive sw) \<and> maxCapacityTotal (stLive sw) \<le> B"
      using max_count.count_bounded [of "stLive sw"] sm(2) by simp
    ultimately show ?thesis using t by simp
  qed
  moreover have "B \<le> B * (1 + int (length (mHandles w)))" using B(1) by (simp add: algebra_simps)
  ultimately show "books_ok B w'" using bk B(1) n by (auto simp: books_ok_def)
qed

lemma mgr_step_inv:
  assumes st: "mgr_step E gh cfg rem B N w w'" and w: "fleet_inv E B k w" and bk: "books_ok B w"
    and B: "0 \<le> B" "B \<le> 2 ^ 31" and k: "k \<le> 2 ^ 30" and N: "N \<le> 2 ^ 20" and len: "length (mHandles w) \<le> N"
  shows "fleet_inv E B (Suc k) w' \<and> books_ok B w' \<and> length (mHandles w') \<le> N"
proof -
  have cap: "cap_ok (sysCap w)" using books_cap_ok [OF bk B(2) _ B(1)] len N by simp
  have up: "fleet_inv E B (Suc k) u" if "fleet_inv E B k u" for u
    using that B(1) fleet_ok_mono [of B k u "Suc k"] by (simp add: fleet_inv_def)
  have le: "B \<le> B * (1 + int (length (mHandles w)))" using B(1) by (simp add: algebra_simps)
  have bridge: "bridge_ok B k (hBridge (mHandles w ! i))" if "i < length (mHandles w)" for i
    using w that by (simp add: fleet_inv_def fleet_ok_def)
  from st show ?thesis
  proof cases
    case (step_desired i count r)
    obtain b' w1 where h: "HandleDesiredRunnerCount E gh (mgr_hooks E) count (hBridge (mHandles w ! i)) w = (r, b', w1)"
        and w': "w' = put_bridge i b' w1"
      using step_desired(4) by (auto simp: on_desired_def split: prod.splits)
    obtain n err where d: "r = Return (n, err)" "bridge_ok B (Suc k) b'" "ActiveVMCount (hBridge (mHandles w ! i)) \<le> n"
        "n \<le> max (ActiveVMCount (hBridge (mHandles w ! i))) count"
        "current (sysCap w1) = current (sysCap w) + (n - ActiveVMCount (hBridge (mHandles w ! i)))"
        "ActiveVMCount (hBridge (mHandles w ! i)) < n \<longrightarrow> current (sysCap w1) \<le> cmax (sysCap w)"
        "cmax (sysCap w1) = cmax (sysCap w)"
      by (rule desired_step [OF bridge [OF step_desired(1)] B k step_desired(2,3) cap h])
    have l: "length (mHandles w1) = length (mHandles w)" using len_job.desired_inv [OF h refl] .
    have "fleet_inv E B (Suc k) w1" using fleet_job.desired_inv [OF h w] up by blast
    then have "fleet_inv E B (Suc k) w'" unfolding w' using fleet_inv_put d(2) l step_desired(1) by metis
    moreover have "current (sysCap w1) \<le> B * (1 + int (length (mHandles w)))"
    proof (cases "ActiveVMCount (hBridge (mHandles w ! i)) < n")
      case True
      then have "current (sysCap w1) \<le> cmax (sysCap w)" using d(6) by simp
      then show ?thesis using bk le unfolding books_ok_def by linarith
    next
      case False
      then have "current (sysCap w1) = current (sysCap w)" using d(3,5) by simp
      then show ?thesis using bk unfolding books_ok_def by simp
    qed
    ultimately show ?thesis using bk d(3,5,7) l len by (simp add: w' books_ok_def)
  next
    case (step_started i name r1)
    then have "w' = put_bridge i (hBridge (mHandles w ! i)) w"
      by (simp add: on_started_def HandleJobStarted_def)
    then show ?thesis using up fleet_inv_put [OF w bridge [OF step_started(1)] step_started(1)] bk len
      by (simp add: books_ok_def)
  next
    case (step_completed i name rid r2)
    obtain b' w1 where h: "HandleJobCompleted E gh (mgr_hooks E) name rid (hBridge (mHandles w ! i)) w = (r2, b', w1)"
        and w': "w' = put_bridge i b' w1"
      using step_completed(2) by (auto simp: on_completed_def split: prod.splits)
    have l: "length (mHandles w1) = length (mHandles w)" using len_job.completed_inv [OF h refl] .
    have c: "0 \<le> current (sysCap w1)" "current (sysCap w1) \<le> current (sysCap w)" "cmax (sysCap w1) = cmax (sysCap w)"
      "bridge_ok B k b'" using completed_step [OF h cap, of B k] bridge [OF step_completed(1)] by simp_all
    have "fleet_inv E B k w'"
      unfolding w' using fleet_inv_put [OF fleet_job.completed_inv [OF h w] c(4)] step_completed(1) l by simp
    then show ?thesis using up bk c l len by (simp add: w' books_ok_def)
  next
    case (step_tick r3)
    then show ?thesis using tick_step [OF w bk B] up len by simp
  next
    case (step_adopt m name sid vmc static)
    have "length (mHandles w) < 2 ^ 20" using step_adopt(2) N by simp
    then show ?thesis
      using adopt_step [OF w bk B _ step_adopt(3) step_adopt(1)] up step_adopt(2) by simp
  next
    case (step_world st)
    then show ?thesis using w up bk len by (simp add: books_ok_def)
  qed
qed

subsection \<open>Reachable states\<close>

text \<open>What \<open>New\<close> and \<open>Run\<close> set up is in the invariant, and every step keeps it.\<close>

lemma started_inv:
  assumes env: "env_small B E" and B: "0 \<le> B" "B \<le> 2 ^ 31" and m: "- B \<le> MaxVMs cfg" "MaxVMs cfg \<le> B"
    and s: "Run_setup E out fns cfg (New E fns cfg reg st) = (r, w)"
  shows "fleet_inv E B 0 w" and "books_ok B w" and "mHandles w = []"
proof -
  obtain n e st1 where d: "discoverCapacity E (WorkerStaleAfterDuration fns cfg) st = ((n, e), st1)" by (metis prod_cases3 surj_pair)
  have disc: "0 \<le> discoverTotal (LiveWorkers ws t d) \<and> discoverTotal (LiveWorkers ws t d) \<le> B"
    if l: "ListWorkers E st = (Inr ws, st')" for ws st' t d
  proof -
    have "fleet_slots (LiveWorkers ws t d) \<le> fleet_slots ws" unfolding LiveWorkers_def by (rule fleet_slots_filter_le)
    then have "fleet_slots (LiveWorkers ws t d) \<le> B" using env_small_lists(2) [OF env l] by linarith
    then show ?thesis using discover_count.count_bounded [of "LiveWorkers ws t d"] B(2) by simp
  qed
  have n: "- B \<le> n \<and> n \<le> B"
  proof (cases "fst (ListWorkers E st)")
    case (Inl e1)
    then obtain st' where "ListWorkers E st = (Inl e1, st')" by (metis prod.collapse)
    then show ?thesis using d B(1) by (simp add: discoverCapacity_def)
  next
    case (Inr ws)
    then obtain st' where l: "ListWorkers E st = (Inr ws, st')" by (metis prod.collapse)
    then obtain t dd where "n = discoverTotal (LiveWorkers ws t dd)"
      using d by (auto simp: discoverCapacity_def Let_def split: prod.splits)
    then show ?thesis using disc [OF l, of t dd] B(1) by simp
  qed
  let ?w0 = "New E fns cfg reg st"
  have w0: "mHandles ?w0 = []" "current (sysCap ?w0) = 0" "- B \<le> cmax (sysCap ?w0) \<and> cmax (sysCap ?w0) \<le> B"
    "\<exists>t d. sysView ?w0 = Some (NewStateView t d)"
    using m d n by (auto simp: New_def Let_def split: prod.split)
  have w: "mHandles w = []" "current (sysCap w) = 0" "cmax (sysCap w) = cmax (sysCap ?w0)" "sysView w = sysView ?w0"
    using s w0(1,2) by (auto simp: Run_setup_def Let_def OnWorkersChanged_def split: if_splits prod.splits)
  have "view_small B (sysView w)"
    using w(4) w0(4) by (auto simp: view_small_def NewStateView_def view_ok_def DefaultStateViewTTL_def
        DefaultWorkerStaleAfter_def second_def minute_def)
  then show "fleet_inv E B 0 w" using env w(1) by (simp add: fleet_inv_def fleet_ok_def)
  show "books_ok B w" using w w0(3) B by (simp add: books_ok_def)
  show "mHandles w = []" by (rule w(1))
qed

lemma reach_inv:
  assumes r: "mgr_reach E gh cfg rem B N w0 k w" and B: "0 \<le> B" "B \<le> 2 ^ 31" and N: "N \<le> 2 ^ 20"
    and w0: "fleet_inv E B 0 w0" "books_ok B w0" "mHandles w0 = []"
  shows "k \<le> 2 ^ 30 \<Longrightarrow> fleet_inv E B k w \<and> books_ok B w \<and> length (mHandles w) \<le> N"
  using r
proof (induction k arbitrary: w)
  case 0
  then have "w = w0" by (auto elim: reach_zeroE)
  then show ?case using w0 by simp
next
  case (Suc k)
  obtain u where u: "mgr_reach E gh cfg rem B N w0 k u" "mgr_step E gh cfg rem B N u w"
    using Suc.prems(2) by (auto elim: reach_sucE)
  have k: "k \<le> 2 ^ 30" using Suc.prems(1) by simp
  then show ?case using mgr_step_inv [OF u(2)] Suc.IH [OF k u(1)] B N by blast
qed

subsection \<open>A bounded world\<close>

definition ex_bounded :: "ex_world env" where
  "ex_bounded = ex_env\<lparr>ListVMs := (\<lambda>st. (Inr (take 5 (exVMs st)), st)), ListWorkers := (\<lambda>st. (Inr ex_pool, st))\<rparr>"

lemma ex_bounded_small: "env_small 5 ex_bounded"
  using ex_pool_facts(3) by (auto simp: env_small_def ex_bounded_def)

definition ex_running :: "ex_world mgr" where
  "ex_running = snd (Run_setup ex_bounded ex_outside (\<lambda>_ _ _. 0) (ex_config [] [])
     (New ex_bounded (\<lambda>_ _ _. 0) (ex_config [] []) None (ex_state [] ex_pool)))"

lemma ex_running_setup:
  "Run_setup ex_bounded ex_outside (\<lambda>_ _ _. 0) (ex_config [] [])
     (New ex_bounded (\<lambda>_ _ _. 0) (ex_config [] []) None (ex_state [] ex_pool)) = (Return None, ex_running)"
proof -
  obtain r w where s: "Run_setup ex_bounded ex_outside (\<lambda>_ _ _. 0) (ex_config [] [])
     (New ex_bounded (\<lambda>_ _ _. 0) (ex_config [] []) None (ex_state [] ex_pool)) = (r, w)" by (metis surj_pair)
  then have "r = Return None"
    by (auto simp: Run_setup_def Let_def ex_outside_def split: prod.splits)
  then show ?thesis using s by (simp add: ex_running_def)
qed

lemma ex_running_max: "MaxVMs (ex_config [] []) = 0"
  by (simp add: ex_config_def)

definition ex_joined :: "ex_world mgr" where
  "ex_joined = adopt_handle ex_bounded (NewBridge ''ci'' 7 ex_vmconfig) 2 0 ex_running"

lemma ex_reach_one:
  "mgr_reach ex_bounded ex_gh (ex_config [] []) None 5 1 ex_running 1 ex_joined"
proof -
  have "mHandles ex_running = []"
    using started_inv(3) [OF ex_bounded_small _ _ _ _ ex_running_setup] ex_running_max by simp
  then show ?thesis
    unfolding One_nat_def ex_joined_def by (intro reach_step [OF reach_start] step_adopt) simp_all
qed

lemma ex_completed_returns: "\<exists>r w'. on_completed ex_bounded ex_gh i name rid w = (Return r, w')"
proof (cases "fmlookup (activeVMs (hBridge (mHandles w ! i))) name")
  case None
  then show ?thesis by (simp add: on_completed_def HandleJobCompleted_def)
next
  case (Some v)
  have "DeleteVM ex_bounded = DeleteVM ex_env" by (simp add: ex_bounded_def)
  then show ?thesis using Some
    by (simp add: on_completed_def HandleJobCompleted_def Let_def ex_gh_def)
qed

lemma ex_joined_length [simp]: "length (mHandles ex_joined) = 1"
proof -
  have "mHandles ex_running = []" "fleet_inv ex_bounded 5 0 ex_running" "books_ok 5 ex_running"
    using started_inv [OF ex_bounded_small _ _ _ _ ex_running_setup] ex_running_max by simp_all
  then show ?thesis
    using adopt_step(3) [OF _ _ _ _ _ _ ex_joined_def, of 5 0] by simp
qed

subsection \<open>Properties\<close>

text \<open>C2. In every state the running program can reach, by any order of job events, sweeps, scale-set
  starts and outside changes, the 64-bit slot counter is in its safe range (never negative, at most
  the fleet bound per scale set plus one), the limits pushed to GitHub are never negative, and
  every bridge tracks at most the fleet bound of VMs, each under its own non-empty name.\<close>

theorem reachable_state_in_range:
  assumes "env_small B E" and "0 \<le> B" and "B \<le> 2 ^ 31" and "N \<le> 2 ^ 20"
    and "- B \<le> MaxVMs cfg" and "MaxVMs cfg \<le> B"
    and "Run_setup E out fns cfg (New E fns cfg reg st) = (Return rem, w0)"
    and "mgr_reach E gh cfg rem B N w0 k w" and "k \<le> 2 ^ 30"
  shows "cap_ok (sysCap w) \<and> current (sysCap w) \<le> B * (1 + int (length (mHandles w))) \<and>
    cmax (sysCap w) \<le> B \<and> length (mHandles w) \<le> N \<and>
    list_all (\<lambda>h. 0 \<le> hMaxRunners h \<and> ActiveVMCount (hBridge h) \<le> B \<and>
      fmpred (\<lambda>nm v. v = nm \<and> nm \<noteq> []) (activeVMs (hBridge h))) (mHandles w)"
proof -
  note s = started_inv [OF assms(1,2,3,5,6,7)]
  have i: "fleet_inv E B k w" "books_ok B w" "length (mHandles w) \<le> N"
    using reach_inv [OF assms(8,2,3,4) s assms(9)] by simp_all
  moreover have "cap_ok (sysCap w)" using books_cap_ok [OF i(2) assms(3) _ assms(2)] i(3) assms(4) by simp
  ultimately show ?thesis
    by (auto simp: books_ok_def fleet_inv_def fleet_ok_def bridge_ok_def list_all_iff fmpred_iff)
qed

theorem reachable_state_in_range_witness:
  "cap_ok (sysCap ex_joined) \<and> current (sysCap ex_joined) \<le> 10"
  using reachable_state_in_range [OF ex_bounded_small _ _ _ _ _ ex_running_setup ex_reach_one] ex_running_max
  by simp

text \<open>C1. No desired-count event can panic or lose a slot, whatever happened before it: from every
  reachable state the handler returns, the count it reports is between the VMs tracked before and
  the count GitHub asked for, and the shared counter moved by exactly the VMs it created, within
  the limit whenever it created any. In particular the placement cursor never turns into a
  negative index.\<close>

theorem reachable_desired_returns:
  assumes "env_small B E" and "0 \<le> B" and "B \<le> 2 ^ 31" and "N \<le> 2 ^ 20"
    and "- B \<le> MaxVMs cfg" and "MaxVMs cfg \<le> B"
    and "Run_setup E out fns cfg (New E fns cfg reg st) = (Return rem, w0)"
    and "mgr_reach E gh cfg rem B N w0 k w" and "k \<le> 2 ^ 30"
    and "i < length (mHandles w)" and "0 \<le> count" and "count \<le> B"
  shows "\<exists>n err w'. on_desired E gh i count w = (Return (n, err), w') \<and>
    ActiveVMCount (hBridge (mHandles w ! i)) \<le> n \<and>
    n \<le> max (ActiveVMCount (hBridge (mHandles w ! i))) count \<and>
    current (sysCap w') = current (sysCap w) + (n - ActiveVMCount (hBridge (mHandles w ! i))) \<and>
    (n = ActiveVMCount (hBridge (mHandles w ! i)) \<or> current (sysCap w') \<le> cmax (sysCap w'))"
proof -
  note s = started_inv [OF assms(1,2,3,5,6,7)]
  have i: "fleet_inv E B k w" "books_ok B w" "length (mHandles w) \<le> N"
    using reach_inv [OF assms(8,2,3,4) s assms(9)] by simp_all
  have cap: "cap_ok (sysCap w)" using books_cap_ok [OF i(2) assms(3) _ assms(2)] i(3) assms(4) by simp
  have b: "bridge_ok B k (hBridge (mHandles w ! i))" using i(1) assms(10) by (simp add: fleet_inv_def fleet_ok_def)
  obtain r b' w1 where h: "HandleDesiredRunnerCount E gh (mgr_hooks E) count (hBridge (mHandles w ! i)) w = (r, b', w1)"
    by (rule prod_cases3)
  show ?thesis
    using desired_step [OF b assms(2,3,9,11,12) cap h] h by (fastforce simp: on_desired_def)
qed

theorem reachable_desired_returns_witness:
  "\<exists>n err w'. on_desired ex_bounded ex_gh 0 3 ex_joined = (Return (n, err), w')"
  using reachable_desired_returns [OF ex_bounded_small _ _ _ _ _ ex_running_setup ex_reach_one, of 0 3]
    ex_running_max ex_joined_length by auto

text \<open>C6. No tracked VM is ever lost: from every reachable state, when the job of a tracked VM
  completes, the bridge stops tracking it and either Orchard accepted its delete or it is queued for
  the cleanup loop; a completion for any other runner changes nothing.\<close>

theorem reachable_completed_never_leaks:
  assumes "env_small B E" and "0 \<le> B" and "B \<le> 2 ^ 31" and "N \<le> 2 ^ 20"
    and "- B \<le> MaxVMs cfg" and "MaxVMs cfg \<le> B"
    and "Run_setup E out fns cfg (New E fns cfg reg st) = (Return rem, w0)"
    and "mgr_reach E gh cfg rem B N w0 k w" and "k \<le> 2 ^ 30"
    and "i < length (mHandles w)" and "on_completed E gh i name rid w = (Return r, w')"
  shows "name |\<notin>| fmdom (activeVMs (hBridge (mHandles w' ! i))) \<and>
    (if name |\<in>| fmdom (activeVMs (hBridge (mHandles w ! i)))
     then fst (DeleteVM E name (sysExt w)) = Return None \<or> name |\<in>| pendingDeletes (sysCleanup w')
     else w' = w)"
proof -
  note s = started_inv [OF assms(1,2,3,5,6,7)]
  have i: "fleet_inv E B k w" using reach_inv [OF assms(8,2,3,4) s assms(9)] by simp
  let ?b = "hBridge (mHandles w ! i)"
  have "bridge_ok B k ?b" using i assms(10) by (simp add: fleet_inv_def fleet_ok_def)
  then have names: "v = nm \<and> nm \<noteq> []" if "fmlookup (activeVMs ?b) nm = Some v" for nm v
    using that unfolding bridge_ok_def by blast
  obtain b' w1 where h: "HandleJobCompleted E gh (mgr_hooks E) name rid ?b w = (Return r, b', w1)"
    and w': "w' = put_bridge i b' w1"
    using assms(11) by (auto simp: on_completed_def split: prod.splits)
  have l: "length (mHandles w1) = length (mHandles w)" using len_job.completed_inv [OF h refl] .
  then have put: "hBridge (mHandles w' ! i) = b'" using assms(10) by (simp add: w' put_bridge_def)
  show ?thesis
  proof (cases "fmlookup (activeVMs ?b) name")
    case None
    then have b': "b' = ?b" "w1 = w" using h None by (auto simp: HandleJobCompleted_def)
    have "w' = w" unfolding w' b' by (simp add: put_bridge_def)
    then show ?thesis using None by (simp add: fmdom_notI)
  next
    case (Some v)
    then have v: "v = name" "name \<noteq> []" using names by auto
    have dom: "name |\<in>| fmdom (activeVMs ?b)" using Some by (rule fmdomI)
    have gone: "activeVMs b' = fmdrop name (activeVMs ?b)"
      using h Some by (auto simp: HandleJobCompleted_def Let_def split: prod.splits outcome.splits option.splits)
    have "name |\<in>| pendingDeletes (sysCleanup w1)" if "fst (DeleteVM E name (sysExt w)) \<noteq> Return None"
      using h Some v that
      by (auto simp: HandleJobCompleted_def Let_def mgr_hooks_def MarkForDeletion_def
          split: prod.splits outcome.splits option.splits)
    then show ?thesis using dom gone put by (auto simp: w')
  qed
qed

theorem reachable_completed_never_leaks_witness:
  "''gha-orchard-ci-1'' |\<notin>| fmdom (activeVMs (hBridge (mHandles
     (snd (on_completed ex_bounded ex_gh 0 ''gha-orchard-ci-1'' 1 ex_joined)) ! 0)))"
proof -
  obtain r w' where h: "on_completed ex_bounded ex_gh 0 ''gha-orchard-ci-1'' 1 ex_joined = (Return r, w')"
    using ex_completed_returns by blast
  show ?thesis
    using reachable_completed_never_leaks [OF ex_bounded_small _ _ _ _ _ ex_running_setup ex_reach_one _ _ h]
      ex_running_max ex_joined_length h by simp
qed

end
