(* ===== verification/Manager_Safety.thy ===== *)
theory Manager_Safety
  imports Manager_Reach
begin

text \<open>
  The cleanup goroutine does not panic. \<^verbatim>\<open>bridge/cleanup.go\<close> recovers from a panic in
  one VM's processing only; anything else that panics in a sweep takes the whole process down. The
  sources of panic left are a metrics vector called with the wrong number of label values and a view
  that returns neither a snapshot nor an error. \<open>refs_ok\<close> says every vector the program holds was
  registered with the number of labels it is used with; it holds from \<open>New\<close> and \<open>Run\<close> on, every
  step keeps it, and with it a sweep always returns.
\<close>

subsection \<open>Vector references\<close>

definition ref_ok :: "vec_ref \<Rightarrow> nat \<Rightarrow> registry option \<Rightarrow> bool" where
  "ref_ok g n ro \<longleftrightarrow> (case (g, ro) of
     (Some i, Some r) \<Rightarrow> i < length r \<and> length (vecLabelNames (r ! i)) = n | _ \<Rightarrow> True)"

definition shape :: "registry option \<Rightarrow> string list list option" where
  "shape ro = map_option (map vecLabelNames) ro"

lemma ref_ok_shape:
  assumes "ref_ok g n ro" and "shape ro' = shape ro"
  shows "ref_ok g n ro'"
proof (cases "g = None \<or> ro = None")
  case True
  then show ?thesis using assms(2) by (auto simp: ref_ok_def shape_def split: option.split)
next
  case False
  then obtain i r r' where c: "g = Some i" "ro = Some r" "ro' = Some r'" "map vecLabelNames r' = map vecLabelNames r"
    using assms(2) by (auto simp: shape_def)
  then have "length r' = length r" by (metis length_map)
  moreover have "vecLabelNames (r' ! i) = vecLabelNames (r ! i)" if "i < length r"
    using c(4) that calculation by (metis nth_map)
  ultimately show ?thesis using assms(1) c by (simp add: ref_ok_def)
qed

lemma on_vec_returns:
  assumes g: "ref_ok g n ro"
    and fn: "\<And>v. length (vecLabelNames v) = n \<Longrightarrow> \<exists>v'. fn v = Return v' \<and> vecLabelNames v' = vecLabelNames v"
  shows "\<exists>ro'. on_vec g fn ro = Return ro' \<and> shape ro' = shape ro"
proof (cases "g = None \<or> ro = None")
  case True
  then show ?thesis by (auto simp: on_vec_def split: option.split)
next
  case False
  then obtain i r where c: "g = Some i" "ro = Some r" by auto
  then have i: "i < length r" "length (vecLabelNames (r ! i)) = n" using g by (simp_all add: ref_ok_def)
  obtain v where v: "fn (r ! i) = Return v" "vecLabelNames v = vecLabelNames (r ! i)" using fn [OF i(2)] by blast
  have "map vecLabelNames (r[i := v]) = map vecLabelNames r"
    unfolding map_update v(2) using i(1) by (metis list_update_id nth_map length_map)
  then show ?thesis using c v by (simp add: on_vec_def shape_def)
qed

lemma vec_update_returns:
  assumes "length ls = n"
  shows "length (vecLabelNames v) = n \<Longrightarrow> \<exists>v'. vec_update ls f v = Return v' \<and> vecLabelNames v' = vecLabelNames v"
  using assms by (simp add: vec_update_def Let_def)

lemma vec_calls_return:
  assumes "ref_ok g n ro" and "length ls = n"
  shows "\<exists>ro'. GaugeVec_Set g x ls ro = Return ro' \<and> shape ro' = shape ro"
    and "\<exists>ro'. CounterVec_Inc g ls ro = Return ro' \<and> shape ro' = shape ro"
    and "\<exists>ro'. GaugeVec_Delete g ls ro = Return ro' \<and> shape ro' = shape ro"
  unfolding GaugeVec_Set_def CounterVec_Inc_def GaugeVec_Delete_def
  by (rule on_vec_returns [OF assms(1)], simp add: vec_update_def vec_delete_def Let_def assms(2))+

subsection \<open>Observing\<close>

lemma excl_labels_length: "length (excl_labels ss ex) = 4"
  by (simp add: excl_labels_def)

lemma warn_loop_returns:
  "ref_ok g 4 ro \<Longrightarrow> \<exists>logs ro'. warn_loop g ss prev cur names ro = Return (logs, ro') \<and> shape ro' = shape ro"
proof (induction names arbitrary: ro)
  case Nil
  then show ?case by simp
next
  case (Cons name names)
  let ?ex = "the (fmlookup cur name)"
  obtain ro1 where d: "(case fmlookup prev name of Some old \<Rightarrow> GaugeVec_Delete g (excl_labels ss old) ro
      | None \<Rightarrow> Return ro) = Return ro1" "shape ro1 = shape ro"
    using vec_calls_return(3) [OF Cons.prems excl_labels_length] by (cases "fmlookup prev name") force+
  obtain ro2 where s: "GaugeVec_Set g 1 (excl_labels ss ?ex) ro1 = Return ro2" "shape ro2 = shape ro1"
    using vec_calls_return(1) [OF ref_ok_shape [OF Cons.prems d(2)] excl_labels_length] by blast
  have "ref_ok g 4 ro2" using ref_ok_shape [OF Cons.prems] d(2) s(2) by simp
  from Cons.IH [OF this] Cons.IH [OF Cons.prems] show ?case
    using d s by (auto simp: Let_def)
qed

lemma clear_loop_returns:
  "ref_ok g 4 ro \<Longrightarrow> \<exists>logs ro'. clear_loop g ss prev cur present names ro = Return (logs, ro') \<and> shape ro' = shape ro"
proof (induction names arbitrary: ro)
  case Nil
  then show ?case by simp
next
  case (Cons name names)
  obtain ro1 where d: "GaugeVec_Delete g (excl_labels ss (the (fmlookup prev name))) ro = Return ro1" "shape ro1 = shape ro"
    using vec_calls_return(3) [OF Cons.prems excl_labels_length] by blast
  from Cons.IH [OF ref_ok_shape [OF Cons.prems d(2)]] Cons.IH [OF Cons.prems] show ?case
    using d by (auto simp: Let_def)
qed

lemma Observe_returns:
  assumes "ref_ok (mExcluded m) 4 ro" and "ref_ok (mEligible m) 1 ro"
  shows "\<exists>logs m' ro'. Observe ss ws l rc rm m ro = Return (logs, m', ro') \<and> shape ro' = shape ro \<and>
    mExcluded m' = mExcluded m \<and> mEligible m' = mEligible m"
proof -
  let ?cur = "current_exclusions (AutoSizeExclusions ws l rc rm)" and ?prev = "last_of m ss"
  obtain l1 r1 where w: "warn_loop (mExcluded m) ss ?prev ?cur (sortedKeys ?cur) ro = Return (l1, r1)" "shape r1 = shape ro"
    using warn_loop_returns [OF assms(1)] by blast
  obtain l2 r2 where c: "clear_loop (mExcluded m) ss ?prev ?cur (map wName ws) (sortedKeys ?prev) r1 = Return (l2, r2)"
    "shape r2 = shape r1" using clear_loop_returns [OF ref_ok_shape [OF assms(1) w(2)]] by blast
  have "ref_ok (mEligible m) 1 r2" using ref_ok_shape [OF assms(2)] w(2) c(2) by simp
  then obtain r3 where "GaugeVec_Set (mEligible m) (f64 (WorkerCountForLabels ws l rc rm)) [ss] r2 = Return r3"
    "shape r3 = shape r2" using vec_calls_return(1) [of "mEligible m" 1 r2 "[ss]"] by auto
  then show ?thesis using w c by (simp add: Observe_def Let_def)
qed

subsection \<open>The program's references\<close>

definition refs_ok :: "'o mgr \<Rightarrow> bool" where
  "refs_ok w \<longleftrightarrow> ref_ok (prunedTotal (sysCleanup w)) 0 (sysMetrics w) \<and>
     ref_ok (mExcluded (mMonitor w)) 4 (sysMetrics w) \<and> ref_ok (mEligible (mMonitor w)) 1 (sysMetrics w)"

lemma refs_ok_shape:
  assumes "refs_ok w" and "shape (sysMetrics w') = shape (sysMetrics w)"
    and "prunedTotal (sysCleanup w') = prunedTotal (sysCleanup w)"
    and "mExcluded (mMonitor w') = mExcluded (mMonitor w)" and "mEligible (mMonitor w') = mEligible (mMonitor w)"
  shows "refs_ok w'"
  using assms ref_ok_shape [OF _ assms(2)] by (simp add: refs_ok_def)

lemma observe_sets_returns:
  "refs_ok w \<Longrightarrow> \<exists>w'. observe_sets sss ws w = (Return (), w') \<and> refs_ok w'"
proof (induction sss arbitrary: w)
  case Nil
  then show ?case by simp
next
  case (Cons ss sss)
  show ?case
  proof (cases "asEnabled (vcAutoSize (ssVM ss))")
    case False
    then show ?thesis using Cons by simp
  next
    case True
    obtain cpu mem where r: "AutoSizeReserves (asReserveCPU (vcAutoSize (ssVM ss))) (asReserveMemoryMiB (vcAutoSize (ssVM ss))) = (cpu, mem)"
      by (metis surj_pair)
    obtain logs m reg where o: "Observe (ssName ss) ws (vcLabels (ssVM ss)) cpu mem (mMonitor w) (sysMetrics w) = Return (logs, m, reg)"
        "shape reg = shape (sysMetrics w)" "mExcluded m = mExcluded (mMonitor w)" "mEligible m = mEligible (mMonitor w)"
      using Observe_returns [of "mMonitor w" "sysMetrics w"] Cons.prems unfolding refs_ok_def by metis
    have "refs_ok (w\<lparr>mMonitor := m, sysMetrics := reg\<rparr>)"
      using o by (intro refs_ok_shape [OF Cons.prems]) simp_all
    from Cons.IH [OF this] show ?thesis using True r o by simp
  qed
qed

lemma prune_loop_returns:
  fixes w :: "'o mgr"
  shows "refs_ok w \<Longrightarrow> \<exists>x w'. prune_loop E has live now xs n skipped w = (Return x, w') \<and> refs_ok w'"
proof (induction xs arbitrary: n skipped w)
  case Nil
  then show ?case by simp
next
  case (Cons y ys)
  obtain d st where d: "DeleteWorker E (wName y) (sysExt w) = (d, st)" by (metis surj_pair)
  obtain reg where reg: "CounterVec_Inc (prunedTotal (sysCleanup w)) [] (sysMetrics w) = Return reg" "shape reg = shape (sysMetrics w)"
    using vec_calls_return(2) [of "prunedTotal (sysCleanup w)" 0 "sysMetrics w" "[]"] Cons.prems by (auto simp: refs_ok_def)
  have keep: "refs_ok (w\<lparr>sysExt := st\<rparr>)" "refs_ok (w\<lparr>sysExt := st, sysMetrics := reg\<rparr>)"
    "refs_ok (w\<lparr>sysCleanup := log_skip (wName y) skip (sysCleanup w)\<rparr>)" for skip
    using reg(2) by (intro refs_ok_shape [OF Cons.prems]; simp add: log_skip_def)+
  show ?case
    using Cons.IH [OF Cons.prems] Cons.IH [OF keep(1)] Cons.IH [OF keep(2)] Cons.IH [OF keep(3)] d reg(1)
    by (cases d) (simp_all add: Let_def)
qed

subsection \<open>Sweeps return\<close>

lemma mgr_fields_get [simp]: "state_Get E w = (r, w') \<Longrightarrow> mMonitor w' = mMonitor w" for w :: "'o mgr"
  using state_Get_msys [of E w] by auto

lemma recompute_refs [simp]: "refs_ok (recomputeScaleSetShares E w) = refs_ok w"
  by (simp add: refs_ok_def recompute_frame)

interpretation refs_job: job_inv E refs_ok "mgr_hooks E" for E :: "'o env"
proof unfold_locales
  show "refs_ok w'" if "refs_ok w" "state_Get E w = (r, w')" for w r w'
    using that state_Get_msys [of E w] by (auto simp: refs_ok_def)
qed (auto simp: mgr_hooks_def refs_ok_def state_Invalidate_def MarkForDeletion_def recompute_frame)

lemma Observe_refs:
  "Observe ss ws l rc rm m reg = Return (logs, m', reg') \<Longrightarrow> mExcluded m' = mExcluded m \<and> mEligible m' = mEligible m"
  by (auto simp: Observe_def Let_def split: outcome.splits prod.splits)

lemma observe_sets_refs:
  "observe_sets sss ws w = (r, w') \<Longrightarrow>
    mExcluded (mMonitor w') = mExcluded (mMonitor w) \<and> mEligible (mMonitor w') = mEligible (mMonitor w)"
proof (induction sss arbitrary: w)
  case Nil
  then show ?case by simp
next
  case (Cons ss sss)
  obtain cpu mem where a: "AutoSizeReserves (asReserveCPU (vcAutoSize (ssVM ss))) (asReserveMemoryMiB (vcAutoSize (ssVM ss))) = (cpu, mem)"
    by (metis surj_pair)
  show ?case
  proof (cases "asEnabled (vcAutoSize (ssVM ss))")
    case False
    then show ?thesis using Cons by simp
  next
    case True
    show ?thesis
    proof (cases "Observe (ssName ss) ws (vcLabels (ssVM ss)) cpu mem (mMonitor w) (sysMetrics w)")
      case (Return x)
      obtain logs m reg where x: "x = (logs, m, reg)" by (rule prod_cases3)
      have "observe_sets sss ws (w\<lparr>mMonitor := m, sysMetrics := reg\<rparr>) = (r, w')"
        using Cons.prems True a Return x by simp
      from Cons.IH [OF this] show ?thesis using Observe_refs [OF Return [unfolded x]] by simp
    next
      case Panic
      then show ?thesis using Cons.prems True a by simp
    qed
  qed
qed

interpretation mon_sweep: sweep_inv E "\<lambda>w. mExcluded (mMonitor w) = a \<and> mEligible (mMonitor w) = b" "mgr_wiring E cfg gh"
  for E :: "'o env" and a b and cfg :: Config and gh :: "'o gh_client option"
proof unfold_locales
  let ?I = "\<lambda>w. mExcluded (mMonitor w) = a \<and> mEligible (mMonitor w) = b"
  show "?I (callback (mgr_wiring E cfg gh) cb ws w)" if "?I w" for w cb ws
    using that by (cases cb) (simp add: mgr_wiring_def recompute_frame)
  show "?I w'" if "?I w" "onSweep (mgr_wiring E cfg gh) = Some gn" "gn ws w = (r, w')" for w gn ws r w'
    using that observe_sets_refs [of "ScaleSets cfg" ws w r w'] by (auto simp: mgr_wiring_def observeAutoSizeEligibility_def)
qed (auto simp: mgr_wiring_def purge_everywhere_def recompute_frame state_Invalidate_def)

lemma list_not_silent: "listVMsAndWorkers E w \<noteq> ((None, None), w1)"
proof
  assume l: "listVMsAndWorkers E w = ((None, None), w1)"
  show False
  proof (cases "sysView w")
    case None
    then show ?thesis using l by (auto simp: listVMsAndWorkers_def split: prod.splits sum.splits)
  next
    case (Some v)
    obtain q v' st where q: "Get E v (sysExt w) = (q, v', st)" by (rule prod_cases3)
    obtain x e where "q = (x, e)" by (cases q)
    then have g: "Get E v (sysExt w) = ((x, e), v', st)" using q by simp
    then have xe: "x = None" "e = None" using l Some by (auto simp: listVMsAndWorkers_def state_Get_def split: option.splits)
    show False using view.get_none [OF g [unfolded xe]] by simp
  qed
qed

lemma refs_ok_sel [simp]:
  "refs_ok (w\<lparr>sysExt := st\<rparr>) = refs_ok w" "refs_ok (state_Invalidate w) = refs_ok w"
  "refs_ok (w\<lparr>sysCleanup := (sysCleanup w)\<lparr>pruneSkipLogged := p\<rparr>\<rparr>) = refs_ok w"
  by (simp_all add: refs_ok_def state_Invalidate_def)

lemma sweep_prune_returns:
  fixes w :: "'o mgr"
  assumes "refs_ok w"
  shows "\<exists>w'. sweep_prune E sw live w = (Return (), w') \<and> refs_ok w'"
proof -
  obtain x sk w1 where p: "prune_loop E (count_by_worker (stVMs sw)) live (stFetchedAt sw) (stAll sw) 0 {||} w = (Return (x, sk), w1)"
    "refs_ok w1" using prune_loop_returns [OF assms] by (metis surj_pair)
  have "\<exists>n w'. pruneOfflineWorkers E (stVMs sw) (stAll sw) live (stFetchedAt sw) w = (Return n, w') \<and> refs_ok w'"
    using p assms by (simp add: pruneOfflineWorkers_def)
  then obtain n w' where "pruneOfflineWorkers E (stVMs sw) (stAll sw) live (stFetchedAt sw) w = (Return n, w')" "refs_ok w'"
    by blast
  then show ?thesis using assms by (simp add: sweep_prune_def)
qed

lemma sweep_returns:
  fixes w :: "'o mgr"
  assumes w: "refs_ok w"
  shows "\<exists>w'. sweep E (mgr_wiring E cfg gh) w = (Return (), w') \<and> refs_ok w'"
proof -
  let ?K = "mgr_wiring E cfg gh" and ?m = "mMonitor w"
  obtain osw err w1 where l: "listVMsAndWorkers E w = ((osw, err), w1)" by (metis surj_pair)
  have mon1: "mExcluded (mMonitor w1) = mExcluded ?m \<and> mEligible (mMonitor w1) = mEligible ?m"
    using mon_sweep.list_inv [OF l] by simp
  note fr1 = listVMsAndWorkers_frame [OF l]
  have met1: "sysMetrics w1 = sysMetrics w" using listVMsAndWorkers_msys [of E w] l by auto
  have w1: "refs_ok w1" using mon1 fr1 met1 by (intro refs_ok_shape [OF w]) simp_all
  show ?thesis
  proof (cases err)
    case (Some e)
    then show ?thesis using l w1 by (auto simp: sweep_def split: option.split)
  next
    case None
    then obtain sw where sw: "osw = Some sw" using l list_not_silent [of E w w1] by (cases osw) auto
    obtain now st where n: "time_Now E (sysExt w1) = (now, st)" by (metis surj_pair)
    let ?live = "fset_of_list (map wName (stLive sw))"
    obtain t w2 where s: "sweep_loop E ?K ?live now (stVMs sw)
        \<lparr>managedCount = 0, deleted = 0, orphaned = 0, seen = {||}\<rparr> (w1\<lparr>sysExt := st\<rparr>) = (t, w2)"
      by (metis surj_pair)
    have mon2: "mExcluded (mMonitor w2) = mExcluded ?m \<and> mEligible (mMonitor w2) = mEligible ?m"
      using mon_sweep.sweep_loop_inv [OF s] mon1 by simp
    have w2: "refs_ok w2"
      using mgr_sweep.sweep_loop_frame [OF s] mon2 mon1 by (intro refs_ok_shape [OF w1]) auto
    let ?w3 = "sweep_reconcile ?K sw t w2"
    have fr3: "prunedTotal (sysCleanup ?w3) = prunedTotal (sysCleanup w2)" "sysMetrics ?w3 = sysMetrics w2"
      by (simp_all add: sweep_reconcile_def Let_def mgr_sweep.pushMax_frame retainPendingDeletes_def state_Invalidate_def)
    have w3: "refs_ok ?w3"
      using fr3 mon_sweep.reconcile_inv [OF mon2] mon2 by (intro refs_ok_shape [OF w2]) simp_all
    obtain w4 where p: "sweep_prune E sw ?live ?w3 = (Return (), w4)" "refs_ok w4"
      using sweep_prune_returns [OF w3] by blast
    have "sweep E ?K w = sweep_finish E ?K sw ?live t w2"
      using l None sw n s by (simp add: sweep_def Let_def)
    then show ?thesis
      using p observe_sets_returns [OF p(2)]
      by (simp add: sweep_finish_def mgr_wiring_def observeAutoSizeEligibility_def)
  qed
qed

subsection \<open>The loop\<close>

text \<open>Specification of \<open>Cleanup_Run\<close>: the state before its \<open>n\<close>-th wait.\<close>

primrec loop_state :: "'o env \<Rightarrow> Config \<Rightarrow> 'o gh_client option \<Rightarrow> ('o mgr \<Rightarrow> bool \<times> 'o mgr) \<Rightarrow> nat \<Rightarrow> 'o mgr \<Rightarrow> 'o mgr" where
  "loop_state E cfg rem wait 0 w = w"
| "loop_state E cfg rem wait (Suc n) w = loop_state E cfg rem wait n (snd (on_tick E cfg rem (snd (wait w))))"

lemma Cleanup_Run_unfold:
  assumes "\<exists>w2. on_tick E cfg rem (snd (wait w)) = (Return (), w2)"
  shows "Cleanup_Run E (mgr_wiring E cfg rem) wait w =
    (if fst (wait w) then Some (Return (), snd (wait w))
     else Cleanup_Run E (mgr_wiring E cfg rem) wait (loop_state E cfg rem wait 1 w))"
  using assms by (subst Cleanup_Run.simps) (auto simp: on_tick_def split: prod.split)

lemma Cleanup_Run_over: "fst (wait w) \<Longrightarrow> Cleanup_Run E K wait w = Some (Return (), snd (wait w))"
  by (cases "wait w") (simp add: Cleanup_Run.simps [of E K wait w])

lemma Cleanup_Run_exact:
  assumes wait: "\<And>w. refs_ok w \<Longrightarrow> refs_ok (snd (wait w))" and w: "refs_ok w"
    and before: "\<forall>m<n. \<not> fst (wait (loop_state E cfg rem wait m w))"
  shows "Cleanup_Run E (mgr_wiring E cfg rem) wait w =
      Cleanup_Run E (mgr_wiring E cfg rem) wait (loop_state E cfg rem wait n w) \<and>
    refs_ok (loop_state E cfg rem wait n w)"
  using w before
proof (induction n arbitrary: w)
  case (Suc n)
  obtain w2 where t: "on_tick E cfg rem (snd (wait w)) = (Return (), w2)" "refs_ok w2"
    using sweep_returns [OF wait [OF Suc.prems(1)], of E cfg rem] by (auto simp: on_tick_def)
  have "\<not> fst (wait (loop_state E cfg rem wait m w2))" if "m < n" for m
    using spec [OF Suc.prems(2), of "Suc m"] that t(1) by simp
  then have "\<forall>m<n. \<not> fst (wait (loop_state E cfg rem wait m w2))" by blast
  from Suc.IH [OF t(2) this] show ?case
    using Cleanup_Run_unfold [of E cfg rem wait w] t(1) Suc.prems(2) by (auto dest!: spec [of _ 0])
qed simp

lemma Cleanup_Run_some:
  assumes run: "Cleanup_Run E (mgr_wiring E cfg rem) wait w = Some y"
    and wait: "\<And>w. refs_ok w \<Longrightarrow> refs_ok (snd (wait w))" and w: "refs_ok w"
  shows "\<exists>n. fst (wait (loop_state E cfg rem wait n w))"
proof -
  let ?P = "\<lambda>E' K' wait' w y. E' = E \<longrightarrow> K' = mgr_wiring E cfg rem \<longrightarrow> wait' = wait \<longrightarrow> refs_ok w \<longrightarrow>
    (\<exists>n. fst (wait (loop_state E cfg rem wait n w)))"
  have "?P E (mgr_wiring E cfg rem) wait w y"
  proof (rule Cleanup_Run.raw_induct [OF _ run, where P = ?P], intro impI)
    fix f E' K' wait' y and w :: "'a mgr"
    assume IH: "\<And>E' K' wait' w y. f E' K' wait' w = Some y \<Longrightarrow> ?P E' K' wait' w y"
      and step: "(case wait' w of (over, w1) \<Rightarrow> if over then Some (Return (), w1)
          else case sweep E' K' w1 of (r, w2) \<Rightarrow> if r = Panic then Some (Panic, w2) else f E' K' wait' w2) = Some y"
      and eqs: "E' = E" "K' = mgr_wiring E cfg rem" "wait' = wait" and ok: "refs_ok w"
    obtain w2 where t: "sweep E (mgr_wiring E cfg rem) (snd (wait w)) = (Return (), w2)" "refs_ok w2"
      using sweep_returns [OF wait [OF ok], of E cfg rem] by blast
    show "\<exists>n. fst (wait (loop_state E cfg rem wait n w))"
    proof (cases "fst (wait w)")
      case True
      then show ?thesis by (intro exI [of _ 0]) simp
    next
      case False
      then have "f E (mgr_wiring E cfg rem) wait w2 = Some y"
        using step t(1) unfolding eqs by (simp split: prod.splits)
      then obtain n where "fst (wait (loop_state E cfg rem wait n w2))" using IH t(2) by blast
      then show ?thesis using t(1) by (intro exI [of _ "Suc n"]) (simp add: on_tick_def)
    qed
  qed
  then show ?thesis using w by simp
qed

subsection \<open>Every step\<close>

lemma refs_put [simp]: "refs_ok (put_bridge i b w) = refs_ok w"
  by (simp add: refs_ok_def put_bridge_def)

lemma started_refs:
  assumes "Run_setup E out fns cfg (New E fns cfg reg st) = (r, w)"
  shows "ScaleSets cfg = [] \<or> refs_ok w"
proof (cases reg)
  case None
  then show ?thesis using assms
    by (auto simp: Run_setup_def New_def Let_def NewEligibilityMonitor_def NewGaugeVec_def SetMetrics_def
        NewCounterVec_def configure_cleanup_def SetWorkerPruneAfter_def refs_ok_def ref_ok_def split: prod.splits)
next
  case (Some rs)
  then show ?thesis using assms
    by (auto simp: Run_setup_def New_def Let_def NewEligibilityMonitor_def NewGaugeVec_def SetMetrics_def
        NewCounterVec_def register_def refs_ok_def ref_ok_def nth_append split: prod.splits)
qed

lemma mgr_step_refs:
  assumes "mgr_step E gh cfg rem B N w w'" and w: "refs_ok w"
  shows "refs_ok w'"
  using assms(1)
proof cases
  case (step_desired i count r)
  then show ?thesis using w by (auto simp: on_desired_def split: prod.splits dest: refs_job.desired_inv)
next
  case (step_started i name r1)
  then show ?thesis using w by (auto simp: on_started_def HandleJobStarted_def)
next
  case (step_completed i name rid r2)
  then show ?thesis using w by (auto simp: on_completed_def split: prod.splits dest: refs_job.completed_inv)
next
  case (step_tick r3)
  then show ?thesis using sweep_returns [OF w, of E cfg rem] by (auto simp: on_tick_def)
next
  case (step_adopt m name sid vmc static)
  let ?b = "NewBridge name sid vmc"
  let ?w1 = "w\<lparr>mHandles := mHandles w @ [\<lparr>hBridge = ?b, hMaxRunners = m, hStaticMaxRunners = static\<rparr>]\<rparr>"
  obtain q b' w2 where h: "HydrateFromOrchard E ?b ?w1 = (q, b', w2)" by (rule prod_cases3)
  have "refs_ok w2" using refs_job.hydrate_inv [OF h] w by (simp add: refs_ok_def)
  then have "refs_ok (w2\<lparr>mHandles := hs\<rparr>)" "refs_ok (w2\<lparr>mHandles := hs, sysCap := c\<rparr>)" for hs c
    by (simp_all add: refs_ok_def)
  then show ?thesis unfolding step_adopt(1) adopt_handle_def Let_def h
    by (simp split: prod.split)
next
  case (step_world st)
  then show ?thesis using w by simp
qed

lemma reach_refs:
  assumes "mgr_reach E gh cfg rem B N w0 k w" and "refs_ok w0"
  shows "refs_ok w"
  using assms
proof (induction rule: mgr_reach.induct)
  case (reach_step k w w')
  then show ?case by (blast intro: mgr_step_refs)
qed

subsection \<open>Properties\<close>

text \<open>C14. No sweep panics: from the state \<open>New\<close> and \<open>Run\<close> set up, after any number of events of any
  kind and whatever Orchard and GitHub answer, the cleanup tick returns. (Panics of the Orchard
  client while one VM is processed are caught by \<open>processVM\<close>; a metrics vector is never called with a
  wrong number of labels, and the view never returns neither a snapshot nor an error.)\<close>

theorem reachable_sweep_returns:
  assumes "ScaleSets cfg \<noteq> []"
    and "Run_setup E out fns cfg (New E fns cfg reg st) = (Return rem, w0)"
    and "mgr_reach E gh cfg rem B N w0 k w"
  shows "\<exists>w'. on_tick E cfg rem w = (Return (), w') \<and> refs_ok w'"
  using sweep_returns [OF reach_refs [OF assms(3)]] started_refs [OF assms(2)] assms(1)
  by (simp add: on_tick_def)

theorem reachable_sweep_returns_witness:
  "\<exists>w'. on_tick ex_bounded (ex_config [] []) None ex_joined = (Return (), w')"
  using reachable_sweep_returns [OF _ ex_running_setup ex_reach_one] by auto

text \<open>C15. The cleanup goroutine runs as long as the process and no longer: started from any reachable
  state, with any events between its ticks, \<open>Cleanup.Run\<close> never panics; it returns exactly when at
  some tick the wait finds the context done, and then it has swept once per earlier tick.\<close>

theorem cleanup_loop_runs_until_cancelled:
  assumes "ScaleSets cfg \<noteq> []"
    and "Run_setup E out fns cfg (New E fns cfg reg st) = (Return rem, w0)"
    and "mgr_reach E gh cfg rem B N w0 k w"
    and "\<And>v. \<exists>j. mgr_reach E gh cfg rem B N v j (snd (wait v))"
  shows "Cleanup_Run E (mgr_wiring E cfg rem) wait w =
    (if \<exists>n. fst (wait (loop_state E cfg rem wait n w))
     then Some (Return (), snd (wait (loop_state E cfg rem wait (LEAST n. fst (wait (loop_state E cfg rem wait n w))) w)))
     else None)"
proof -
  have w: "refs_ok w" using reach_refs [OF assms(3)] started_refs [OF assms(2)] assms(1) by blast
  have ws: "refs_ok (snd (wait v))" if "refs_ok v" for v using assms(4) [of v] reach_refs that by blast
  show ?thesis
  proof (cases "\<exists>n. fst (wait (loop_state E cfg rem wait n w))")
    case True
    let ?n = "LEAST n. fst (wait (loop_state E cfg rem wait n w))"
    have n: "fst (wait (loop_state E cfg rem wait ?n w))" using True by (rule LeastI_ex)
    have "\<forall>m<?n. \<not> fst (wait (loop_state E cfg rem wait m w))" using not_less_Least by blast
    from Cleanup_Run_exact [OF ws w this] have "Cleanup_Run E (mgr_wiring E cfg rem) wait w =
        Cleanup_Run E (mgr_wiring E cfg rem) wait (loop_state E cfg rem wait ?n w)" by blast
    also have "\<dots> = Some (Return (), snd (wait (loop_state E cfg rem wait ?n w)))"
      by (rule Cleanup_Run_over [where wait = wait, OF n])
    finally show ?thesis using True by simp
  next
    case False
    then have "Cleanup_Run E (mgr_wiring E cfg rem) wait w = None"
      using Cleanup_Run_some [OF _ ws w] by (meson not_Some_eq)
    then show ?thesis using False by simp
  qed
qed

theorem cleanup_loop_runs_until_cancelled_witness:
  "Cleanup_Run ex_bounded (mgr_wiring ex_bounded (ex_config [] []) None) (\<lambda>w. (True, w)) ex_joined =
     Some (Return (), ex_joined) \<and>
   Cleanup_Run ex_bounded (mgr_wiring ex_bounded (ex_config [] []) None) (\<lambda>w. (False, w)) ex_joined = None"
proof -
  have idle: "\<exists>j. mgr_reach ex_bounded ex_gh (ex_config [] []) None 5 1 v j (snd (b, v))" for b v
    by (auto intro: reach_start)
  show ?thesis
    using cleanup_loop_runs_until_cancelled [OF _ ex_running_setup ex_reach_one, of "\<lambda>w. (True, w)"]
      cleanup_loop_runs_until_cancelled [OF _ ex_running_setup ex_reach_one, of "\<lambda>w. (False, w)"] idle
    by simp
qed

end
