(* ===== verification/Metrics_Text.thy ===== *)
theory Metrics_Text
  imports Metrics_Model
begin

text \<open>
  What a scraper reads from \<^verbatim>\<open>/metrics\<close>. \<open>read_text\<close> is a reader of the Prometheus text format,
  written from the format and not from \<open>WriteText\<close>: it splits the text into lines, skips comments, and
  reads a sample's name, its quoted label values with their escapes, and its value. Shown: reading
  what \<open>WriteText\<close> writes gives back exactly the series of the registry, in its order, whatever the
  label values and help texts contain.
\<close>

type_synonym sample = "string \<times> (string \<times> string) list \<times> string"

fun split_lines :: "string \<Rightarrow> string \<Rightarrow> string list" where
  "split_lines l [] = (if l = [] then [] else [l])"
| "split_lines l (c # s) = (if c = newline then l # split_lines [] s else split_lines (l @ [c]) s)"

fun read_quoted :: "string \<Rightarrow> (string \<times> string) option" where
  "read_quoted [] = None"
| "read_quoted (c # s) =
     (if c = CHR 0x22 then Some ([], s)
      else if c \<noteq> CHR 0x5C then map_option (map_prod ((#) c) id) (read_quoted s)
      else case s of
        [] \<Rightarrow> None
      | d # s' \<Rightarrow> map_option (map_prod ((#) (if d = CHR ''n'' then newline else d)) id) (read_quoted s'))"

lemma read_quoted_length: "read_quoted s = Some (v, r) \<Longrightarrow> length r < length s"
  by (induction s arbitrary: v r rule: read_quoted.induct) (fastforce split: if_splits list.splits)+

function read_labels :: "string \<Rightarrow> ((string \<times> string) list \<times> string) option" where
  "read_labels s =
     (case dropWhile (\<lambda>c. c \<noteq> CHR ''='') s of
        e # q # r \<Rightarrow>
          if q \<noteq> CHR 0x22 then None
          else (case read_quoted r of
             Some (v, c # r') \<Rightarrow>
               let p = (takeWhile (\<lambda>c. c \<noteq> CHR ''='') s, v) in
               if c = CHR ''}'' then Some ([p], r')
               else if c = CHR '','' then map_option (map_prod ((#) p) id) (read_labels r')
               else None
           | _ \<Rightarrow> None)
      | _ \<Rightarrow> None)"
  by pat_completeness auto

termination read_labels
proof (relation "measure length", goal_cases)
  case (2 s e q' q r v x c r')
  have "length (dropWhile (\<lambda>c. c \<noteq> CHR ''='') s) \<le> length s" by (rule length_dropWhile_le)
  then show ?case using 2 read_quoted_length by fastforce
qed simp

declare read_labels.simps [simp del]

definition read_sample :: "string \<Rightarrow> sample option" where
  "read_sample s =
     (let name = takeWhile (\<lambda>c. c \<noteq> CHR ''{'' \<and> c \<noteq> CHR '' '') s in
      case drop (length name) s of
        [] \<Rightarrow> None
      | c # r \<Rightarrow>
          if c = CHR '' '' then Some (name, [], r)
          else case read_labels r of
            Some (ls, d # value) \<Rightarrow> if d = CHR '' '' then Some (name, ls, value) else None
          | _ \<Rightarrow> None)"

definition read_text :: "string \<Rightarrow> sample option list" where
  "read_text t = map read_sample (filter (\<lambda>l. l \<noteq> [] \<and> hd l \<noteq> CHR ''#'') (split_lines [] t))"

text \<open>The series a registry holds, in the order of the text; names as the format allows them.\<close>

definition vec_samples :: "vec \<Rightarrow> sample list" where
  "vec_samples v =
     map (\<lambda>k. let s = the (fmlookup (vecSeries v) k) in
            (vecName v, zip (vecLabelNames v) (serLabelValues s), format_g (serValue s)))
       (sorted_list_of_fset (fmdom (vecSeries v)))"

definition plain_name :: "string \<Rightarrow> bool" where
  "plain_name n \<longleftrightarrow> n \<noteq> [] \<and> (\<forall>c\<in>set n. c \<notin> {CHR ''#'', CHR ''{'', CHR '' '', CHR ''='', newline})"

definition names_ok :: "vec \<Rightarrow> bool" where
  "names_ok v \<longleftrightarrow> plain_name (vecName v) \<and> newline \<notin> set (vecKind v) \<and> (\<forall>n\<in>set (vecLabelNames v). plain_name n)"

subsection \<open>Lines\<close>

lemma split_lines_line: "newline \<notin> set l \<Longrightarrow> split_lines a (l @ newline # s) = (a @ l) # split_lines [] s"
  by (induction l arbitrary: a) auto

lemma split_lines_concat:
  "\<forall>l\<in>set ls. newline \<notin> set l \<Longrightarrow> split_lines [] (concat (map (\<lambda>l. l @ [newline]) ls)) = ls"
  by (induction ls) (simp_all add: split_lines_line)

lemma concat_outcomes_map: "concat_outcomes (map Return xs) = Return (concat xs)"
  by (induction xs) simp_all

subsection \<open>Label values\<close>

lemma read_quoted_escape: "read_quoted (escapeLabelValue v @ CHR 0x22 # r) = Some (v, r)"
  by (induction v) (simp_all add: escapeLabelValue_simps newline_def)

lemma takeWhile_name: "c \<notin> set n \<Longrightarrow> takeWhile (\<lambda>x. x \<noteq> c) (n @ c # s) = n \<and> dropWhile (\<lambda>x. x \<noteq> c) (n @ c # s) = c # s"
  by (induction n) auto

lemma read_label_pairs:
  assumes "\<forall>n\<in>set (ln # lns). plain_name n" and "i + length (ln # lns) \<le> length vs"
  shows "\<exists>u. label_pairs i (ln # lns) vs = Return ((if 0 < i then '','' else []) @ u) \<and>
    read_labels (u @ ''}'' @ r) = Some (zip (ln # lns) (drop i vs), r)"
  using assms
proof (induction lns arbitrary: ln i)
  case Nil
  let ?u = "ln @ [CHR ''='', CHR 0x22] @ escapeLabelValue (vs ! i) @ [CHR 0x22]"
  have "CHR ''='' \<notin> set ln" using Nil by (auto simp: plain_name_def)
  note t = takeWhile_name [OF this, of "CHR 0x22 # escapeLabelValue (vs ! i) @ CHR 0x22 # CHR ''}'' # r"]
  have d: "drop i vs = vs ! i # drop (Suc i) vs" using Nil by (simp add: Cons_nth_drop_Suc)
  show ?case using Nil t d
    by (intro exI [of _ ?u]) (simp add: read_labels.simps [of "ln @ _"] read_quoted_escape)
next
  case (Cons ln' lns)
  obtain u where u: "label_pairs (Suc i) (ln' # lns) vs = Return ('','' @ u)"
    "read_labels (u @ ''}'' @ r) = Some (zip (ln' # lns) (drop (Suc i) vs), r)"
    using Cons.IH [of ln' "Suc i"] Cons.prems by auto
  let ?u = "ln @ [CHR ''='', CHR 0x22] @ escapeLabelValue (vs ! i) @ [CHR 0x22] @ '','' @ u"
  have "CHR ''='' \<notin> set ln" using Cons by (auto simp: plain_name_def)
  note t = takeWhile_name [OF this, of "CHR 0x22 # escapeLabelValue (vs ! i) @ CHR 0x22 # CHR '','' # u @ CHR ''}'' # r"]
  have d: "drop i vs = vs ! i # drop (Suc i) vs" using Cons by (simp add: Cons_nth_drop_Suc)
  have "label_pairs i (ln # ln' # lns) vs = Return ((if 0 < i then '','' else []) @ ?u)"
    using Cons.prems u(1) by (subst label_pairs.simps) (simp del: label_pairs.simps)
  moreover have "read_labels (?u @ ''}'' @ r) = Some (zip (ln # ln' # lns) (drop i vs), r)"
    using t d u(2) by (simp add: read_labels.simps [of "ln @ _"] read_quoted_escape)
  ultimately show ?case by blast
qed

lemma escape_no_newline: "newline \<notin> set (escapeLabelValue v)" "newline \<notin> set (escapeHelp v)"
proof -
  show "newline \<notin> set (escapeLabelValue v)" by (induction v) (simp_all add: escapeLabelValue_simps newline_def)
  show "newline \<notin> set (escapeHelp v)" by (auto simp: escapeHelp_def newline_def split: if_splits)
qed

lemma label_pairs_newline:
  assumes "\<forall>n\<in>set lns. newline \<notin> set n" and "label_pairs i lns vs = Return t"
  shows "newline \<notin> set t"
  using assms
proof (induction lns arbitrary: i t)
  case (Cons ln lns)
  obtain rest where "label_pairs (Suc i) lns vs = Return rest" using Cons.prems(2)
    by (auto split: if_splits outcome.splits)
  with Cons show ?case by (auto simp: escape_no_newline [unfolded newline_def] newline_def split: if_splits)
qed simp

subsection \<open>Samples\<close>

lemma dec_nat_digits: "set (dec_nat n) \<subseteq> char_of ` {48..<58::nat}"
proof (induction n rule: dec_nat.induct)
  case (1 n)
  show ?case
  proof (cases "n < 10")
    case True
    then show ?thesis by (subst dec_nat.simps) auto
  next
    case False
    have "char_of (48 + n mod 10) \<in> (char_of ` {48..<58::nat} :: char set)" by (intro imageI) simp
    then show ?thesis using 1 False by (subst dec_nat.simps) simp
  qed
qed

lemma newline_digit: "newline \<notin> char_of ` {48..<58::nat}"
proof
  assume "newline \<in> char_of ` {48..<58::nat}"
  then obtain k :: nat where k: "48 \<le> k" "k < 58" "newline = char_of k" by auto
  have "of_char newline = (of_char (char_of k :: char) :: nat)" using k(3) by simp
  then show False using k(1,2) by (simp add: newline_def)
qed

lemma format_g_newline: "newline \<notin> set (format_g v)"
proof -
  have d: "newline \<notin> set (dec_nat n)" for n using dec_nat_digits newline_digit by blast
  have m: "newline \<notin> set (trim_right CHR ''0'' (dec_nat n))" for n using d set_trim_right by blast
  have h: "newline \<noteq> hd (trim_right CHR ''0'' (dec_nat n)) \<and> newline \<notin> set (tl (trim_right CHR ''0'' (dec_nat n)))"
    if "\<not> length (trim_right CHR ''0'' (dec_nat n)) \<le> 1" for n
    using m [of n] that by (cases "trim_right CHR ''0'' (dec_nat n)") auto
  show ?thesis unfolding format_g_def Let_def using d m h by (auto simp: newline_def)
qed

lemma take_name:
  assumes "plain_name n" and "c = CHR ''{'' \<or> c = CHR '' ''"
  shows "takeWhile (\<lambda>c. c \<noteq> CHR ''{'' \<and> c \<noteq> CHR '' '') (n @ c # s) = n"
  using assms by (subst takeWhile_append2) (auto simp: plain_name_def)

lemma plain_newline: "plain_name n \<Longrightarrow> newline \<notin> set n" "plain_name n \<Longrightarrow> n \<noteq> []" "plain_name n \<Longrightarrow> hd n \<noteq> CHR ''#''"
  by (auto simp: plain_name_def)

lemma series_line_reads:
  assumes "names_ok v" and "length (serLabelValues s) = length (vecLabelNames v)"
  obtains l where "series_line v s = Return (l @ [newline])" and "newline \<notin> set l" and "l \<noteq> []"
    and "hd l \<noteq> CHR ''#''"
    and "read_sample l = Some (vecName v, zip (vecLabelNames v) (serLabelValues s), format_g (serValue s))"
proof (cases "vecLabelNames v")
  case Nil
  let ?l = "vecName v @ CHR '' '' # format_g (serValue s)"
  have n: "plain_name (vecName v)" using assms(1) by (simp add: names_ok_def)
  show thesis
  proof (rule that [of ?l])
    show "read_sample ?l = Some (vecName v, zip (vecLabelNames v) (serLabelValues s), format_g (serValue s))"
      using Nil by (simp add: read_sample_def take_name [OF n] Let_def)
  qed (use Nil n plain_newline [OF n] format_g_newline in \<open>auto simp: series_line_def newline_def\<close>)
next
  case (Cons ln lns)
  have n: "plain_name (vecName v)" and ns: "\<forall>n\<in>set (ln # lns). plain_name n"
    using assms(1) Cons by (simp_all add: names_ok_def)
  obtain u where u: "label_pairs 0 (ln # lns) (serLabelValues s) = Return u"
    "read_labels (u @ ''}'' @ '' '' @ format_g (serValue s)) =
      Some (zip (ln # lns) (serLabelValues s), '' '' @ format_g (serValue s))"
    using read_label_pairs [OF ns, of 0 "serLabelValues s" "'' '' @ format_g (serValue s)"] assms(2) Cons by auto
  have nl: "newline \<notin> set u" using label_pairs_newline [OF _ u(1)] ns plain_newline(1) by blast
  let ?l = "vecName v @ CHR ''{'' # u @ ''}'' @ '' '' @ format_g (serValue s)"
  show thesis
  proof (rule that [of ?l])
    show "read_sample ?l = Some (vecName v, zip (vecLabelNames v) (serLabelValues s), format_g (serValue s))"
      using Cons u(2) by (simp add: read_sample_def take_name [OF n] Let_def)
  qed (use Cons n u(1) nl plain_newline [OF n] format_g_newline in \<open>auto simp: series_line_def newline_def\<close>)
qed

lemma vec_text_lines:
  assumes "vec_ok v" and "names_ok v"
  obtains ls where "vec_text v = Return (concat (map (\<lambda>l. l @ [newline]) ls))" and "\<forall>l\<in>set ls. newline \<notin> set l"
    and "map read_sample (filter (\<lambda>l. l \<noteq> [] \<and> hd l \<noteq> CHR ''#'') ls) = map Some (vec_samples v)"
proof -
  let ?ks = "sorted_list_of_fset (fmdom (vecSeries v))" and ?s = "\<lambda>k. the (fmlookup (vecSeries v) k)"
  let ?P = "\<lambda>k l. series_line v (?s k) = Return (l @ [newline]) \<and> newline \<notin> set l \<and> l \<noteq> [] \<and> hd l \<noteq> CHR ''#'' \<and>
    read_sample l = Some (vecName v, zip (vecLabelNames v) (serLabelValues (?s k)), format_g (serValue (?s k)))"
  have "\<exists>l. ?P k l" if "k \<in> set ?ks" for k
  proof -
    from that obtain s where "fmlookup (vecSeries v) k = Some s" by (auto elim!: fmdomE)
    then have "length (serLabelValues (?s k)) = length (vecLabelNames v)" using assms(1) by (simp add: vec_ok_def)
    from series_line_reads [OF assms(2) this] show ?thesis by metis
  qed
  then obtain f where f: "\<forall>k\<in>set ?ks. ?P k (f k)" by metis
  let ?h = "''# HELP '' @ vecName v @ '' '' @ escapeHelp (vecHelp v)"
  let ?t = "''# TYPE '' @ vecName v @ '' '' @ vecKind v"
  have n: "newline \<notin> set (vecName v)" "newline \<notin> set (vecKind v)"
    using assms(2) plain_newline(1) by (auto simp: names_ok_def)
  have lines: "map (\<lambda>k. series_line v (?s k)) ?ks = map Return (map (\<lambda>k. f k @ [newline]) ?ks)" using f by simp
  have samples: "map read_sample (filter (\<lambda>l. l \<noteq> [] \<and> hd l \<noteq> CHR ''#'') (map f ?ks)) = map Some (vec_samples v)"
    using f by (subst filter_True) (simp_all add: vec_samples_def Let_def)
  show thesis
  proof (rule that [of "?h # ?t # map f ?ks"])
    show "vec_text v = Return (concat (map (\<lambda>l. l @ [newline]) (?h # ?t # map f ?ks)))"
      unfolding vec_text_def lines
      using concat_outcomes_map [of "(?h @ [newline]) # (?t @ [newline]) # map (\<lambda>k. f k @ [newline]) ?ks"]
      by (simp add: comp_def)
    show "\<forall>l\<in>set (?h # ?t # map f ?ks). newline \<notin> set l"
      using f n escape_no_newline(2) by (auto simp: newline_def)
    show "map read_sample (filter (\<lambda>l. l \<noteq> [] \<and> hd l \<noteq> CHR ''#'') (?h # ?t # map f ?ks)) = map Some (vec_samples v)"
      using samples by simp
  qed
qed

lemma WriteText_lines:
  assumes "\<forall>v\<in>set r. vec_ok v \<and> names_ok v"
  obtains ls where "WriteText r = Return (concat (map (\<lambda>l. l @ [newline]) ls))" and "\<forall>l\<in>set ls. newline \<notin> set l"
    and "map read_sample (filter (\<lambda>l. l \<noteq> [] \<and> hd l \<noteq> CHR ''#'') ls) = map Some (concat (map vec_samples r))"
  using assms
proof (induction r arbitrary: thesis)
  case Nil
  show thesis by (rule Nil(1) [of "[]"]) (simp_all add: WriteText_def)
next
  case (Cons v r)
  obtain ls where ls: "WriteText r = Return (concat (map (\<lambda>l. l @ [newline]) ls))" "\<forall>l\<in>set ls. newline \<notin> set l"
    "map read_sample (filter (\<lambda>l. l \<noteq> [] \<and> hd l \<noteq> CHR ''#'') ls) = map Some (concat (map vec_samples r))"
    using Cons.IH Cons.prems(2) by auto
  have "vec_ok v" "names_ok v" using Cons.prems(2) by simp_all
  then obtain l1 where l1: "vec_text v = Return (concat (map (\<lambda>l. l @ [newline]) l1))" "\<forall>l\<in>set l1. newline \<notin> set l"
    "map read_sample (filter (\<lambda>l. l \<noteq> [] \<and> hd l \<noteq> CHR ''#'') l1) = map Some (vec_samples v)"
    by (rule vec_text_lines)
  show thesis
  proof (rule Cons.prems(1) [of "l1 @ ls"])
    show "WriteText (v # r) = Return (concat (map (\<lambda>l. l @ [newline]) (l1 @ ls)))"
      using ls(1) l1(1) by (simp add: WriteText_def)
    show "\<forall>l\<in>set (l1 @ ls). newline \<notin> set l" using ls(2) l1(2) by (simp only: set_append ball_Un)
    show "map read_sample (filter (\<lambda>l. l \<noteq> [] \<and> hd l \<noteq> CHR ''#'') (l1 @ ls)) = map Some (concat (map vec_samples (v # r)))"
      using ls(3) l1(3) by (simp only: filter_append map_append list.map concat.simps)
  qed
qed

lemma WriteText_reads:
  assumes "\<forall>v\<in>set r. vec_ok v \<and> names_ok v"
  shows "\<exists>t. WriteText r = Return t \<and> read_text t = map Some (concat (map vec_samples r))"
proof -
  obtain ls where "WriteText r = Return (concat (map (\<lambda>l. l @ [newline]) ls))" "\<forall>l\<in>set ls. newline \<notin> set l"
    "map read_sample (filter (\<lambda>l. l \<noteq> [] \<and> hd l \<noteq> CHR ''#'') ls) = map Some (concat (map vec_samples r))"
    using assms by (rule WriteText_lines)
  then show ?thesis by (simp add: read_text_def split_lines_concat)
qed

subsection \<open>Properties\<close>

text \<open>C30. A scrape loses nothing: for a registry whose metric and label names are plain, \<open>WriteText\<close>
  renders, and a reader of the text format gets back exactly the series, vector by vector in key
  order, with the label values and numbers stored, whatever quotes, backslashes, newlines or
  braces the label values and help texts contain.\<close>

theorem WriteText_roundtrip:
  assumes "\<forall>v\<in>set r. vec_ok v \<and> names_ok v"
  shows "\<exists>t. WriteText r = Return t \<and> read_text t = map Some (concat (map vec_samples r))"
  using assms by (rule WriteText_reads)

theorem WriteText_roundtrip_witness:
  "\<exists>v t. GaugeVec_Set (Some 0) 3 [[CHR 0x22, newline, CHR ''}'']] (snd (NewGaugeVec ''up'' ''Up.'' [''worker''] (Some NewRegistry)))
      = Return (Some [v]) \<and>
    WriteText [v] = Return t \<and> read_text t = [Some (''up'', [(''worker'', [CHR 0x22, newline, CHR ''}''])], format_g 3)]"
proof -
  let ?x = "[CHR 0x22, newline, CHR ''}'']"
  let ?v = "\<lparr>vecName = ''up'', vecHelp = ''Up.'', vecKind = ''gauge'', vecLabelNames = [''worker''],
    vecSeries = fmupd ?x \<lparr>serLabelValues = [?x], serValue = 3\<rparr> fmempty\<rparr>"
  have ok: "\<forall>v\<in>set [?v]. vec_ok v \<and> names_ok v"
    by (auto simp: vec_ok_def names_ok_def plain_name_def newline_def split: if_splits)
  have "GaugeVec_Set (Some 0) 3 [?x] (snd (NewGaugeVec ''up'' ''Up.'' [''worker''] (Some NewRegistry))) = Return (Some [?v])"
    by (simp add: GaugeVec_Set_def NewGaugeVec_def register_def NewRegistry_def on_vec_def vec_update_def)
  moreover have "vec_samples ?v = [(''up'', [(''worker'', ?x)], format_g 3)]"
    by (simp add: vec_samples_def sorted_list_of_fset.rep_eq)
  ultimately show ?thesis using WriteText_roundtrip [OF ok] by (intro exI [of _ ?v]) simp
qed

end
