(* ===== verification/Manager_Metrics.thy ===== *)
theory Manager_Metrics
  imports Manager_Safety Metrics_Text
begin

text \<open>
  The registry of the running program: every vector was made by a constructor with plain names and
  is only changed by \<open>Set\<close>, \<open>Inc\<close> and \<open>Delete\<close> (\<open>registry_ok\<close>). With the round trip of \<open>Metrics_Text\<close>,
  a scrape of \<^verbatim>\<open>/metrics\<close> at any moment returns, and reads back as the series the program holds.
\<close>

definition registry_ok :: "registry option \<Rightarrow> bool" where
  "registry_ok ro \<longleftrightarrow> pred_option (list_all (\<lambda>v. vec_ok v \<and> names_ok v)) ro"

lemma registry_ok_simps [simp]: "registry_ok None" "registry_ok (Some NewRegistry)"
  by (simp_all add: registry_ok_def NewRegistry_def)

lemma on_vec_registry:
  assumes "on_vec g fn ro = Return ro'" and ok: "registry_ok ro"
    and fn: "\<And>v v'. fn v = Return v' \<Longrightarrow> vec_ok v \<Longrightarrow> vec_ok v' \<and> names_ok v' = names_ok v"
  shows "registry_ok ro'"
proof (cases "g = None \<or> ro = None")
  case True
  then show ?thesis using assms(1) ok by (auto simp: on_vec_def split: option.splits)
next
  case False
  then obtain i r v where c: "ro = Some r" "fn (r ! i) = Return v" "ro' = Some (r[i := v])"
    using assms(1) by (auto simp: on_vec_def split: outcome.splits)
  show ?thesis
  proof (cases "i < length r")
    case True
    then have "vec_ok (r ! i) \<and> names_ok (r ! i)" using ok c(1) by (simp add: registry_ok_def list_all_length)
    then have "vec_ok v \<and> names_ok v" using fn [OF c(2)] by blast
    then show ?thesis using ok c set_update_subset_insert [of r i v] by (auto simp: registry_ok_def list_all_iff)
  qed (use ok c in \<open>simp add: list_update_beyond\<close>)
qed

lemma vec_update_registry:
  assumes "vec_update ls fn v = Return v'" and "vec_ok v" and "\<And>s. serLabelValues (fn s) = serLabelValues s"
  shows "vec_ok v' \<and> names_ok v' = names_ok v"
  using assms by (auto simp: vec_update_def vec_ok_def names_ok_def Let_def split: if_splits option.splits)

lemma vec_delete_registry: "vec_ok v \<Longrightarrow> vec_ok (vec_delete ls v) \<and> names_ok (vec_delete ls v) = names_ok v"
  by (simp add: vec_delete_ok(1)) (simp add: names_ok_def vec_delete_def)

lemma calls_registry:
  "GaugeVec_Set g x ls ro = Return ro' \<Longrightarrow> registry_ok ro \<Longrightarrow> registry_ok ro'"
  "CounterVec_Inc g ls ro = Return ro' \<Longrightarrow> registry_ok ro \<Longrightarrow> registry_ok ro'"
  "GaugeVec_Delete g ls ro = Return ro' \<Longrightarrow> registry_ok ro \<Longrightarrow> registry_ok ro'"
  unfolding GaugeVec_Set_def CounterVec_Inc_def GaugeVec_Delete_def
  by (erule on_vec_registry; auto dest: vec_update_registry simp: vec_delete_registry)+

lemma constructors_registry:
  assumes "plain_name name" and "list_all plain_name ls" and "registry_ok ro"
  shows "registry_ok (snd (NewGaugeVec name help ls ro))" and "registry_ok (snd (NewCounterVec name help ls ro))"
  using assms
  by (auto simp: NewGaugeVec_def NewCounterVec_def register_def registry_ok_def vec_ok_def names_ok_def
      list_all_iff newline_def split: option.split)

lemma program_names:
  "plain_name ''orchard_gh_bridge_autosize_worker_excluded''" "plain_name ''orchard_gh_bridge_autosize_eligible_workers''"
  "plain_name ''orchard_gh_bridge_workers_pruned_total''" "plain_name ''scale_set''" "plain_name ''worker''"
  "plain_name ''pin_label''" "plain_name ''reason''"
  by (simp_all add: plain_name_def newline_def)

lemma NewEligibilityMonitor_registry: "registry_ok ro \<Longrightarrow> registry_ok (snd (NewEligibilityMonitor ro))"
  using constructors_registry(1) [OF program_names(1), of "[''scale_set'', ''worker'', ''pin_label'', ''reason'']" ro]
    constructors_registry(1) [OF program_names(2), of "[''scale_set'']"]
  by (auto simp: NewEligibilityMonitor_def program_names split: prod.split) (metis snd_conv)

lemma SetMetrics_registry: "registry_ok ro \<Longrightarrow> registry_ok (snd (SetMetrics ro c))"
  using constructors_registry(2) [OF program_names(3), of "[]" ro]
  by (auto simp: SetMetrics_def split: prod.split) (metis snd_conv)

subsection \<open>Observing\<close>

lemma warn_loop_registry:
  "warn_loop g ss prev cur names ro = Return (logs, ro') \<Longrightarrow> registry_ok ro \<Longrightarrow> registry_ok ro'"
proof (induction names arbitrary: ro logs)
  case (Cons n names)
  then show ?case
    by (fastforce simp: Let_def split: if_splits outcome.splits option.splits prod.splits dest: calls_registry)
qed simp

lemma clear_loop_registry:
  "clear_loop g ss prev cur present names ro = Return (logs, ro') \<Longrightarrow> registry_ok ro \<Longrightarrow> registry_ok ro'"
proof (induction names arbitrary: ro logs)
  case (Cons n names)
  then show ?case
    by (fastforce simp: Let_def split: if_splits outcome.splits prod.splits dest: calls_registry)
qed simp

lemma Observe_registry:
  "Observe ss ws l rc rm m ro = Return (logs, m', ro') \<Longrightarrow> registry_ok ro \<Longrightarrow> registry_ok ro'"
  by (auto simp: Observe_def Let_def split: outcome.splits prod.splits
      dest!: warn_loop_registry clear_loop_registry calls_registry(1))

lemma observe_sets_registry:
  "observe_sets sss ws w = (r, w') \<Longrightarrow> registry_ok (sysMetrics w) \<Longrightarrow> registry_ok (sysMetrics w')"
proof (induction sss arbitrary: w)
  case (Cons ss sss)
  then show ?case
    by (fastforce split: if_splits prod.splits outcome.splits dest: Observe_registry)
qed simp

subsection \<open>Every step\<close>

interpretation metrics_job: job_inv E "\<lambda>w. registry_ok (sysMetrics w)" "mgr_hooks E" for E :: "'o env"
proof unfold_locales
  show "registry_ok (sysMetrics w')" if "registry_ok (sysMetrics w)" "state_Get E w = (r, w')" for w :: "'o mgr" and r w'
    using that state_Get_msys [of E w] by auto
qed (auto simp: mgr_hooks_def state_Invalidate_def recompute_frame)

interpretation metrics_sweep: sweep_inv E "\<lambda>w. registry_ok (sysMetrics w)" "mgr_wiring E cfg gh"
  for E :: "'o env" and cfg :: Config and gh :: "'o gh_client option"
proof unfold_locales
  show "registry_ok (sysMetrics (callback (mgr_wiring E cfg gh) cb ws w))" if "registry_ok (sysMetrics w)" for w cb ws
    using that by (cases cb) (simp add: mgr_wiring_def recompute_frame)
  show "registry_ok (sysMetrics w')"
    if "registry_ok (sysMetrics w)" "onSweep (mgr_wiring E cfg gh) = Some gn" "gn ws w = (r, w')" for w gn ws r w'
    using that observe_sets_registry by (auto simp: mgr_wiring_def observeAutoSizeEligibility_def)
qed (auto simp: mgr_wiring_def purge_everywhere_def recompute_frame calls_registry)

lemma put_metrics [simp]: "sysMetrics (put_bridge i b w) = sysMetrics w"
  by (simp add: put_bridge_def)

lemma mgr_step_registry:
  assumes "mgr_step E gh cfg rem B N w w'" and w: "registry_ok (sysMetrics w)"
  shows "registry_ok (sysMetrics w')"
  using assms(1)
proof cases
  case (step_desired i count r)
  then show ?thesis using w by (auto simp: on_desired_def split: prod.splits dest: metrics_job.desired_inv)
next
  case (step_started i name r1)
  then show ?thesis using w by (auto simp: on_started_def HandleJobStarted_def)
next
  case (step_completed i name rid r2)
  then show ?thesis using w by (auto simp: on_completed_def split: prod.splits dest: metrics_job.completed_inv)
next
  case (step_tick r3)
  then show ?thesis using metrics_sweep.sweep_keeps w by (auto simp: on_tick_def)
next
  case (step_adopt m name sid vmc static)
  let ?b = "NewBridge name sid vmc"
  let ?w1 = "w\<lparr>mHandles := mHandles w @ [\<lparr>hBridge = ?b, hMaxRunners = m, hStaticMaxRunners = static\<rparr>]\<rparr>"
  obtain q b' w2 where h: "HydrateFromOrchard E ?b ?w1 = (q, b', w2)" by (rule prod_cases3)
  have "registry_ok (sysMetrics w2)" using metrics_job.hydrate_inv [OF h] w by simp
  then show ?thesis unfolding step_adopt(1) adopt_handle_def Let_def h
    by (simp add: recompute_frame split: prod.split)
next
  case (step_world st)
  then show ?thesis using w by simp
qed

lemma reach_registry:
  "mgr_reach E gh cfg rem B N w0 k w \<Longrightarrow> registry_ok (sysMetrics w0) \<Longrightarrow> registry_ok (sysMetrics w)"
  by (induction rule: mgr_reach.induct) (blast intro: mgr_step_registry)+

lemma started_registry:
  assumes "Run_setup E out fns cfg (New E fns cfg reg st) = (Return rem, w0)" and "registry_ok reg"
  shows "registry_ok (sysMetrics w0)"
proof -
  have "registry_ok (sysMetrics (New E fns cfg reg st))"
    using NewEligibilityMonitor_registry [OF assms(2)]
    by (cases "NewEligibilityMonitor reg") (auto simp: New_def Let_def split: prod.split)
  then show ?thesis using assms(1) SetMetrics_registry
    by (auto simp: Run_setup_def Let_def split: if_splits prod.splits) (metis snd_conv)
qed

lemma reachable_registry:
  assumes "Run_setup E out fns cfg (New E fns cfg (Some NewRegistry) st) = (Return rem, w0)"
    and "mgr_reach E gh cfg rem B N w0 k w" and "sysMetrics w = Some r"
  shows "\<forall>v\<in>set r. vec_ok v \<and> names_ok v"
proof -
  have "registry_ok (sysMetrics w)"
    using reach_registry [OF assms(2)] started_registry [OF assms(1)] by simp
  then show ?thesis using assms(3) by (simp add: registry_ok_def list_all_iff)
qed

end
