(* ===== verification/Main_Model.thy ===== *)
theory Main_Model
  imports Manager_Metrics
begin

text \<open>
  \<^verbatim>\<open>main.go\<close>, \<^verbatim>\<open>health/health.go\<close> and \<open>NewClient\<close> of \<^verbatim>\<open>orchard/client.go\<close>: how the process
  starts, and the two Kubernetes probes. The start is a function from the command line, the
  environment, the file system and the external state to an exit code or the running parts
  (\<open>startup\<close>). The HTTP server, JSON encoding, the constructor of the Orchard client library and the
  text of an error are arguments.
\<close>

subsection \<open>The Orchard client\<close>

datatype client_option = WithAddress string | WithCredentials string string

definition NewClient :: "(client_option list \<Rightarrow> gerror + 'c) \<Rightarrow> OrchardConfig \<Rightarrow> gerror + 'c" where
  "NewClient new_inner cfg =
     (let opts = [WithAddress (oAddress cfg)];
          opts = (if oUsername cfg \<noteq> [] \<or> oPassword cfg \<noteq> []
                  then opts @ [WithCredentials (oUsername cfg) (oPassword cfg)] else opts)
      in case new_inner opts of
           Inl err \<Rightarrow> Inl (Wrap ''creating orchard client'' err)
         | Inr inner \<Rightarrow> Inr inner)"

subsection \<open>Probes\<close>

record 'o health_server =
  hsPort :: int
  hsClient :: "'o env"

record response =
  rsStatus :: nat
  rsContentType :: string
  rsBody :: string

definition NewServer :: "int \<Rightarrow> 'o env \<Rightarrow> 'o health_server" where
  "NewServer port client = \<lparr>hsPort = port, hsClient = client\<rparr>"

definition handleHealthz :: "((string, string) fmap \<Rightarrow> string) \<Rightarrow> response" where
  "handleHealthz json =
     \<lparr>rsStatus = 200, rsContentType = ''application/json'', rsBody = json (fmupd ''status'' ''ok'' fmempty)\<rparr>"

definition handleReadyz :: "((string, string) fmap \<Rightarrow> string) \<Rightarrow> (gerror \<Rightarrow> string) \<Rightarrow> 'o health_server \<Rightarrow>
    'o \<Rightarrow> response \<times> 'o" where
  "handleReadyz json err_text s st =
     (case Ping (hsClient s) st of
        (Some err, st1) \<Rightarrow>
          (\<lparr>rsStatus = 503, rsContentType = ''application/json'',
            rsBody = json (fmupd ''error'' (err_text err) (fmupd ''status'' ''not ready'' fmempty))\<rparr>, st1)
      | (None, st1) \<Rightarrow>
          (\<lparr>rsStatus = 200, rsContentType = ''application/json'',
            rsBody = json (fmupd ''status'' ''ready'' fmempty)\<rparr>, st1))"

text \<open>The metrics endpoint. A failed render is what \<open>WriteText\<close>'s panic would be; a failed write to
  the connection is ignored.\<close>

definition metrics_Handler :: "Metrics_Model.registry \<Rightarrow> response outcome" where
  "metrics_Handler r =
     (case WriteText r of
        Panic \<Rightarrow> Panic
      | Return body \<Rightarrow>
          Return \<lparr>rsStatus = 200, rsContentType = ''text/plain; version=0.0.4; charset=utf-8'', rsBody = body\<rparr>)"

subsection \<open>The start of the process\<close>

datatype level = LevelDebug | LevelInfo | LevelWarn | LevelError

definition setupLogger :: "string \<Rightarrow> level" where
  "setupLogger lvl =
     (if lvl = ''debug'' then LevelDebug
      else if lvl = ''warn'' then LevelWarn
      else if lvl = ''error'' then LevelError
      else LevelInfo)"

text \<open>The levels in slog's order, by their numbers; a handler writes the records at or above its level.\<close>

fun level_number :: "level \<Rightarrow> int" where
  "level_number LevelDebug = -4"
| "level_number LevelInfo = 0"
| "level_number LevelWarn = 4"
| "level_number LevelError = 8"

instantiation level :: linorder
begin

definition less_eq_level :: "level \<Rightarrow> level \<Rightarrow> bool" where
  "less_eq_level a b \<longleftrightarrow> level_number a \<le> level_number b"

definition less_level :: "level \<Rightarrow> level \<Rightarrow> bool" where
  "less_level a b \<longleftrightarrow> level_number a < level_number b"

instance
proof
  show "a = b" if "a \<le> b" "b \<le> a" for a b :: level
    using that by (cases a; cases b) (simp_all add: less_eq_level_def)
qed (auto simp: less_eq_level_def less_level_def)

end

lemma setupLogger_levels:
  "setupLogger s \<le> LevelError" and "setupLogger s \<le> LevelInfo \<longleftrightarrow> s \<noteq> ''warn'' \<and> s \<noteq> ''error''"
  by (auto simp: setupLogger_def less_eq_level_def)

definition config_path :: "string \<Rightarrow> (string \<Rightarrow> string) \<Rightarrow> string" where
  "config_path flag getenv =
     (let p = flag; p = (if p = [] then getenv ''CONFIG_PATH'' else p)
      in if p = [] then ''/config/config.yaml'' else p)"

record 'o startup =
  suConfig :: Config
  suLevel :: level
  suClient :: "'o env"
  suHealth :: "'o health_server"
  suMetricsPort :: "int option"
  suManager :: "'o mgr"

definition main_start :: "(string \<Rightarrow> gerror + string) \<Rightarrow> (string \<Rightarrow> gerror + Config) \<Rightarrow> (string \<Rightarrow> string) \<Rightarrow>
    (nat \<Rightarrow> nat \<Rightarrow> nat \<Rightarrow> nat) \<Rightarrow> (client_option list \<Rightarrow> gerror + 'o env) \<Rightarrow> string \<Rightarrow> 'o \<Rightarrow>
    nat + 'o startup" where
  "main_start readFile yamlUnmarshal getenv fns new_inner flag st =
     (case Load readFile yamlUnmarshal getenv fns (config_path flag getenv) of
        Inl err \<Rightarrow> Inl 1
      | Inr cfg \<Rightarrow>
          (case NewClient new_inner (cOrchard cfg) of
             Inl err \<Rightarrow> Inl 1
           | Inr client \<Rightarrow>
               Inr \<lparr>suConfig = cfg, suLevel = setupLogger (LogLevel cfg), suClient = client,
                    suHealth = NewServer (hPort (cHealth cfg)) client,
                    suMetricsPort = (if mEnabled (cMetrics cfg) then Some (mPort (cMetrics cfg)) else None),
                    suManager = New client fns cfg (Some NewRegistry) st\<rparr>))"

definition main_run :: "'o outside \<Rightarrow> (nat \<Rightarrow> nat \<Rightarrow> nat \<Rightarrow> nat) \<Rightarrow> 'o startup \<Rightarrow>
    'o gh_client option outcome \<times> 'o mgr" where
  "main_run out fns s = Run_setup (suClient s) out fns (suConfig s) (suManager s)"

subsection \<open>What a started program has checked\<close>

lemma main_start_Inr:
  assumes "main_start rf yu ge fns ni flag st = Inr s"
  shows "Validate fns (suConfig s) = None"
    and "suManager s = New (suClient s) fns (suConfig s) (Some NewRegistry) st"
    and "ScaleSets (suConfig s) \<noteq> []"
proof -
  show v: "Validate fns (suConfig s) = None" and "suManager s = New (suClient s) fns (suConfig s) (Some NewRegistry) st"
    using assms Load_valid by (auto simp: main_start_def split: sum.splits)
  show "ScaleSets (suConfig s) \<noteq> []"
    using v by (auto simp: Validate_None_iff validation_errors_def Let_def)
qed

lemma effective_stale:
  assumes "Validate fns cfg = None"
  shows "(if WorkerStaleAfterDuration fns cfg \<le> 0 then DefaultWorkerStaleAfter
      else WorkerStaleAfterDuration fns cfg) = effectiveWorkerStaleAfter fns cfg"
  using valid_stale_positive [OF assms]
  by (auto simp: WorkerStaleAfterDuration_def effectiveWorkerStaleAfter_def DefaultWorkerStaleAfter_def
      Cfg_DefaultWorkerStaleAfter_def split: option.splits)

lemma New_stale:
  assumes "Validate fns cfg = None"
  shows "mStaleAfter (New E fns cfg reg st) = effectiveWorkerStaleAfter fns cfg"
    and "sysView (New E fns cfg reg st) = Some (NewStateView DefaultStateViewTTL (effectiveWorkerStaleAfter fns cfg))"
  using effective_stale [OF assms] by (simp_all add: New_def Let_def split: prod.split)

lemma Run_setup_sets:
  assumes "Run_setup E out fns cfg w = (Return gh, w')"
  shows "pruneAfter (sysCleanup w') = max 0 (WorkerPruneAfterDuration fns cfg)" and "mStaleAfter w' = mStaleAfter w"
    and "sysView w' = sysView w" and "pendingDeletes (sysCleanup w') = {||}"
    and "maxAge (sysCleanup w') = (if 0 < MaxVMAgeDuration fns cfg then MaxVMAgeDuration fns cfg else DefaultMaxVMAge)"
  using assms
  by (auto simp: Run_setup_def Let_def SetMetrics_def configure_cleanup_def SetWorkerPruneAfter_def SetMaxAge_def
      SetMaxPendingAge_def NewCleanup_def split: if_splits prod.splits)

subsection \<open>Properties\<close>

text \<open>C31. A process that gets past \<open>main\<close>'s checks runs with thresholds that fit together, whatever
  was configured: setting up never panics, the manager and the shared view use one staleness
  threshold, and the cleanup loop's prune threshold is off or strictly above it.\<close>

theorem started_program_thresholds:
  assumes "main_start rf yu ge fns ni flag st = Inr s" and "main_run out fns s = (r, w)"
  shows "r \<noteq> Panic \<and> 0 < mStaleAfter w \<and> map_option staleAfter (sysView w) = Some (mStaleAfter w) \<and>
    (pruneAfter (sysCleanup w) = 0 \<or> mStaleAfter w < pruneAfter (sysCleanup w)) \<and>
    0 < maxAge (sysCleanup w)"
proof -
  note m = main_start_Inr [OF assms(1)]
  obtain gh where r: "r = Return gh"
    using assms(2) m(3) by (auto simp: main_run_def Run_setup_def Let_def split: prod.splits)
  note rs = Run_setup_sets [OF assms(2) [unfolded main_run_def r]]
  have stale: "mStaleAfter w = effectiveWorkerStaleAfter fns (suConfig s)"
    using rs(2) m(2) New_stale(1) [OF m(1)] by simp
  have pos: "0 < effectiveWorkerStaleAfter fns (suConfig s)" by (rule valid_stale_positive [OF m(1)])
  have view: "map_option staleAfter (sysView w) = Some (mStaleAfter w)"
    unfolding rs(3) m(2) New_stale(2) [OF m(1)] stale using pos by (simp add: NewStateView_def)
  have "pruneAfter (sysCleanup w) = WorkerPruneAfterDuration fns (suConfig s)"
    using rs(1) prune_nonneg [of fns "suConfig s"] by simp
  then show ?thesis
    using r stale pos view valid_prune_above_stale [OF m(1)] rs(5)
    by (auto simp: DefaultMaxVMAge_def hour_def)
qed

theorem started_program_thresholds_witness:
  "\<exists>s. main_start (\<lambda>_. Inr []) (\<lambda>_. Inr (ex_config ''5m'' ''1h30m'')) (\<lambda>_. []) (\<lambda>_ _ _. 0) (\<lambda>_. Inr ex_env) ''c''
      (ex_state [] ex_pool) = Inr s \<and> fst (main_run ex_outside (\<lambda>_ _ _. 0) s) \<noteq> Panic"
proof -
  obtain s where s: "main_start (\<lambda>_. Inr []) (\<lambda>_. Inr (ex_config ''5m'' ''1h30m'')) (\<lambda>_. []) (\<lambda>_ _ _. 0)
      (\<lambda>_. Inr ex_env) ''c'' (ex_state [] ex_pool) = Inr s"
    using ex_config_loads by (simp add: main_start_def config_path_def NewClient_def Let_def)
  obtain r w where r: "main_run ex_outside (\<lambda>_ _ _. 0) s = (r, w)" by (metis surj_pair)
  show ?thesis using started_program_thresholds [OF s r] s r by auto
qed

text \<open>The readiness probe answers 200 exactly when Orchard answers the ping and 503 otherwise, and
  the liveness probe always answers 200: an Orchard outage takes the pod out of service without
  restarting it.\<close>

theorem probes_report:
  "rsStatus (handleHealthz json) = 200 \<and>
   rsStatus (fst (handleReadyz json err_text s st)) = (if fst (Ping (hsClient s) st) = None then 200 else 503) \<and>
   snd (handleReadyz json err_text s st) = snd (Ping (hsClient s) st)"
  by (auto simp: handleHealthz_def handleReadyz_def split: prod.split option.split)

text \<open>C29. A scrape of \<^verbatim>\<open>/metrics\<close> always answers, with exactly what the program recorded: in every
  state the process reaches from its start, with the registry \<open>main\<close> makes, the handler returns 200, and a
  reader of the text format gets back every series with its label values and number, whatever the
  workers are called.\<close>

theorem reachable_scrape:
  assumes "Run_setup E out fns cfg (New E fns cfg (Some NewRegistry) st) = (Return rem, w0)"
    and "mgr_reach E gh cfg rem B N w0 k w" and "sysMetrics w = Some r"
  shows "\<exists>resp. metrics_Handler r = Return resp \<and> rsStatus resp = 200 \<and>
    read_text (rsBody resp) = map Some (concat (map vec_samples r))"
  using WriteText_reads [OF reachable_registry [OF assms]] by (auto simp: metrics_Handler_def)

theorem reachable_scrape_witness:
  "\<exists>w r resp. sysMetrics w = Some r \<and> length r = 3 \<and> metrics_Handler r = Return resp \<and> rsStatus resp = 200 \<and>
    snd (Run_setup ex_bounded ex_outside (\<lambda>_ _ _. 0) (ex_config [] [])
      (New ex_bounded (\<lambda>_ _ _. 0) (ex_config [] []) (Some NewRegistry) (ex_state [] ex_pool))) = w"
proof -
  let ?n = "New ex_bounded (\<lambda>_ _ _. 0) (ex_config [] []) (Some NewRegistry) (ex_state [] ex_pool)"
  obtain x w where s: "Run_setup ex_bounded ex_outside (\<lambda>_ _ _. 0) (ex_config [] []) ?n = (x, w)" by (metis surj_pair)
  then have x: "x = Return None" by (auto simp: Run_setup_def Let_def ex_outside_def split: prod.splits)
  have "\<exists>r. sysMetrics w = Some r \<and> length r = 3" using s
    by (auto simp: Run_setup_def New_def Let_def SetMetrics_def NewCounterVec_def NewEligibilityMonitor_def NewGaugeVec_def
        register_def NewRegistry_def split: prod.splits if_splits sum.splits)
  then obtain r where r: "sysMetrics w = Some r" "length r = 3" by blast
  show ?thesis using reachable_scrape [OF s [unfolded x] reach_start r(1)] r s by auto
qed

end
