(* ===== verification/State_View_Conc.thy ===== *)
theory State_View_Conc
  imports Bridge_Spec
begin

text \<open>
  \<^verbatim>\<open>bridge/stateview.go\<close> under concurrency: \<open>StateView.Get\<close> cut at its critical sections, any
  number of goroutines in it at once. A goroutine finds a fresh snapshot, joins the refresh in
  flight, or leads one; the leader fetches without the lock and publishes under it. The channel of a
  refresh is a number; it is closed once \<open>cvRefreshing\<close> no longer names it, because the code clears
  \<open>refreshing\<close> and closes the channel in one critical section. \<open>Invalidate\<close>, a cancelled wait and
  anything Orchard does can happen between any two steps.

  Shown: at most one refresh is in flight, every waiter is released in a fair run, what is handed out keeps the
  contract of \<open>State_View\<close>, an undisturbed call is the sequential \<open>Get\<close>, and an invalidation
  during a refresh is lost.
\<close>

datatype get_pc = Ready | Waiting nat | Leading "Snapshot option"
  | Fetched "Snapshot option" "gerror + Snapshot"
  | Finished "Snapshot option \<times> gerror option"

record 'o cview =
  cvExt :: 'o
  cvView :: StateView
  cvRefreshing :: "nat option"
  cvNext :: nat
  cvPc :: "nat \<Rightarrow> get_pc"

definition get_enter :: "'o env \<Rightarrow> nat \<Rightarrow> 'o cview \<Rightarrow> 'o cview" where
  "get_enter E i w =
     (case fresh_snap E (cvView w) (cvExt w) of
        (Some sn, st) \<Rightarrow> w\<lparr>cvExt := st, cvPc := (cvPc w)(i := Finished (Some sn, None))\<rparr>
      | (None, st) \<Rightarrow>
          (case cvRefreshing w of
             Some ch \<Rightarrow> w\<lparr>cvExt := st, cvPc := (cvPc w)(i := Waiting ch)\<rparr>
           | None \<Rightarrow> w\<lparr>cvExt := st, cvRefreshing := Some (cvNext w), cvNext := Suc (cvNext w),
                       cvPc := (cvPc w)(i := Leading (snap (cvView w)))\<rparr>))"

definition get_fetch :: "'o env \<Rightarrow> nat \<Rightarrow> Snapshot option \<Rightarrow> 'o cview \<Rightarrow> 'o cview" where
  "get_fetch E i lastSnap w =
     (case refresh E (cvView w) (cvExt w) of
        (r, st) \<Rightarrow> w\<lparr>cvExt := st, cvPc := (cvPc w)(i := Fetched lastSnap r)\<rparr>)"

definition get_publish :: "nat \<Rightarrow> Snapshot option \<Rightarrow> gerror + Snapshot \<Rightarrow> 'o cview \<Rightarrow> 'o cview" where
  "get_publish i lastSnap r w =
     (case r of
        Inl err \<Rightarrow> w\<lparr>cvView := (cvView w)\<lparr>lastErr := Some err\<rparr>, cvRefreshing := None,
                     cvPc := (cvPc w)(i := Finished (lastSnap, Some err))\<rparr>
      | Inr sn \<Rightarrow> w\<lparr>cvView := (cvView w)\<lparr>snap := Some sn, lastErr := None\<rparr>, cvRefreshing := None,
                    cvPc := (cvPc w)(i := Finished (Some sn, None))\<rparr>)"

definition get_wake :: "nat \<Rightarrow> 'o cview \<Rightarrow> 'o cview" where
  "get_wake i w =
     w\<lparr>cvPc := (cvPc w)(i := Finished
        (case snap (cvView w) of
           None \<Rightarrow> (None, Some (case lastErr (cvView w) of
                                  None \<Rightarrow> Opaque ''orchard state refresh failed'' | Some e \<Rightarrow> e))
         | Some sn \<Rightarrow> (Some sn, lastErr (cvView w))))\<rparr>"

definition get_cancel :: "nat \<Rightarrow> gerror \<Rightarrow> 'o cview \<Rightarrow> 'o cview" where
  "get_cancel i err w = w\<lparr>cvPc := (cvPc w)(i := Finished (None, Some err))\<rparr>"

definition view_Invalidate :: "'o cview \<Rightarrow> 'o cview" where
  "view_Invalidate w = w\<lparr>cvView := Invalidate (cvView w)\<rparr>"

inductive conc_step :: "'o env \<Rightarrow> nat \<Rightarrow> 'o cview \<Rightarrow> 'o cview \<Rightarrow> bool" for E n where
  conc_enter: "i < n \<Longrightarrow> cvPc w i = Ready \<Longrightarrow> conc_step E n w (get_enter E i w)"
| conc_fetch: "i < n \<Longrightarrow> cvPc w i = Leading ls \<Longrightarrow> conc_step E n w (get_fetch E i ls w)"
| conc_publish: "i < n \<Longrightarrow> cvPc w i = Fetched ls r \<Longrightarrow> conc_step E n w (get_publish i ls r w)"
| conc_wake: "i < n \<Longrightarrow> cvPc w i = Waiting ch \<Longrightarrow> cvRefreshing w \<noteq> Some ch \<Longrightarrow> conc_step E n w (get_wake i w)"
| conc_cancel: "i < n \<Longrightarrow> cvPc w i = Waiting ch \<Longrightarrow> conc_step E n w (get_cancel i err w)"
| conc_return: "i < n \<Longrightarrow> cvPc w i = Finished x \<Longrightarrow> conc_step E n w (w\<lparr>cvPc := (cvPc w)(i := Ready)\<rparr>)"
| conc_invalidate: "conc_step E n w (view_Invalidate w)"
| conc_world: "conc_step E n w (w\<lparr>cvExt := st\<rparr>)"

inductive conc_reach :: "'o env \<Rightarrow> nat \<Rightarrow> 'o cview \<Rightarrow> 'o cview \<Rightarrow> bool" for E n w0 where
  conc_start: "conc_reach E n w0 w0"
| conc_next: "conc_reach E n w0 w \<Longrightarrow> conc_step E n w w' \<Longrightarrow> conc_reach E n w0 w'"

definition new_cview :: "StateView \<Rightarrow> 'o \<Rightarrow> 'o cview" where
  "new_cview v st = \<lparr>cvExt = st, cvView = v, cvRefreshing = None, cvNext = 0, cvPc = (\<lambda>_. Ready)\<rparr>"

subsection \<open>The invariant\<close>

fun leads :: "get_pc \<Rightarrow> bool" where
  "leads (Leading ls) = True" | "leads (Fetched ls r) = True" | "leads _ = False"

fun pc_ok :: "duration \<Rightarrow> get_pc \<Rightarrow> bool" where
  "pc_ok d Ready = True"
| "pc_ok d (Waiting ch) = True"
| "pc_ok d (Leading ls) = pred_option (snapshot_ok d) ls"
| "pc_ok d (Fetched ls r) = (pred_option (snapshot_ok d) ls \<and> (case r of Inl _ \<Rightarrow> True | Inr sn \<Rightarrow> snapshot_ok d sn))"
| "pc_ok d (Finished (x, e)) = (pred_option (snapshot_ok d) x \<and> (x = None \<longrightarrow> e \<noteq> None))"

definition leaders :: "'o cview \<Rightarrow> nat set" where
  "leaders w = {i. leads (cvPc w i)}"

definition lead_ok :: "'o cview \<Rightarrow> bool" where
  "lead_ok w \<longleftrightarrow> (case cvRefreshing w of None \<Rightarrow> leaders w = {} | Some ch \<Rightarrow> (\<exists>j. leaders w = {j}))"

definition conc_ok :: "nat \<Rightarrow> duration \<Rightarrow> 'o cview \<Rightarrow> bool" where
  "conc_ok n d w \<longleftrightarrow> view_ok (cvView w) \<and> staleAfter (cvView w) = d \<and> lead_ok w \<and>
     (\<forall>i. pc_ok d (cvPc w i)) \<and> (\<forall>i. n \<le> i \<longrightarrow> cvPc w i = Ready)"

lemma leaders_upd:
  "cvPc w' = (cvPc w)(i := p) \<Longrightarrow> leaders w' = (if leads p then insert i (leaders w) else leaders w - {i})"
  by (auto simp: leaders_def)

lemma lead_ok_leader: "lead_ok w \<Longrightarrow> leads (cvPc w i) \<Longrightarrow> cvRefreshing w \<noteq> None \<and> leaders w = {i}"
  using CollectI [of "\<lambda>i. leads (cvPc w i)" i] by (auto simp: lead_ok_def leaders_def [symmetric] split: option.splits)

lemma lead_ok_same:
  assumes "lead_ok w" and "cvPc w' = (cvPc w)(i := p)" and "cvRefreshing w' = cvRefreshing w"
    and "leads p = leads (cvPc w i)"
  shows "lead_ok w'"
proof -
  have "leaders w' = leaders w" using leaders_upd [OF assms(2)] assms(4) by (auto simp: leaders_def)
  then show ?thesis using assms(1,3) by (simp add: lead_ok_def split: option.splits)
qed

lemma conc_okI:
  assumes "conc_ok n d w" and "i < n" and "cvPc w' = (cvPc w)(i := p)" and "pc_ok d p"
    and "view_ok (cvView w')" and "staleAfter (cvView w') = d" and "lead_ok w'"
  shows "conc_ok n d w'"
  using assms by (auto simp: conc_ok_def)

lemma view_ok_snap: "view_ok s \<Longrightarrow> pred_option (snapshot_ok (staleAfter s)) (snap s)"
  by (auto simp: view_ok_def split: option.splits)

lemma conc_ok_sel:
  assumes "conc_ok n d w"
  shows "view_ok (cvView w)" "staleAfter (cvView w) = d" "lead_ok w" "pc_ok d (cvPc w i)"
    "pred_option (snapshot_ok d) (snap (cvView w))" "n \<le> i \<Longrightarrow> cvPc w i = Ready"
  using assms view_ok_snap [of "cvView w"] by (auto simp: conc_ok_def)

lemma conc_ok_enter:
  assumes ok: "conc_ok n d w" and i: "i < n" "cvPc w i = Ready"
  shows "conc_ok n d (get_enter E i w)"
proof -
  note s = conc_ok_sel [OF ok]
  obtain x st where f: "fresh_snap E (cvView w) (cvExt w) = (x, st)" by (metis surj_pair)
  show ?thesis
  proof (cases x)
    case (Some sn)
    then have "snap (cvView w) = Some sn" using fresh_snap_cached [of E "cvView w" "cvExt w" sn] f by simp
    then have "snapshot_ok d sn" using s(5) by simp
    then show ?thesis
      using s f Some i lead_ok_same [OF s(3), of "get_enter E i w" i "Finished (Some sn, None)"]
      by (intro conc_okI [OF ok i(1), where p = "Finished (Some sn, None)"]) (simp_all add: get_enter_def)
  next
    case None
    show ?thesis
    proof (cases "cvRefreshing w")
      case (Some ch)
      then show ?thesis
        using s f None i lead_ok_same [OF s(3), of "get_enter E i w" i "Waiting ch"]
        by (intro conc_okI [OF ok i(1), where p = "Waiting ch"]) (simp_all add: get_enter_def)
    next
      case free: None
      let ?p = "Leading (snap (cvView w))"
      have "leaders w = {}" using s(3) free by (simp add: lead_ok_def)
      then have "leaders (get_enter E i w) = {i}"
        using leaders_upd [of "get_enter E i w" w i ?p] f None free by (simp add: get_enter_def)
      then have "lead_ok (get_enter E i w)" using f None free by (simp add: lead_ok_def get_enter_def)
      then show ?thesis
        using s f None free by (intro conc_okI [OF ok i(1), where p = ?p]) (simp_all add: get_enter_def)
    qed
  qed
qed

lemma conc_ok_fetch:
  assumes ok: "conc_ok n d w" and i: "i < n" "cvPc w i = Leading ls"
  shows "conc_ok n d (get_fetch E i ls w)"
proof -
  note s = conc_ok_sel [OF ok]
  obtain r st where r: "refresh E (cvView w) (cvExt w) = (r, st)" by (metis surj_pair)
  have "case r of Inl _ \<Rightarrow> True | Inr sn \<Rightarrow> snapshot_ok d sn"
    using refresh_ok [of E "cvView w" "cvExt w"] r s(2) by (auto split: sum.split)
  then have "pc_ok d (Fetched ls r)" using s(4) [of i] i(2) by simp
  then show ?thesis
    using s r i lead_ok_same [OF s(3), of "get_fetch E i ls w" i "Fetched ls r"]
    by (intro conc_okI [OF ok i(1), where p = "Fetched ls r"]) (simp_all add: get_fetch_def)
qed

lemma conc_ok_publish:
  assumes ok: "conc_ok n d w" and i: "i < n" "cvPc w i = Fetched ls r"
  shows "conc_ok n d (get_publish i ls r w)"
proof -
  note s = conc_ok_sel [OF ok]
  let ?p = "case r of Inl err \<Rightarrow> Finished (ls, Some err) | Inr sn \<Rightarrow> Finished (Some sn, None)"
  have pc: "cvPc (get_publish i ls r w) = (cvPc w)(i := ?p)" by (simp add: get_publish_def split: sum.split)
  have "leaders w = {i}" using lead_ok_leader [OF s(3), of i] i(2) by simp
  then have "leaders (get_publish i ls r w) = {}" using leaders_upd [OF pc] by (simp split: sum.splits)
  moreover have "cvRefreshing (get_publish i ls r w) = None" by (simp add: get_publish_def split: sum.split)
  ultimately have "lead_ok (get_publish i ls r w)" by (simp add: lead_ok_def)
  moreover have "pc_ok d ?p" using s(4) [of i] i(2) by (auto split: sum.splits)
  moreover have "view_ok (cvView (get_publish i ls r w))" "staleAfter (cvView (get_publish i ls r w)) = d"
    using s(1,2) s(4) [of i] i(2) by (auto simp: get_publish_def view_ok_def split: sum.splits option.splits)
  ultimately show ?thesis by (intro conc_okI [OF ok i(1) pc])
qed

lemma conc_step_ok:
  assumes st: "conc_step E n w w'" and ok: "conc_ok n d w"
  shows "conc_ok n d w'"
proof -
  note s = conc_ok_sel [OF ok]
  have quiet: "conc_ok n d (w\<lparr>cvPc := (cvPc w)(i := p)\<rparr>)"
    if "i < n" "pc_ok d p" "\<not> leads p" "\<not> leads (cvPc w i)" for i p
    using that s lead_ok_same [OF s(3), of "w\<lparr>cvPc := (cvPc w)(i := p)\<rparr>" i p]
    by (intro conc_okI [OF ok that(1)]) simp_all
  show ?thesis
    using st
  proof cases
    case (conc_enter i)
    then show ?thesis using conc_ok_enter [OF ok] by simp
  next
    case (conc_fetch i ls)
    then show ?thesis using conc_ok_fetch [OF ok] by simp
  next
    case (conc_publish i ls r)
    then show ?thesis using conc_ok_publish [OF ok] by simp
  next
    case (conc_wake i ch)
    then show ?thesis unfolding conc_wake(1) get_wake_def using s(5) conc_wake(3)
      by (intro quiet) (auto split: option.split)
  next
    case (conc_cancel i ch err)
    then show ?thesis unfolding conc_cancel(1) get_cancel_def using conc_cancel(3) by (intro quiet) auto
  next
    case (conc_return i x)
    then show ?thesis unfolding conc_return(1) using conc_return(3) by (intro quiet) auto
  next
    case conc_invalidate
    then show ?thesis using ok
      by (auto simp: conc_ok_def view_Invalidate_def Invalidate_def view_ok_def lead_ok_def leaders_def split: option.splits)
  next
    case (conc_world st)
    then show ?thesis using ok by (auto simp: conc_ok_def lead_ok_def leaders_def split: option.splits)
  qed
qed

lemma conc_reach_ok:
  assumes "conc_reach E n (new_cview v st) w" and "view_ok v"
  shows "conc_ok n (staleAfter v) w"
  using assms(1)
proof (induction rule: conc_reach.induct)
  case conc_start
  then show ?case using assms(2)
    by (simp add: conc_ok_def new_cview_def lead_ok_def leaders_def)
next
  case (conc_next w w')
  then show ?case by (blast intro: conc_step_ok)
qed

subsection \<open>Fair runs\<close>

text \<open>
  The sections a goroutine executes itself; a run in which goroutine \<open>i\<close> is not cancelled, while the
  others, \<open>Invalidate\<close> and Orchard do what they like; and weak fairness: a goroutine that stays in the
  middle of a call with a section to execute executes one. A goroutine that waits has one only once its
  channel is closed.
\<close>

inductive get_step :: "'o env \<Rightarrow> nat \<Rightarrow> nat \<Rightarrow> 'o cview \<Rightarrow> 'o cview \<Rightarrow> bool" for E n i where
  get_enters: "i < n \<Longrightarrow> cvPc w i = Ready \<Longrightarrow> get_step E n i w (get_enter E i w)"
| get_fetches: "i < n \<Longrightarrow> cvPc w i = Leading ls \<Longrightarrow> get_step E n i w (get_fetch E i ls w)"
| get_publishes: "i < n \<Longrightarrow> cvPc w i = Fetched ls r \<Longrightarrow> get_step E n i w (get_publish i ls r w)"
| get_wakes: "i < n \<Longrightarrow> cvPc w i = Waiting ch \<Longrightarrow> cvRefreshing w \<noteq> Some ch \<Longrightarrow> get_step E n i w (get_wake i w)"
| get_returns: "i < n \<Longrightarrow> cvPc w i = Finished x \<Longrightarrow> get_step E n i w (w\<lparr>cvPc := (cvPc w)(i := Ready)\<rparr>)"

inductive uncancelled_step :: "'o env \<Rightarrow> nat \<Rightarrow> nat \<Rightarrow> 'o cview \<Rightarrow> 'o cview \<Rightarrow> bool" for E n i where
  un_get: "get_step E n j w w' \<Longrightarrow> uncancelled_step E n i w w'"
| un_cancel: "j < n \<Longrightarrow> j \<noteq> i \<Longrightarrow> cvPc w j = Waiting ch \<Longrightarrow> uncancelled_step E n i w (get_cancel j err w)"
| un_invalidate: "uncancelled_step E n i w (view_Invalidate w)"
| un_world: "uncancelled_step E n i w (w\<lparr>cvExt := st\<rparr>)"

definition runnable :: "'o cview \<Rightarrow> nat \<Rightarrow> bool" where
  "runnable w i \<longleftrightarrow> (case cvPc w i of Waiting ch \<Rightarrow> cvRefreshing w \<noteq> Some ch | pc \<Rightarrow> leads pc)"

definition fair_run :: "'o env \<Rightarrow> nat \<Rightarrow> nat \<Rightarrow> (nat \<Rightarrow> 'o cview) \<Rightarrow> bool" where
  "fair_run E n i run \<longleftrightarrow> (\<forall>t. uncancelled_step E n i (run t) (run (Suc t))) \<and>
     (\<forall>j<n. \<forall>t. \<exists>t'\<ge>t. \<not> runnable (run t') j \<or> get_step E n j (run t') (run (Suc t')))"

lemma uncancelled_conc: "uncancelled_step E n i w w' \<Longrightarrow> conc_step E n w w'"
  by (auto elim!: uncancelled_step.cases get_step.cases intro: conc_step.intros)

text \<open>Channels are never reused: a closed one stays closed.\<close>

definition channels_ok :: "'o cview \<Rightarrow> bool" where
  "channels_ok w \<longleftrightarrow> (\<forall>ch. cvRefreshing w = Some ch \<longrightarrow> ch < cvNext w) \<and>
     (\<forall>i ch. cvPc w i = Waiting ch \<longrightarrow> ch < cvNext w)"

lemma channels_ok_enter: "channels_ok w \<Longrightarrow> channels_ok (get_enter E i w)"
  by (auto simp: channels_ok_def get_enter_def less_Suc_eq split: prod.splits option.splits)

lemma channels_ok_step: "conc_step E n w w' \<Longrightarrow> channels_ok w \<Longrightarrow> channels_ok w'"
proof (induction rule: conc_step.induct)
  case (conc_enter i w)
  then show ?case by (simp add: channels_ok_enter)
qed (auto simp: channels_ok_def get_fetch_def get_publish_def get_wake_def get_cancel_def view_Invalidate_def
    split: prod.splits sum.splits)

lemma conc_reach_channels: "conc_reach E n (new_cview v st) w \<Longrightarrow> channels_ok w"
proof (induction rule: conc_reach.induct)
  case conc_start
  show ?case by (simp add: channels_ok_def new_cview_def)
qed (rule channels_ok_step)

text \<open>What holds of a runnable goroutine until it moves holds when it moves.\<close>

lemma fair_moves:
  assumes "fair_run E n i run" and "j < n" and "P (run t)"
    and "\<And>w. P w \<Longrightarrow> runnable w j"
    and "\<And>s. t \<le> s \<Longrightarrow> P (run s) \<Longrightarrow> \<not> get_step E n j (run s) (run (Suc s)) \<Longrightarrow> P (run (Suc s))"
  shows "\<exists>s\<ge>t. P (run s) \<and> get_step E n j (run s) (run (Suc s))"
proof (rule ccontr)
  assume no: "\<not> ?thesis"
  have P: "t \<le> s \<Longrightarrow> P (run s)" for s
  proof (induction s)
    case 0
    then show ?case using assms(3) by simp
  next
    case (Suc s)
    then show ?case using assms(3,5) no by (metis le_Suc_eq)
  qed
  then show False using assms(1,2,4) no unfolding fair_run_def by blast
qed

definition parked :: "nat \<Rightarrow> nat \<Rightarrow> 'o cview \<Rightarrow> bool" where
  "parked i ch w \<longleftrightarrow> cvPc w i = Waiting ch \<and> cvRefreshing w \<noteq> Some ch \<and> ch < cvNext w"

lemma parked_stays:
  assumes "parked i ch w" and "uncancelled_step E n i w w'" and "\<not> get_step E n i w w'"
  shows "parked i ch w'"
  using assms(2)
proof cases
  case (un_get j)
  then have j: "j \<noteq> i" using assms(3) by blast
  from un_get show ?thesis
    by (cases rule: get_step.cases) (use assms(1) j in \<open>auto simp: parked_def get_enter_def get_fetch_def
        get_publish_def get_wake_def split: prod.splits option.splits sum.splits\<close>)
qed (use assms(1) in \<open>auto simp: parked_def get_cancel_def view_Invalidate_def\<close>)

definition leads_for :: "nat \<Rightarrow> nat \<Rightarrow> nat \<Rightarrow> get_pc \<Rightarrow> 'o cview \<Rightarrow> bool" where
  "leads_for i ch j pc w \<longleftrightarrow> cvPc w i = Waiting ch \<and> cvRefreshing w = Some ch \<and> cvPc w j = pc \<and> leaders w = {j}"

lemma leads_for_stays:
  assumes l: "leads_for i ch j pc w" and "leads pc" and st: "uncancelled_step E n i w w'"
    and no: "\<not> get_step E n j w w'" and ok: "lead_ok w'"
  shows "leads_for i ch j pc w'"
proof -
  have ij: "cvPc w i = Waiting ch" "cvRefreshing w = Some ch" "cvPc w j = pc" and only: "leads (cvPc w k) \<longleftrightarrow> k = j" for k
    using l by (auto simp: leads_for_def leaders_def set_eq_iff)
  have "cvPc w' i = Waiting ch \<and> cvRefreshing w' = Some ch \<and> cvPc w' j = pc"
    using st
  proof cases
    case (un_get k)
    then have k: "k \<noteq> j" "\<not> leads (cvPc w k)" using no only by auto
    from un_get show ?thesis
      by (cases rule: get_step.cases) (use ij k in \<open>auto simp: get_enter_def get_wake_def split: prod.splits option.splits\<close>)
  next
    case (un_cancel k c err)
    then have "k \<noteq> j" using only [of k] by auto
    then show ?thesis using un_cancel ij by (simp add: get_cancel_def)
  qed (use ij in \<open>simp_all add: view_Invalidate_def\<close>)
  then show ?thesis using lead_ok_leader [OF ok, of j] assms(2) by (simp add: leads_for_def)
qed

lemma fair_release:
  assumes reach: "conc_reach E n (new_cview v st) (run 0)" and v: "view_ok v" and fair: "fair_run E n i run"
    and wait: "cvPc (run 0) i = Waiting ch"
  shows "\<exists>t. cvPc (run t) i = Waiting ch \<and> cvRefreshing (run t) \<noteq> Some ch \<and> run (Suc t) = get_wake i (run t)"
proof -
  have steps: "uncancelled_step E n i (run t) (run (Suc t))" for t using fair by (simp add: fair_run_def)
  have r: "conc_reach E n (new_cview v st) (run t)" for t
    by (induction t) (auto intro: reach conc_next uncancelled_conc [OF steps])
  note ok = conc_reach_ok [OF r v] and chans = conc_reach_channels [OF r]
  note lead = conc_ok_sel(3) [OF ok]
  have i: "i < n" using conc_ok_sel(6) [OF ok, of i 0] wait by (metis get_pc.distinct(1) linorder_not_less)
  have woken: ?thesis if "parked i ch (run t)" for t
  proof -
    have "\<exists>s\<ge>t. parked i ch (run s) \<and> get_step E n i (run s) (run (Suc s))"
      by (rule fair_moves [where P = "parked i ch", OF fair i that _ parked_stays [OF _ steps]])
        (simp add: parked_def runnable_def)
    then obtain s where s: "parked i ch (run s)" "get_step E n i (run s) (run (Suc s))" by blast
    from s(2) have "run (Suc s) = get_wake i (run s)"
      by (cases rule: get_step.cases) (use s(1) in \<open>auto simp: parked_def\<close>)
    then show ?thesis using s(1) by (auto simp: parked_def)
  qed
  have closed: ?thesis if "leads_for i ch j (Fetched ls q) (run t)" "j < n" for j ls q t
  proof -
    have "\<exists>s\<ge>t. leads_for i ch j (Fetched ls q) (run s) \<and> get_step E n j (run s) (run (Suc s))"
      by (rule fair_moves [where P = "leads_for i ch j (Fetched ls q)", OF fair that(2,1) _ leads_for_stays [OF _ _ steps _ lead]])
        (simp_all add: leads_for_def runnable_def)
    then obtain s where s: "leads_for i ch j (Fetched ls q) (run s)" "get_step E n j (run s) (run (Suc s))" by blast
    from s(2) have "run (Suc s) = get_publish j ls q (run s)"
      by (cases rule: get_step.cases) (use s(1) in \<open>auto simp: leads_for_def\<close>)
    moreover have "j \<noteq> i" using s(1) by (auto simp: leads_for_def)
    moreover have "ch < cvNext (run s)" using s(1) chans [of s] by (auto simp: leads_for_def channels_ok_def)
    ultimately have "parked i ch (run (Suc s))"
      using s(1) by (auto simp: parked_def leads_for_def get_publish_def split: sum.split)
    then show ?thesis by (rule woken)
  qed
  have fetched: ?thesis if "leads_for i ch j (Leading ls) (run t)" "j < n" for j ls t
  proof -
    have "\<exists>s\<ge>t. leads_for i ch j (Leading ls) (run s) \<and> get_step E n j (run s) (run (Suc s))"
      by (rule fair_moves [where P = "leads_for i ch j (Leading ls)", OF fair that(2,1) _ leads_for_stays [OF _ _ steps _ lead]])
        (simp_all add: leads_for_def runnable_def)
    then obtain s where s: "leads_for i ch j (Leading ls) (run s)" "get_step E n j (run s) (run (Suc s))" by blast
    from s(2) have f: "run (Suc s) = get_fetch E j ls (run s)"
      by (cases rule: get_step.cases) (use s(1) in \<open>auto simp: leads_for_def\<close>)
    obtain q st' where q: "refresh E (cvView (run s)) (cvExt (run s)) = (q, st')" by (metis surj_pair)
    have "j \<noteq> i" using s(1) by (auto simp: leads_for_def)
    then have "leads_for i ch j (Fetched ls q) (run (Suc s))"
      using s(1) f q lead_ok_leader [OF lead, of "Suc s" j] by (simp add: leads_for_def get_fetch_def)
    then show ?thesis using that(2) by (rule closed)
  qed
  show ?thesis
  proof (cases "cvRefreshing (run 0) = Some ch")
    case False
    then have "parked i ch (run 0)" using wait chans [of 0] by (simp add: parked_def channels_ok_def)
    then show ?thesis by (rule woken)
  next
    case True
    then obtain j where j: "leaders (run 0) = {j}" using lead [of 0] by (auto simp: lead_ok_def)
    then have l: "leads (cvPc (run 0) j)" by (auto simp: leaders_def)
    then have n: "j < n" using conc_ok_sel(6) [OF ok, of j 0] by (metis leads.simps(3) linorder_not_less)
    show ?thesis
    proof (cases "cvPc (run 0) j")
      case (Leading ls)
      then have "leads_for i ch j (Leading ls) (run 0)" using True wait j by (simp add: leads_for_def)
      then show ?thesis using n by (rule fetched)
    next
      case (Fetched ls q)
      then have "leads_for i ch j (Fetched ls q) (run 0)" using True wait j by (simp add: leads_for_def)
      then show ?thesis using n by (rule closed)
    qed (use l in auto)
  qed
qed

subsection \<open>Properties\<close>

text \<open>A view two goroutines use: the first leads a refresh and has fetched, the second waits.\<close>

definition ex_view0 :: "ex_world cview" where
  "ex_view0 = new_cview (NewStateView 0 0) (ex_state [] ex_pool)"

definition ex_joining :: "ex_world cview" where
  "ex_joining = get_enter ex_env 1 (get_fetch ex_env 0 None (get_enter ex_env 0 ex_view0))"

lemma ex_joining_pcs:
  "cvPc ex_joining 0 = Fetched None (Inr (newSnapshot [] ex_pool 1000 (2 * minute)))"
  "cvPc ex_joining 1 = Waiting 0" "cvExt ex_joining = ex_state [] ex_pool"
  "cvView ex_joining = NewStateView 0 0"
  by (simp_all add: ex_joining_def ex_view0_def new_cview_def get_enter_def get_fetch_def fresh_snap_def
      refresh_def NewStateView_def DefaultWorkerStaleAfter_def)

lemma ex_joining_reach: "conc_reach ex_env 2 ex_view0 ex_joining"
proof -
  let ?w1 = "get_enter ex_env 0 ex_view0" and ?w2 = "get_fetch ex_env 0 None (get_enter ex_env 0 ex_view0)"
  have "conc_step ex_env 2 ex_view0 ?w1"
    by (rule conc_enter) (simp_all add: ex_view0_def new_cview_def)
  moreover have "conc_step ex_env 2 ?w1 ?w2"
    by (rule conc_fetch)
      (simp_all add: ex_view0_def new_cview_def get_enter_def fresh_snap_def NewStateView_def)
  moreover have "conc_step ex_env 2 ?w2 ex_joining"
    unfolding ex_joining_def
    by (rule conc_enter)
      (simp_all add: ex_view0_def new_cview_def get_enter_def get_fetch_def fresh_snap_def refresh_def NewStateView_def)
  ultimately show ?thesis by (meson conc_start conc_next)
qed

text \<open>A fair run from there: the leader publishes, the waiter wakes, and then nothing happens.\<close>

definition ex_fair :: "nat \<Rightarrow> ex_world cview" where
  "ex_fair t =
     (let p = get_publish 0 None (Inr (newSnapshot [] ex_pool 1000 (2 * minute))) ex_joining in
      if t = 0 then ex_joining else if t = 1 then p else get_wake 1 p)"

lemma ex_fair_fair: "fair_run ex_env 2 1 ex_fair"
proof -
  let ?p = "get_publish 0 None (Inr (newSnapshot [] ex_pool 1000 (2 * minute))) ex_joining"
  have 0: "ex_fair 0 = ex_joining" "ex_fair (Suc 0) = ?p" "\<And>t. ex_fair (Suc (Suc t)) = get_wake 1 ?p"
    by (simp_all add: ex_fair_def Let_def)
  have p: "get_step ex_env 2 0 ex_joining ?p" by (rule get_publishes) (simp_all add: ex_joining_pcs)
  have k: "get_step ex_env 2 1 ?p (get_wake 1 ?p)"
    by (rule get_wakes [where ch = 0]) (use ex_joining_pcs(2) in \<open>simp_all add: get_publish_def\<close>)
  have id: "uncancelled_step ex_env 2 1 w w" for w using un_world [of ex_env 2 1 w "cvExt w"] by simp
  have st: "uncancelled_step ex_env 2 1 (ex_fair t) (ex_fair (Suc t))" for t
  proof -
    consider "t = 0" | "t = Suc 0" | u where "t = Suc (Suc u)" by (metis nat.exhaust)
    then show ?thesis
      by cases (use un_get [OF p, of 1] un_get [OF k, of 1] id [of "get_wake 1 ?p"] in \<open>simp_all add: 0\<close>)
  qed
  have rest: "\<not> runnable (ex_fair (Suc (Suc t))) j" if "j < 2" for t j
    using that by (auto simp: 0 less_2_cases_iff runnable_def get_wake_def get_publish_def)
  have "\<exists>t'\<ge>t. \<not> runnable (ex_fair t') j \<or> get_step ex_env 2 j (ex_fair t') (ex_fair (Suc t'))" if "j < 2" for t j
    using rest [OF that, of t] by (intro exI [of _ "Suc (Suc t)"]) simp
  then show ?thesis using st by (simp add: fair_run_def)
qed

text \<open>C16. Refreshes are coalesced: in every reachable interleaving of any number of goroutines at most
  one is refreshing Orchard's state, and \<open>refreshing\<close> is set exactly while one is.\<close>

theorem at_most_one_refresh:
  assumes "conc_reach E n (new_cview v st) w" and "view_ok v"
  shows "card (leaders w) \<le> 1 \<and> (cvRefreshing w = None \<longleftrightarrow> leaders w = {})"
  using conc_ok_sel(3) [OF conc_reach_ok [OF assms]] by (auto simp: lead_ok_def split: option.splits)

theorem at_most_one_refresh_witness: "card (leaders ex_joining) \<le> 1"
  using at_most_one_refresh [OF ex_joining_reach [unfolded ex_view0_def]] by simp

text \<open>C18. Whatever the interleaving, a finished call hands out either no snapshot and an error, or a
  snapshot whose worker list is exactly the live part of the full list at its own time.\<close>

theorem concurrent_Get_contract:
  assumes "conc_reach E n (new_cview v st) w" and "view_ok v" and "cvPc w i = Finished (x, e)"
  shows "(x = None \<longrightarrow> e \<noteq> None) \<and>
    pred_option (\<lambda>sn. sWorkers sn = LiveWorkers (sAllWorkers sn) (staleAfter v) (sFetchedAt sn)) x"
proof -
  have "pc_ok (staleAfter v) (cvPc w i)" by (rule conc_ok_sel(4) [OF conc_reach_ok [OF assms(1,2)]])
  then have "x = None \<longrightarrow> e \<noteq> None" "pred_option (snapshot_ok (staleAfter v)) x" using assms(3) by simp_all
  then show ?thesis by (cases x) (simp_all add: snapshot_ok_workers)
qed

theorem concurrent_Get_contract_witness:
  "\<exists>sn. cvPc (get_publish 0 None (Inr (newSnapshot [] ex_pool 1000 (2 * minute))) ex_joining) 0 = Finished (Some sn, None) \<and>
     sWorkers sn = LiveWorkers (sAllWorkers sn) (2 * minute) (sFetchedAt sn)"
proof -
  let ?sn = "newSnapshot [] ex_pool 1000 (2 * minute)"
  let ?w = "get_publish 0 None (Inr ?sn) ex_joining"
  have "conc_step ex_env 2 ex_joining ?w" by (rule conc_publish) (simp_all add: ex_joining_pcs)
  then have r: "conc_reach ex_env 2 ex_view0 ?w" using ex_joining_reach conc_next by blast
  have f: "cvPc ?w 0 = Finished (Some ?sn, None)" by (simp add: get_publish_def)
  have "staleAfter (NewStateView 0 0) = 2 * minute" by (simp add: NewStateView_def DefaultWorkerStaleAfter_def)
  then show ?thesis
    using concurrent_Get_contract [OF r [unfolded ex_view0_def] _ f] f by auto
qed

text \<open>C17. No waiter is stuck: in every weakly fair run from a reachable state, a goroutine that waits for
  a refresh and is not cancelled is woken by the closing of its channel, whatever the other goroutines,
  their cancellations, invalidations and Orchard do in between, and even when later refreshes start before
  it wakes; it then takes the snapshot and the error the view holds at that moment.\<close>

theorem waiter_released:
  assumes "conc_reach E n (new_cview v st) (run 0)" and "view_ok v" and "fair_run E n i run"
    and "cvPc (run 0) i = Waiting ch"
  shows "\<exists>t. cvPc (run t) i = Waiting ch \<and> cvRefreshing (run t) \<noteq> Some ch \<and> run (Suc t) = get_wake i (run t)"
  by (rule fair_release [OF assms])

theorem waiter_released_witness:
  "\<exists>t. cvPc (ex_fair t) 1 = Waiting 0 \<and> ex_fair (Suc t) = get_wake 1 (ex_fair t)"
proof -
  have "ex_fair 0 = ex_joining" by (simp add: ex_fair_def)
  then show ?thesis
    using waiter_released [of ex_env 2 "NewStateView 0 0" "ex_state [] ex_pool" ex_fair 1 0]
      ex_joining_reach [unfolded ex_view0_def] ex_joining_pcs(2) ex_fair_fair by auto
qed

text \<open>C19. The sequential \<open>Get\<close> the other components are modelled with is the undisturbed run of one
  goroutine: same result, same view, same external state, and no refresh left in flight.\<close>

theorem undisturbed_Get:
  assumes "cvRefreshing w = None" and "i < n" and "cvPc w i = Ready"
    and "Get E (cvView w) (cvExt w) = (r, s', st')"
  shows "\<exists>w'. (conc_step E n)\<^sup>*\<^sup>* w w' \<and> cvPc w' i = Finished r \<and> cvView w' = s' \<and> cvExt w' = st' \<and>
    cvRefreshing w' = None"
proof -
  let ?u = "get_enter E i w"
  have enter: "conc_step E n w ?u" using assms(2,3) by (rule conc_enter)
  obtain x st where f: "fresh_snap E (cvView w) (cvExt w) = (x, st)" by (metis surj_pair)
  show ?thesis
  proof (cases x)
    case (Some sn)
    then have "cvPc ?u i = Finished r" "cvView ?u = s'" "cvExt ?u = st'" "cvRefreshing ?u = None"
      using f assms(1,4) by (simp_all add: get_enter_def Get_def)
    then show ?thesis using enter by blast
  next
    case None
    let ?ls = "snap (cvView w)"
    obtain q st2 where q: "refresh E (cvView w) st = (q, st2)" by (metis surj_pair)
    let ?f = "get_fetch E i ?ls ?u" and ?p = "get_publish i ?ls q (get_fetch E i ?ls ?u)"
    have u: "cvPc ?u i = Leading ?ls" "cvView ?u = cvView w" "cvExt ?u = st"
      using f None assms(1) by (simp_all add: get_enter_def)
    have fetch: "conc_step E n ?u ?f" using assms(2) u(1) by (rule conc_fetch)
    have fpc: "cvPc ?f i = Fetched ?ls q" using u q by (simp add: get_fetch_def)
    have publish: "conc_step E n ?f ?p" using assms(2) fpc by (rule conc_publish)
    have runs: "(conc_step E n)\<^sup>*\<^sup>* w ?p"
      using enter fetch publish by (meson converse_rtranclp_into_rtranclp rtranclp.rtrancl_refl)
    have "cvPc ?p i = Finished r \<and> cvView ?p = s' \<and> cvExt ?p = st' \<and> cvRefreshing ?p = None"
      using assms(4) f None q u
      by (cases q) (auto simp: get_publish_def get_fetch_def Get_def Let_def)
    then show ?thesis using runs by blast
  qed
qed

theorem undisturbed_Get_witness:
  "\<exists>w'. (conc_step ex_env 1)\<^sup>*\<^sup>* ex_view0 w' \<and>
     cvPc w' 0 = Finished (Some (newSnapshot [] ex_pool 1000 (2 * minute)), None)"
proof -
  have "staleAfter (NewStateView 0 0) = 2 * minute" by (simp add: NewStateView_def DefaultWorkerStaleAfter_def)
  then have "Get ex_env (cvView ex_view0) (cvExt ex_view0) =
      ((Some (newSnapshot [] ex_pool 1000 (2 * minute)), None),
       (NewStateView 0 0)\<lparr>snap := Some (newSnapshot [] ex_pool 1000 (2 * minute)), lastErr := None\<rparr>, ex_state [] ex_pool)"
    by (simp add: ex_view0_def new_cview_def Get_new_view Let_def)
  then show ?thesis
    using undisturbed_Get [of ex_view0 0 1 ex_env] by (auto simp: ex_view0_def new_cview_def)
qed

text \<open>C35. An invalidation that arrives while a refresh is in flight is lost: the leader still stores
  the snapshot it fetched before, and the next call within the time-to-live is served from it,
  although \<open>Invalidate\<close> promises that the next \<open>Get\<close> refreshes.\<close>

theorem invalidate_during_refresh_lost:
  assumes "cvPc w i = Fetched ls (Inr sn)" and "j \<noteq> i"
    and "time_Now E (cvExt w) = (now, st)" and "time_sub now (sFetchedAt sn) < ttl (cvView w)"
  shows "cvPc (get_enter E j (get_publish i ls (Inr sn) (view_Invalidate w))) j = Finished (Some sn, None)"
  using assms by (simp add: get_enter_def get_publish_def view_Invalidate_def Invalidate_def fresh_snap_def)

theorem invalidate_during_refresh_lost_witness:
  "cvPc (get_enter ex_env 1 (get_publish 0 None (Inr (newSnapshot [] ex_pool 1000 (2 * minute)))
     (view_Invalidate ex_joining))) 1 = Finished (Some (newSnapshot [] ex_pool 1000 (2 * minute)), None)"
  by (rule invalidate_during_refresh_lost [where now = 1000 and st = "ex_state [] ex_pool"])
    (simp_all add: ex_joining_pcs time_sub_def NewStateView_def DefaultStateViewTTL_def second_def)

end
