(* ===== verification/Sweep_Race.thy ===== *)
theory Sweep_Race
  imports Capacity_Model
begin

text \<open>
  The cleanup loop against the bridges, on the counter (\<^verbatim>\<open>bridge/cleanup.go\<close> over
  \<^verbatim>\<open>bridge/capacity.go\<close>). A sweep lists the VMs first and calls \<open>Reconcile\<close> with their number much
  later, after deleting the ones that are due; bridges acquire and release in between, and the
  assignment overwrites what they did. \<open>lag\<close> bounds how many held slots a listing may miss: slots
  whose VM is not created yet, is already deleted, or sits on a dead worker and is not counted. A
  listing may also count too many, \<open>B\<close> at most. After it the sweep pushes a new limit, any number from
  \<open>0\<close> to \<open>M\<close>: the fleet may shrink and grow from sweep to sweep.

  Shown: slots can be overcommitted this way, but the error does not build up from sweep to sweep:
  what is held never exceeds twice the largest limit plus \<open>lag\<close>.
\<close>

record 'cb race_sys =
  rcPool :: "'cb pool_sys"
  rcListed :: "int option"

abbreviation held_slots :: "nat \<Rightarrow> 'cb pool_sys \<Rightarrow> int" where
  "held_slots N p \<equiv> (\<Sum>i<N. held p i)"

inductive race_step :: "nat \<Rightarrow> int \<Rightarrow> int \<Rightarrow> int \<Rightarrow> 'cb race_sys \<Rightarrow> 'cb race_sys \<Rightarrow> bool" for N M lag B where
  race_pool: "pool_step N (rcPool s) p \<Longrightarrow> race_step N M lag B s (s\<lparr>rcPool := p\<rparr>)"
| race_list: "rcListed s = None \<Longrightarrow> 0 \<le> n \<Longrightarrow> n \<le> B \<Longrightarrow> held_slots N (rcPool s) - lag \<le> n \<Longrightarrow>
     race_step N M lag B s (s\<lparr>rcListed := Some n\<rparr>)"
| race_reconcile: "rcListed s = Some n \<Longrightarrow>
     race_step N M lag B s (s\<lparr>rcPool := (rcPool s)\<lparr>pool := Reconcile n (pool (rcPool s))\<rparr>, rcListed := None\<rparr>)"
| race_limit: "0 \<le> m \<Longrightarrow> m \<le> M \<Longrightarrow>
     race_step N M lag B s (s\<lparr>rcPool := (rcPool s)\<lparr>pool := fst (SetMax m (pool (rcPool s)))\<rparr>\<rparr>)"

inductive race_reach :: "nat \<Rightarrow> int \<Rightarrow> int \<Rightarrow> int \<Rightarrow> 'cb capacity \<Rightarrow> 'cb race_sys \<Rightarrow> bool" for N M lag B c0 where
  race_start: "race_reach N M lag B c0 \<lparr>rcPool = \<lparr>pool = c0, held = (\<lambda>_. 0)\<rparr>, rcListed = None\<rparr>"
| race_next: "race_reach N M lag B c0 s \<Longrightarrow> race_step N M lag B s t \<Longrightarrow> race_reach N M lag B c0 t"

subsection \<open>The invariant\<close>

text \<open>While a listing is outstanding, \<open>d\<close> and \<open>u\<close> stand for the error and the counter at the listing: the
  error has only shrunk since, and the counter has grown up to the limit at most.\<close>

definition listing_ok :: "int \<Rightarrow> int \<Rightarrow> int \<Rightarrow> int \<Rightarrow> int \<Rightarrow> int \<Rightarrow> bool" where
  "listing_ok M lag B n H cur \<longleftrightarrow> 0 \<le> n \<and> n \<le> B \<and>
     (\<exists>d u. 0 \<le> u \<and> H - cur \<le> d \<and> d + u - lag \<le> n \<and> cur \<le> max M u)"

definition race_inv :: "nat \<Rightarrow> int \<Rightarrow> int \<Rightarrow> int \<Rightarrow> 'cb race_sys \<Rightarrow> bool" where
  "race_inv N M lag B s \<longleftrightarrow>
     (let c = pool (rcPool s); H = held_slots N (rcPool s) in
      0 \<le> cmax c \<and> cmax c \<le> M \<and> 0 \<le> current c \<and> current c \<le> max M B \<and> (\<forall>i. 0 \<le> held (rcPool s) i) \<and>
      H - current c \<le> M + lag \<and> H \<le> 2 * M + lag \<and>
      (case rcListed s of None \<Rightarrow> True | Some n \<Rightarrow> listing_ok M lag B n H (current c)))"

lemma listing_okI:
  "0 \<le> n \<Longrightarrow> n \<le> B \<Longrightarrow> 0 \<le> u \<Longrightarrow> H - cur \<le> d \<Longrightarrow> d + u - lag \<le> n \<Longrightarrow> cur \<le> max M u \<Longrightarrow>
    listing_ok M lag B n H cur"
  by (auto simp: listing_ok_def)

lemma listing_ok_acquire:
  "listing_ok M lag B n H cur \<Longrightarrow> 0 \<le> a \<Longrightarrow> (a = 0 \<or> cur + a \<le> M) \<Longrightarrow> listing_ok M lag B n (H + a) (cur + a)"
  unfolding listing_ok_def by (elim conjE exE) (intro conjI exI; force)

lemma listing_ok_release:
  assumes "listing_ok M lag B n H cur" and "0 \<le> M" and "0 \<le> m"
  shows "listing_ok M lag B n (H - m) (max 0 (cur - m))"
proof -
  obtain d u where "0 \<le> n" "n \<le> B" "0 \<le> u" "H - cur \<le> d" "d + u - lag \<le> n" "cur \<le> max M u"
    using assms(1) by (auto simp: listing_ok_def)
  then show ?thesis using assms(2,3) by (intro listing_okI [of n B u _ _ d]) (auto simp: max_def)
qed

lemma listing_ok_error:
  "listing_ok M lag B n H cur \<Longrightarrow> 0 \<le> M \<Longrightarrow> H - n \<le> M + lag"
  unfolding listing_ok_def by (elim conjE exE) linarith

lemma race_cap_ok:
  assumes "race_inv N M lag B s" and "0 \<le> M" and "M \<le> 2 ^ 60" and "B \<le> 2 ^ 60"
  shows "cap_ok (pool (rcPool s))"
  using assms by (auto simp: race_inv_def Let_def cap_ok_def)

lemma held_le_sum:
  assumes "\<forall>i. 0 \<le> held p i" and "i < N"
  shows "held p i \<le> held_slots N p"
  using assms by (intro member_le_sum) auto

lemma race_inv_pool:
  assumes inv: "race_inv N M lag B s" and M: "0 \<le> M" "M \<le> 2 ^ 60" "B \<le> 2 ^ 60" "lag \<le> 2 ^ 60"
    and step: "pool_step N (rcPool s) p"
  shows "race_inv N M lag B (s\<lparr>rcPool := p\<rparr>)"
  using step
proof (cases rule: pool_step.cases)
  case (pool_acquire i n a c)
  let ?c = "pool (rcPool s)" and ?H = "held_slots N (rcPool s)"
  note ok = race_cap_ok [OF inv M(1,2,3)]
  note r = cap.acquire_result [OF ok pool_acquire(3,4)]
  have lim: "a = 0 \<or> current ?c + a \<le> M"
    using TryAcquire_amount [OF ok pool_acquire(3)] pool_acquire(4) inv by (auto simp: race_inv_def Let_def)
  have H: "held_slots N p = ?H + a" using pool_acquire by (simp add: sum_fun_upd del: fun_upd_apply)
  have "\<forall>j. 0 \<le> held p j" using inv pool_acquire(1) r(4) by (auto simp: race_inv_def Let_def)
  moreover have "pool p = c" using pool_acquire(1) by simp
  ultimately show ?thesis using inv r lim listing_ok_acquire [OF _ r(4) lim, of lag B _ ?H]
    by (auto simp: race_inv_def Let_def H split: option.splits)
next
  case (pool_release i m)
  let ?c = "pool (rcPool s)" and ?H = "held_slots N (rcPool s)"
  note ok = race_cap_ok [OF inv M(1,2,3)]
  have nn: "\<forall>j. 0 \<le> held (rcPool s) j" "?H \<le> 2 * M + lag" using inv by (simp_all add: race_inv_def Let_def)
  have "m \<le> ?H" using held_le_sum [OF nn(1) pool_release(2)] pool_release(4) by simp
  then have m: "m < 2 ^ 62" using nn(2) M by simp
  have cur: "current (Release m ?c) = max 0 (current ?c - m)" by (rule Release_used [OF ok pool_release(3) m])
  have H: "held_slots N p = ?H - m" using pool_release by (simp add: sum_fun_upd del: fun_upd_apply)
  have "\<forall>j. 0 \<le> held p j" using nn(1) pool_release(1,4) by auto
  moreover have "pool p = Release m ?c" using pool_release(1) by simp
  ultimately show ?thesis using inv cur pool_release(3) M(1) listing_ok_release [of M lag B _ ?H "current ?c" m]
    by (auto simp: race_inv_def Let_def H split: option.splits)
qed

lemma race_step_inv:
  assumes "race_step N M lag B s t" and inv: "race_inv N M lag B s"
    and M: "0 \<le> M" "M \<le> 2 ^ 60" "0 \<le> lag" "lag \<le> 2 ^ 60" "B \<le> 2 ^ 60"
  shows "race_inv N M lag B t"
  using assms(1)
proof cases
  case (race_pool p)
  then show ?thesis using race_inv_pool [OF inv M(1,2,5,4)] by simp
next
  case (race_list n)
  let ?H = "held_slots N (rcPool s)" and ?cur = "current (pool (rcPool s))"
  have "listing_ok M lag B n ?H ?cur" using race_list inv
    by (intro listing_okI [of n B ?cur _ _ "?H - ?cur"]) (auto simp: race_inv_def Let_def)
  then show ?thesis using inv race_list(1) by (auto simp: race_inv_def Let_def)
next
  case (race_reconcile n)
  have l: "listing_ok M lag B n (held_slots N (rcPool s)) (current (pool (rcPool s)))"
    using inv race_reconcile(2) by (simp add: race_inv_def Let_def)
  show ?thesis using inv race_reconcile(1) listing_ok_error [OF l M(1)] l
    by (auto simp: race_inv_def Let_def Reconcile_def listing_ok_def)
next
  case (race_limit m)
  then show ?thesis using inv by (auto simp: race_inv_def Let_def SetMax_def split: option.splits)
qed

lemma race_reach_inv:
  assumes "race_reach N M lag B c0 s" and "0 \<le> current c0" and "current c0 \<le> cmax c0" and "cmax c0 \<le> M"
    and "M \<le> 2 ^ 60" "0 \<le> lag" "lag \<le> 2 ^ 60" "B \<le> 2 ^ 60"
  shows "race_inv N M lag B s"
  using assms(1)
proof (induction rule: race_reach.induct)
  case race_start
  then show ?case using assms by (simp add: race_inv_def)
next
  case (race_next s t)
  show ?case by (rule race_step_inv [OF race_next(2,3)]) (use assms in auto)
qed

subsection \<open>Properties\<close>

text \<open>C21. Sweeps that overwrite the counter while bridges acquire slots can overcommit the pool, but the
  error does not build up: over any run, with any number of sweeps and changes of the limit up to
  \<open>M\<close>, the slots held never exceed \<open>2 * M\<close> plus the slots a single listing may miss. The witness is a
  run that holds two slots of a pool of one, with exact listings and a constant limit.\<close>

theorem sweep_races_bounded:
  assumes "race_reach N M lag B c0 s" and "0 \<le> current c0" and "current c0 \<le> cmax c0"
    and "cmax c0 \<le> M" and "M \<le> 2 ^ 60" and "0 \<le> lag" and "lag \<le> 2 ^ 60" and "B \<le> 2 ^ 60"
  shows "(\<Sum>i<N. held (rcPool s) i) \<le> 2 * M + lag \<and>
    (\<Sum>i<N. held (rcPool s) i) - InUse (pool (rcPool s)) \<le> M + lag \<and>
    0 \<le> Max_slots (pool (rcPool s)) \<and> Max_slots (pool (rcPool s)) \<le> M \<and> cap_ok (pool (rcPool s))"
proof -
  have M: "0 \<le> M" using assms(2,3,4) by simp
  note inv = race_reach_inv [OF assms]
  show ?thesis using race_cap_ok [OF inv M assms(5,8)] inv
    by (simp add: race_inv_def Let_def Max_slots_def InUse_def)
qed

theorem sweep_races_bounded_witness:
  "\<exists>s. race_reach 2 1 0 1 (NewCapacity 1 :: nat capacity) s \<and> held (rcPool s) 0 + held (rcPool s) 1 = 2 \<and>
    Max_slots (pool (rcPool s)) = 1"
proof -
  let ?c = "NewCapacity 1 :: nat capacity" and ?h = "\<lambda>_::nat. 0::int"
  let ?s0 = "\<lparr>rcPool = \<lparr>pool = ?c, held = ?h\<rparr>, rcListed = None\<rparr>"
  let ?s1 = "?s0\<lparr>rcListed := Some 0\<rparr>"
  let ?p2 = "\<lparr>pool = ?c\<lparr>current := 1\<rparr>, held = ?h(0 := 1)\<rparr>"
  let ?p3 = "\<lparr>pool = ?c, held = ?h(0 := 1)\<rparr>"
  let ?p4 = "\<lparr>pool = ?c\<lparr>current := 1\<rparr>, held = ?h(0 := 1, 1 := 1)\<rparr>"
  have acq: "TryAcquire 1 ?c = (1, ?c\<lparr>current := 1\<rparr>)" by (simp add: TryAcquire_def wrap64_def)
  have r1: "race_reach 2 1 0 1 ?c ?s1"
    by (rule race_next [OF race_start]) (rule race_list, simp_all)
  have "pool_step 2 (rcPool ?s1) ?p2"
    using pool_acquire [of 0 2 1 "rcPool ?s1"] acq by simp
  from race_next [OF r1 race_pool [OF this]]
  have r2: "race_reach 2 1 0 1 ?c \<lparr>rcPool = ?p2, rcListed = Some 0\<rparr>" by simp
  have c: "(?c\<lparr>current := 1\<rparr>)\<lparr>current := 0\<rparr> = ?c" by (simp add: NewCapacity_def)
  from race_next [OF r2 race_reconcile [of _ 0]]
  have r3: "race_reach 2 1 0 1 ?c \<lparr>rcPool = ?p3, rcListed = None\<rparr>" by (simp add: Reconcile_def c)
  have "pool_step 2 ?p3 ?p4" using pool_acquire [of 1 2 1 ?p3] acq by simp
  from race_next [OF r3 race_pool [of 2 "\<lparr>rcPool = ?p3, rcListed = None\<rparr>"]] this
  have r4: "race_reach 2 1 0 1 ?c \<lparr>rcPool = ?p4, rcListed = None\<rparr>" by simp
  from sweep_races_bounded [OF this] show ?thesis
    using r4 by (intro exI [of _ "\<lparr>rcPool = ?p4, rcListed = None\<rparr>"]) (simp add: Max_slots_def)
qed

end
