(* ===== verification/VM_Lifecycle.thy ===== *)
theory VM_Lifecycle
  imports Manager_Safety
begin

text \<open>
  Where a VM is, under every interleaving of the scale sets' goroutines and the cleanup goroutine. Handlers and
  sweeps are cut at their critical sections and remote calls (\<^verbatim>\<open>bridge/bridge.go\<close>, \<^verbatim>\<open>bridge/cleanup.go\<close>,
  \<^verbatim>\<open>manager/manager.go\<close>): a bridge joins, reads the snapshot it hydrates from, and inserts its VMs later; a
  create is visible in Orchard before the bridge tracks it; a completion untracks, then deletes, then
  hands a failed delete over; a sweep lists, deletes, clears, and purges the bridges one lock at a time,
  and at its end drops the queued names it has not seen. Each section has a label (\<open>step_label\<close>), and the
  operations are those of the sequential model. VM names are unique, as UUIDs are, and \<open>own\<close> says
  which scale set's prefix a name has; anything else may delete a VM at any time, but only this process
  creates VMs under managed names.

  Two ghosts record what can go wrong: \<open>lfExposed\<close>, the VMs created while a sweep was under way, missed by
  a sweep's listing (it may be a cached snapshot), left behind by a create that reported an error, or
  not adopted yet; and \<open>lfGone\<close>, the VMs that disappeared without the bridge being told.
\<close>

text \<open>What the goroutine of a scale set holds: a bridge joins without VMs, then has read the names it adopts;
  afterwards its listener runs one handler at a time.\<close>

datatype hand = Joining | Hydrating "string list" | Free | Created string | Untracked string | Undeleted string

datatype sweep_pc = Resting | Sweeping "string fset" | Clearing "string fset" string
  | Purging "string fset" string nat

datatype step_label = SSnapshot nat "string list" | SHydrate nat | SCreate nat string | STrack nat | SAbort nat
  | SComplete nat string | SDeleted nat | SFailed nat | SMark nat | SVanish string
  | SList "string fset" | SReap string | SClear | SPurge | SPurged | SRecover | SRetain

record life =
  lfOrchard :: "string fset"
  lfEver :: "string fset"
  lfBridge :: "nat \<Rightarrow> bridge"
  lfHand :: "nat \<Rightarrow> hand"
  lfCleanup :: cleanup
  lfSweep :: sweep_pc
  lfExposed :: "string fset"
  lfGone :: "string fset"

fun in_hand :: "hand \<Rightarrow> string option" where
  "in_hand Joining = None" | "in_hand (Hydrating vs) = None" | "in_hand Free = None" | "in_hand (Created v) = Some v" | "in_hand (Untracked v) = Some v"
| "in_hand (Undeleted v) = Some v"

definition tracked :: "life \<Rightarrow> nat \<Rightarrow> string \<Rightarrow> bool" where
  "tracked s i v \<longleftrightarrow> v |\<in>| fmran (activeVMs (lfBridge s i))"

definition with_active :: "nat \<Rightarrow> ((string, string) fmap \<Rightarrow> (string, string) fmap) \<Rightarrow> life \<Rightarrow> life" where
  "with_active i f s = s\<lparr>lfBridge := (lfBridge s)(i := (lfBridge s i)\<lparr>activeVMs := f (activeVMs (lfBridge s i))\<rparr>)\<rparr>"

fun sweeping :: "sweep_pc \<Rightarrow> string fset option" where
  "sweeping Resting = None" | "sweeping (Sweeping L) = Some L" | "sweeping (Clearing L v) = Some L"
| "sweeping (Purging L v k) = Some L"

text \<open>The names, among those a bridge adopts, that a sweep under way has not missed.\<close>

definition shown :: "sweep_pc \<Rightarrow> string list \<Rightarrow> string fset" where
  "shown pc vs = (case sweeping pc of None \<Rightarrow> fset_of_list vs | Some L \<Rightarrow> fset_of_list vs |\<inter>| L)"

definition adopt_all :: "string list \<Rightarrow> (string, string) fmap \<Rightarrow> (string, string) fmap" where
  "adopt_all vs m = fold (\<lambda>v. fmupd v v) vs m"

inductive life_step :: "nat \<Rightarrow> (string \<Rightarrow> nat) \<Rightarrow> life \<Rightarrow> step_label \<Rightarrow> life \<Rightarrow> bool" for N own where
  life_snapshot: "i < N \<Longrightarrow> lfHand s i = Joining \<Longrightarrow> \<forall>v\<in>set vs. own v = i \<and> v \<noteq> [] \<Longrightarrow>
     life_step N own s (SSnapshot i vs) (s\<lparr>lfEver := lfEver s |\<union>| fset_of_list vs, lfHand := (lfHand s)(i := Hydrating vs)\<rparr>)"
| life_hydrate: "i < N \<Longrightarrow> lfHand s i = Hydrating vs \<Longrightarrow>
     life_step N own s (SHydrate i) (with_active i (adopt_all vs) (s\<lparr>lfHand := (lfHand s)(i := Free),
       lfExposed := lfExposed s |-| shown (lfSweep s) vs, lfGone := lfGone s |\<union>| (fset_of_list vs |-| lfOrchard s)\<rparr>))"
| life_create: "i < N \<Longrightarrow> lfHand s i = Free \<Longrightarrow> own v = i \<Longrightarrow> v \<noteq> [] \<Longrightarrow> v |\<notin>| lfEver s \<Longrightarrow>
     life_step N own s (SCreate i v) (s\<lparr>lfOrchard := finsert v (lfOrchard s), lfEver := finsert v (lfEver s),
       lfHand := (lfHand s)(i := Created v),
       lfExposed := (if lfSweep s = Resting then lfExposed s else finsert v (lfExposed s))\<rparr>)"
| life_track: "i < N \<Longrightarrow> lfHand s i = Created v \<Longrightarrow>
     life_step N own s (STrack i) (with_active i (fmupd v v) (s\<lparr>lfHand := (lfHand s)(i := Free)\<rparr>))"
| life_abort: "i < N \<Longrightarrow> lfHand s i = Created v \<Longrightarrow>
     life_step N own s (SAbort i) (s\<lparr>lfHand := (lfHand s)(i := Free), lfExposed := finsert v (lfExposed s)\<rparr>)"
| life_complete: "i < N \<Longrightarrow> lfHand s i = Free \<Longrightarrow> fmlookup (activeVMs (lfBridge s i)) r = Some v \<Longrightarrow>
     life_step N own s (SComplete i r) (with_active i (fmdrop r) (s\<lparr>lfHand := (lfHand s)(i := Untracked v)\<rparr>))"
| life_deleted: "i < N \<Longrightarrow> lfHand s i = Untracked v \<Longrightarrow>
     life_step N own s (SDeleted i) (s\<lparr>lfOrchard := lfOrchard s |-| {|v|}, lfHand := (lfHand s)(i := Free)\<rparr>)"
| life_failed: "i < N \<Longrightarrow> lfHand s i = Untracked v \<Longrightarrow>
     life_step N own s (SFailed i) (s\<lparr>lfHand := (lfHand s)(i := Undeleted v)\<rparr>)"
| life_mark: "i < N \<Longrightarrow> lfHand s i = Undeleted v \<Longrightarrow>
     life_step N own s (SMark i) (s\<lparr>lfHand := (lfHand s)(i := Free), lfCleanup := MarkForDeletion v (lfCleanup s)\<rparr>)"
| life_vanish: "v |\<in>| lfOrchard s \<Longrightarrow>
     life_step N own s (SVanish v) (s\<lparr>lfOrchard := lfOrchard s |-| {|v|}, lfGone := finsert v (lfGone s)\<rparr>)"
| life_list: "lfSweep s = Resting \<Longrightarrow>
     life_step N own s (SList L) (s\<lparr>lfSweep := Sweeping L, lfExposed := lfExposed s |\<union>| (lfOrchard s |-| L)\<rparr>)"
| life_reap: "lfSweep s = Sweeping L \<Longrightarrow> v |\<in>| L \<Longrightarrow>
     life_step N own s (SReap v) (s\<lparr>lfOrchard := lfOrchard s |-| {|v|}, lfEver := finsert v (lfEver s), lfSweep := Clearing L v,
       lfGone := (if \<exists>i<N. lfHand s i = Created v then finsert v (lfGone s) else lfGone s)\<rparr>)"
| life_clear: "lfSweep s = Clearing L v \<Longrightarrow>
     life_step N own s SClear (s\<lparr>lfCleanup := clearPendingDelete v (lfCleanup s), lfSweep := Purging L v 0\<rparr>)"
| life_purge: "lfSweep s = Purging L v k \<Longrightarrow> k < N \<Longrightarrow>
     life_step N own s SPurge (s\<lparr>lfBridge := (lfBridge s)(k := PurgeActiveVM v (lfBridge s k)), lfSweep := Purging L v (Suc k)\<rparr>)"
| life_purged: "lfSweep s = Purging L v N \<Longrightarrow> life_step N own s SPurged (s\<lparr>lfSweep := Sweeping L\<rparr>)"
| life_recover: "lfSweep s = Purging L v k \<Longrightarrow>
     life_step N own s SRecover (s\<lparr>lfSweep := Sweeping L, lfGone := finsert v (lfGone s)\<rparr>)"
| life_retain: "lfSweep s = Sweeping L \<Longrightarrow>
     life_step N own s SRetain (s\<lparr>lfCleanup := retainPendingDeletes L (lfCleanup s), lfSweep := Resting\<rparr>)"

inductive life_reach :: "nat \<Rightarrow> (string \<Rightarrow> nat) \<Rightarrow> life \<Rightarrow> life \<Rightarrow> bool" for N own s0 where
  life_start: "life_reach N own s0 s0"
| life_next: "life_reach N own s0 s \<Longrightarrow> life_step N own s a t \<Longrightarrow> life_reach N own s0 t"

text \<open>
  A start: some bridges track the VMs they hydrated, each of its own scale set, the others are still to join;
  nothing is under way. A VM no bridge has adopted counts as exposed until one does.
\<close>

definition life_init :: "nat \<Rightarrow> (string \<Rightarrow> nat) \<Rightarrow> life \<Rightarrow> bool" where
  "life_init N own s \<longleftrightarrow> (\<forall>i. lfHand s i = Free \<or> lfHand s i = Joining) \<and> lfSweep s = Resting \<and> lfEver s = lfOrchard s \<and>
     (\<forall>i r v. fmlookup (activeVMs (lfBridge s i)) r = Some v \<longrightarrow>
        i < N \<and> own v = i \<and> r = v \<and> v \<noteq> [] \<and> v |\<in>| lfOrchard s) \<and>
     (\<forall>v. v |\<in>| lfOrchard s \<longrightarrow> (\<exists>i. tracked s i v) \<or> v |\<in>| lfExposed s)"

subsection \<open>The invariant\<close>

definition place :: "life \<Rightarrow> nat \<Rightarrow> string \<Rightarrow> bool" where
  "place s i v \<longleftrightarrow> tracked s i v \<or> in_hand (lfHand s i) = Some v"

fun reaped :: "sweep_pc \<Rightarrow> (string \<times> nat) option" where
  "reaped (Clearing L v) = Some (v, 0)" | "reaped (Purging L v k) = Some (v, k)" | "reaped _ = None"

definition names_fine :: "nat \<Rightarrow> (string \<Rightarrow> nat) \<Rightarrow> life \<Rightarrow> bool" where
  "names_fine N own s \<longleftrightarrow> lfOrchard s |\<subseteq>| lfEver s \<and>
     (\<forall>i r v. fmlookup (activeVMs (lfBridge s i)) r = Some v \<longrightarrow> r = v) \<and>
     (\<forall>i v. place s i v \<longrightarrow> i < N \<and> own v = i \<and> v \<noteq> [] \<and> v |\<in>| lfEver s) \<and>
     (\<forall>i vs. lfHand s i = Hydrating vs \<longrightarrow> (\<forall>v\<in>set vs. own v = i \<and> v \<noteq> [] \<and> v |\<in>| lfEver s)) \<and>
     (\<forall>i v. tracked s i v \<longrightarrow> in_hand (lfHand s i) \<noteq> Some v)"

definition accounted :: "life \<Rightarrow> bool" where
  "accounted s \<longleftrightarrow> (\<forall>v. v |\<in>| lfOrchard s \<longrightarrow>
     (\<exists>i. place s i v) \<or> v |\<in>| pendingDeletes (lfCleanup s) \<or> v |\<in>| lfExposed s)"

definition sweep_fine :: "life \<Rightarrow> bool" where
  "sweep_fine s \<longleftrightarrow>
     (\<forall>L. sweeping (lfSweep s) = Some L \<longrightarrow> lfOrchard s |\<subseteq>| L |\<union>| lfExposed s) \<and>
     (\<forall>v k. reaped (lfSweep s) = Some (v, k) \<longrightarrow> v |\<notin>| lfOrchard s \<and> v |\<in>| lfEver s)"

definition ghosts_known :: "life \<Rightarrow> bool" where
  "ghosts_known s \<longleftrightarrow>
     (\<forall>i v. lfHand s i = Created v \<longrightarrow> v |\<in>| lfOrchard s \<or> v |\<in>| lfGone s) \<and>
     (\<forall>i v. tracked s i v \<longrightarrow> v |\<in>| lfOrchard s \<or> v |\<in>| lfGone s \<or>
        (\<exists>k. reaped (lfSweep s) = Some (v, k) \<and> k \<le> i))"

definition life_ok :: "nat \<Rightarrow> (string \<Rightarrow> nat) \<Rightarrow> life \<Rightarrow> bool" where
  "life_ok N own s \<longleftrightarrow> names_fine N own s \<and> accounted s \<and> sweep_fine s \<and> ghosts_known s"

lemmas life_defs = names_fine_def accounted_def sweep_fine_def ghosts_known_def

lemma init_ok:
  assumes "life_init N own s"
  shows "life_ok N own s"
proof -
  have t: "tracked s i v \<longleftrightarrow> fmlookup (activeVMs (lfBridge s i)) v = Some v" for i v
    using assms by (fastforce simp: life_init_def tracked_def fmlookup_ran_iff)
  have h: "in_hand (lfHand s i) = None" "lfHand s i \<noteq> Hydrating vs" "lfHand s i \<noteq> Created v" for i vs v
  proof -
    have "lfHand s i = Free \<or> lfHand s i = Joining" using assms by (simp add: life_init_def)
    then show "in_hand (lfHand s i) = None" "lfHand s i \<noteq> Hydrating vs" "lfHand s i \<noteq> Created v" by auto
  qed
  then show ?thesis using assms t by (auto simp: life_ok_def life_defs life_init_def place_def)
qed

lemma tracked_same [simp]:
  "tracked (s\<lparr>lfOrchard := a\<rparr>) = tracked s" "tracked (s\<lparr>lfEver := a\<rparr>) = tracked s" "tracked (s\<lparr>lfHand := h\<rparr>) = tracked s"
  "tracked (s\<lparr>lfCleanup := c\<rparr>) = tracked s" "tracked (s\<lparr>lfSweep := p\<rparr>) = tracked s" "tracked (s\<lparr>lfExposed := a\<rparr>) = tracked s"
  "tracked (s\<lparr>lfGone := a\<rparr>) = tracked s"
  by (simp_all add: tracked_def fun_eq_iff)

definition keyed_by_name :: "life \<Rightarrow> bool" where
  "keyed_by_name s \<longleftrightarrow> (\<forall>i r v. fmlookup (activeVMs (lfBridge s i)) r = Some v \<longrightarrow> r = v)"

lemma tracked_lookup: "keyed_by_name s \<Longrightarrow> tracked s i v \<longleftrightarrow> fmlookup (activeVMs (lfBridge s i)) v = Some v"
  by (auto simp: keyed_by_name_def tracked_def fmlookup_ran_iff)

lemma tracked_put:
  assumes "keyed_by_name s"
  shows "keyed_by_name (with_active i (fmupd v v) s)"
    and "tracked (with_active i (fmupd v v) s) j x \<longleftrightarrow> tracked s j x \<or> j = i \<and> x = v"
proof -
  show k: "keyed_by_name (with_active i (fmupd v v) s)"
    using assms by (auto simp: keyed_by_name_def with_active_def)
  show "tracked (with_active i (fmupd v v) s) j x \<longleftrightarrow> tracked s j x \<or> j = i \<and> x = v"
    unfolding tracked_lookup [OF k] tracked_lookup [OF assms] by (auto simp: with_active_def)
qed

lemma tracked_drop:
  assumes "keyed_by_name s"
  shows "keyed_by_name (with_active i (fmdrop v) s)"
    and "tracked (with_active i (fmdrop v) s) j x \<longleftrightarrow> tracked s j x \<and> \<not> (j = i \<and> x = v)"
proof -
  show k: "keyed_by_name (with_active i (fmdrop v) s)"
    using assms by (auto simp: keyed_by_name_def with_active_def split: if_splits)
  show "tracked (with_active i (fmdrop v) s) j x \<longleftrightarrow> tracked s j x \<and> \<not> (j = i \<and> x = v)"
    unfolding tracked_lookup [OF k] tracked_lookup [OF assms] by (auto simp: with_active_def)
qed

lemma purge_drop: "s\<lparr>lfBridge := (lfBridge s)(k := PurgeActiveVM v (lfBridge s k))\<rparr> = with_active k (fmdrop v) s"
  by (simp add: with_active_def PurgeActiveVM_def)

lemma with_active_sel [simp]:
  "lfOrchard (with_active i f s) = lfOrchard s" "lfEver (with_active i f s) = lfEver s" "lfHand (with_active i f s) = lfHand s"
  "lfCleanup (with_active i f s) = lfCleanup s" "lfSweep (with_active i f s) = lfSweep s" "lfExposed (with_active i f s) = lfExposed s"
  "lfGone (with_active i f s) = lfGone s"
  by (simp_all add: with_active_def)

lemma keyed_same [simp]:
  "keyed_by_name (s\<lparr>lfOrchard := a\<rparr>) = keyed_by_name s" "keyed_by_name (s\<lparr>lfEver := a\<rparr>) = keyed_by_name s"
  "keyed_by_name (s\<lparr>lfHand := h\<rparr>) = keyed_by_name s" "keyed_by_name (s\<lparr>lfCleanup := c\<rparr>) = keyed_by_name s"
  "keyed_by_name (s\<lparr>lfSweep := p\<rparr>) = keyed_by_name s" "keyed_by_name (s\<lparr>lfExposed := a\<rparr>) = keyed_by_name s"
  "keyed_by_name (s\<lparr>lfGone := a\<rparr>) = keyed_by_name s"
  by (simp_all add: keyed_by_name_def)

lemma names_keyed: "names_fine N own s \<longleftrightarrow> keyed_by_name s \<and> lfOrchard s |\<subseteq>| lfEver s \<and>
     (\<forall>i v. place s i v \<longrightarrow> i < N \<and> own v = i \<and> v \<noteq> [] \<and> v |\<in>| lfEver s) \<and>
     (\<forall>i vs. lfHand s i = Hydrating vs \<longrightarrow> (\<forall>v\<in>set vs. own v = i \<and> v \<noteq> [] \<and> v |\<in>| lfEver s)) \<and>
     (\<forall>i v. tracked s i v \<longrightarrow> in_hand (lfHand s i) \<noteq> Some v)"
  by (auto simp: names_fine_def keyed_by_name_def)

lemmas life_eqs = names_keyed accounted_def sweep_fine_def ghosts_known_def place_def

text \<open>The sections of a handler.\<close>

lemma life_okI: "names_fine N own s \<Longrightarrow> accounted s \<Longrightarrow> sweep_fine s \<Longrightarrow> ghosts_known s \<Longrightarrow> life_ok N own s"
  by (simp add: life_ok_def)

lemma tracked_adopt:
  assumes "keyed_by_name s"
  shows "keyed_by_name (with_active i (adopt_all vs) s)"
    and "tracked (with_active i (adopt_all vs) s) j x \<longleftrightarrow> tracked s j x \<or> j = i \<and> x \<in> set vs"
proof -
  have a: "adopt_all vs = foldl (\<lambda>f v. fmupd v v \<circ> f) id vs" for vs
    by (induction vs rule: rev_induct) (simp_all add: adopt_all_def fun_eq_iff)
  have "keyed_by_name (with_active i (adopt_all vs) s) \<and>
      (\<forall>j x. tracked (with_active i (adopt_all vs) s) j x \<longleftrightarrow> tracked s j x \<or> j = i \<and> x \<in> set vs)"
  proof (induction vs rule: rev_induct)
    case Nil
    have "with_active i (adopt_all []) s = s" by (simp add: with_active_def adopt_all_def)
    then show ?case using assms by simp
  next
    case (snoc v vs)
    have "with_active i (adopt_all (vs @ [v])) s = with_active i (fmupd v v) (with_active i (adopt_all vs) s)"
      by (simp add: with_active_def adopt_all_def)
    then show ?case using snoc tracked_put by auto
  qed
  then show "keyed_by_name (with_active i (adopt_all vs) s)"
    "tracked (with_active i (adopt_all vs) s) j x \<longleftrightarrow> tracked s j x \<or> j = i \<and> x \<in> set vs" by blast+
qed

lemma snapshot_ok:
  assumes "life_ok N own s" and "i < N" "lfHand s i = Joining" "\<forall>v\<in>set vs. own v = i \<and> v \<noteq> []"
  shows "life_ok N own (s\<lparr>lfEver := lfEver s |\<union>| fset_of_list vs, lfHand := (lfHand s)(i := Hydrating vs)\<rparr>)" (is "life_ok N own ?t")
proof -
  have pl: "place ?t j x = place s j x" for j x using assms(3) by (auto simp: place_def)
  show ?thesis
  proof (rule life_okI)
    show "names_fine N own ?t" using assms pl by (auto simp: life_ok_def names_keyed fset_of_list_elem)
    show "accounted ?t" using assms pl by (simp add: life_ok_def accounted_def)
  qed (use assms in \<open>auto simp: life_ok_def sweep_fine_def ghosts_known_def\<close>)
qed

lemma hydrate_ok:
  assumes "life_ok N own s" and "i < N" "lfHand s i = Hydrating vs"
  shows "life_ok N own (with_active i (adopt_all vs) (s\<lparr>lfHand := (lfHand s)(i := Free),
       lfExposed := lfExposed s |-| shown (lfSweep s) vs, lfGone := lfGone s |\<union>| (fset_of_list vs |-| lfOrchard s)\<rparr>))"
    (is "life_ok N own ?t")
proof -
  let ?s = "s\<lparr>lfHand := (lfHand s)(i := Free), lfExposed := lfExposed s |-| shown (lfSweep s) vs,
    lfGone := lfGone s |\<union>| (fset_of_list vs |-| lfOrchard s)\<rparr>"
  have k: "keyed_by_name ?s" using assms(1) by (simp add: life_ok_def names_keyed)
  have tr: "tracked ?t j x \<longleftrightarrow> tracked s j x \<or> j = i \<and> x \<in> set vs" for j x using tracked_adopt(2) [OF k] by simp
  have pl: "place ?t j x \<longleftrightarrow> place s j x \<or> j = i \<and> x \<in> set vs" for j x using tr assms(3) by (auto simp: place_def)
  have sh: "x |\<in>| shown (lfSweep s) vs \<Longrightarrow> x \<in> set vs" for x
    by (auto simp: shown_def fset_of_list_elem split: option.splits)
  show ?thesis
  proof (rule life_okI)
    show "names_fine N own ?t" using assms tracked_adopt(1) [OF k] pl tr by (auto simp: life_ok_def names_keyed)
    show "accounted ?t" using assms(1) pl sh by (auto simp: life_ok_def accounted_def)
    show "sweep_fine ?t" using assms(1) by (auto simp: life_ok_def sweep_fine_def shown_def)
    show "ghosts_known ?t" using assms(1) tr by (auto simp: life_ok_def ghosts_known_def fset_of_list_elem)
  qed
qed

lemma create_ok:
  assumes "life_ok N own s" and "i < N" "lfHand s i = Free" "own v = i" "v \<noteq> []" "v |\<notin>| lfEver s"
  shows "life_ok N own (s\<lparr>lfOrchard := finsert v (lfOrchard s), lfEver := finsert v (lfEver s),
       lfHand := (lfHand s)(i := Created v),
       lfExposed := (if lfSweep s = Resting then lfExposed s else finsert v (lfExposed s))\<rparr>)" (is "life_ok N own ?t")
proof -
  have v: "\<not> place s j v" "v |\<notin>| lfOrchard s" for j using assms by (auto simp: life_ok_def names_fine_def)
  have pl: "place ?t j x \<longleftrightarrow> place s j x \<or> j = i \<and> x = v" for j x using assms(3) by (auto simp: place_def)
  show ?thesis
  proof (rule life_okI)
    show "names_fine N own ?t" using assms pl v by (auto simp: life_ok_def names_keyed) (auto simp: place_def)
    show "accounted ?t" using assms pl by (auto simp: life_ok_def accounted_def)
    show "sweep_fine ?t" using assms by (auto simp: life_ok_def sweep_fine_def)
    show "ghosts_known ?t" using assms by (auto simp: life_ok_def ghosts_known_def)
  qed
qed

lemma place_own: "life_ok N own s \<Longrightarrow> place s i v \<Longrightarrow> i < N \<and> own v = i \<and> v \<noteq> [] \<and> v |\<in>| lfEver s"
  unfolding life_ok_def names_fine_def by blast

lemma tracked_not_held: "life_ok N own s \<Longrightarrow> tracked s i v \<Longrightarrow> in_hand (lfHand s i) \<noteq> Some v"
  unfolding life_ok_def names_fine_def by blast

lemma in_hand_place:
  assumes "life_ok N own s" and "in_hand (lfHand s i) = Some v"
  shows "place s j v \<longleftrightarrow> j = i" and "\<not> tracked s j v"
proof -
  have i: "place s i v" using assms(2) by (simp add: place_def)
  show j: "place s j v \<longleftrightarrow> j = i" using place_own [OF assms(1)] i by blast
  show "\<not> tracked s j v" using j tracked_not_held [OF assms(1)] assms(2) place_def by blast
qed

lemma track_ok:
  assumes "life_ok N own s" and "i < N" "lfHand s i = Created v"
  shows "life_ok N own (with_active i (fmupd v v) (s\<lparr>lfHand := (lfHand s)(i := Free)\<rparr>))"
proof -
  let ?s = "s\<lparr>lfHand := (lfHand s)(i := Free)\<rparr>"
  let ?t = "with_active i (fmupd v v) ?s"
  have k: "keyed_by_name ?s" using assms(1) by (simp add: life_ok_def names_keyed)
  have h: "in_hand (lfHand s i) = Some v" using assms(3) by simp
  note v = in_hand_place [OF assms(1) h]
  have tr: "tracked ?t j x \<longleftrightarrow> tracked s j x \<or> j = i \<and> x = v" for j x using tracked_put(2) [OF k] by simp
  have pl: "place ?t j x = place s j x" for j x using h tr by (auto simp: place_def)
  show ?thesis
  proof (rule life_okI)
    show "names_fine N own ?t" using assms tracked_put(1) [OF k] pl tr v by (auto simp: life_ok_def names_keyed)
    show "accounted ?t" using assms pl by (simp add: life_ok_def accounted_def)
    show "sweep_fine ?t" using assms by (simp add: life_ok_def sweep_fine_def)
    show "ghosts_known ?t" using assms tr by (auto simp: life_ok_def ghosts_known_def)
  qed
qed

lemma abort_ok:
  assumes "life_ok N own s" and "i < N" "lfHand s i = Created v"
  shows "life_ok N own (s\<lparr>lfHand := (lfHand s)(i := Free), lfExposed := finsert v (lfExposed s)\<rparr>)" (is "life_ok N own ?t")
proof -
  have h: "in_hand (lfHand s i) = Some v" using assms(3) by simp
  have pl: "place ?t j x \<longleftrightarrow> place s j x \<and> \<not> (j = i \<and> x = v)" for j x
    using h in_hand_place(2) [OF assms(1) h] by (auto simp: place_def)
  show ?thesis
  proof (rule life_okI)
    show "names_fine N own ?t" using assms pl by (auto simp: life_ok_def names_keyed)
    show "accounted ?t" using assms pl by (auto simp: life_ok_def accounted_def)
  qed (use assms in \<open>auto simp: life_ok_def sweep_fine_def ghosts_known_def\<close>)
qed

lemma complete_ok:
  assumes "life_ok N own s" and "i < N" "lfHand s i = Free" "fmlookup (activeVMs (lfBridge s i)) r = Some v"
  shows "life_ok N own (with_active i (fmdrop r) (s\<lparr>lfHand := (lfHand s)(i := Untracked v)\<rparr>))"
proof -
  let ?s = "s\<lparr>lfHand := (lfHand s)(i := Untracked v)\<rparr>"
  have k: "keyed_by_name ?s" "keyed_by_name s" using assms(1) by (simp_all add: life_ok_def names_keyed)
  have r: "r = v" using k(2) assms(4) by (auto simp: keyed_by_name_def)
  have p: "tracked s i v" using assms(4) r tracked_lookup [OF k(2)] by simp
  let ?t = "with_active i (fmdrop v) ?s"
  have n: "place s j v \<Longrightarrow> j = i" for j using place_own [OF assms(1)] p place_def by blast
  have tr: "tracked ?t j x \<longleftrightarrow> tracked s j x \<and> \<not> (j = i \<and> x = v)" for j x using tracked_drop(2) [OF k(1)] by simp
  have pl: "place ?t j x = place s j x" for j x using p assms(3) tr by (auto simp: place_def)
  show ?thesis unfolding r
  proof (rule life_okI)
    show "names_fine N own ?t" using assms tracked_drop(1) [OF k(1)] pl tr by (auto simp: life_ok_def names_keyed)
    show "accounted ?t" using assms pl by (simp add: life_ok_def accounted_def)
    show "sweep_fine ?t" using assms by (simp add: life_ok_def sweep_fine_def)
    show "ghosts_known ?t" using assms tr by (auto simp: life_ok_def ghosts_known_def)
  qed
qed

lemma deleted_ok:
  assumes "life_ok N own s" and "i < N" "lfHand s i = Untracked v"
  shows "life_ok N own (s\<lparr>lfOrchard := lfOrchard s |-| {|v|}, lfHand := (lfHand s)(i := Free)\<rparr>)" (is "life_ok N own ?t")
proof -
  have h: "in_hand (lfHand s i) = Some v" using assms(3) by simp
  note v = in_hand_place [OF assms(1) h]
  have pl: "place ?t j x \<longleftrightarrow> place s j x \<and> x \<noteq> v" for j x
    using h v(2) [of i] v(1) [of j] by (cases "j = i") (auto simp: place_def)
  show ?thesis
  proof (rule life_okI)
    show "names_fine N own ?t" using assms pl by (auto simp: life_ok_def names_keyed)
    show "accounted ?t" using assms pl by (auto simp: life_ok_def accounted_def)
    show "sweep_fine ?t" using assms by (auto simp: life_ok_def sweep_fine_def)
    show "ghosts_known ?t" using assms v(2) v(1) by (fastforce simp: life_ok_def ghosts_known_def place_def)
  qed
qed

lemma failed_ok:
  assumes "life_ok N own s" and "i < N" "lfHand s i = Untracked v"
  shows "life_ok N own (s\<lparr>lfHand := (lfHand s)(i := Undeleted v)\<rparr>)" (is "life_ok N own ?t")
proof -
  have h: "in_hand (lfHand s i) = Some v" using assms(3) by simp
  have pl: "place ?t j x = place s j x" for j x using h by (auto simp: place_def)
  show ?thesis
  proof (rule life_okI)
    show "names_fine N own ?t" using assms pl in_hand_place(2) [OF assms(1) h] by (auto simp: life_ok_def names_keyed)
    show "accounted ?t" using assms pl by (simp add: life_ok_def accounted_def)
  qed (use assms in \<open>auto simp: life_ok_def sweep_fine_def ghosts_known_def\<close>)
qed

lemma mark_ok:
  assumes "life_ok N own s" and "i < N" "lfHand s i = Undeleted v"
  shows "life_ok N own (s\<lparr>lfHand := (lfHand s)(i := Free), lfCleanup := MarkForDeletion v (lfCleanup s)\<rparr>)" (is "life_ok N own ?t")
proof -
  have h: "in_hand (lfHand s i) = Some v" using assms(3) by simp
  note v = in_hand_place [OF assms(1) h]
  have ne: "v \<noteq> []" using h assms(1) by (auto simp: life_ok_def names_fine_def place_def)
  have pl: "place ?t j x \<longleftrightarrow> place s j x \<and> x \<noteq> v" for j x
    using h v(2) [of i] v(1) [of j] by (cases "j = i") (auto simp: place_def)
  show ?thesis
  proof (rule life_okI)
    show "names_fine N own ?t" using assms pl by (auto simp: life_ok_def names_keyed)
    show "accounted ?t" using assms pl ne by (auto simp: life_ok_def accounted_def MarkForDeletion_def)
  qed (use assms in \<open>auto simp: life_ok_def sweep_fine_def ghosts_known_def\<close>)
qed

text \<open>The sections of a sweep.\<close>

lemma vanish_ok:
  assumes "life_ok N own s" and "v |\<in>| lfOrchard s"
  shows "life_ok N own (s\<lparr>lfOrchard := lfOrchard s |-| {|v|}, lfGone := finsert v (lfGone s)\<rparr>)"
  by (rule life_okI) (use assms in \<open>auto simp: life_ok_def life_eqs\<close>)

lemma list_ok:
  assumes "life_ok N own s" and "lfSweep s = Resting"
  shows "life_ok N own (s\<lparr>lfSweep := Sweeping L, lfExposed := lfExposed s |\<union>| (lfOrchard s |-| L)\<rparr>)"
  by (rule life_okI) (use assms in \<open>auto simp: life_ok_def life_eqs\<close>)

lemma reap_ok:
  assumes "life_ok N own s" and "lfSweep s = Sweeping L" "v |\<in>| L"
  shows "life_ok N own (s\<lparr>lfOrchard := lfOrchard s |-| {|v|}, lfEver := finsert v (lfEver s), lfSweep := Clearing L v,
       lfGone := (if \<exists>i<N. lfHand s i = Created v then finsert v (lfGone s) else lfGone s)\<rparr>)"
proof -
  have lt: "lfHand s i = Created v \<Longrightarrow> i < N" for i using assms(1) by (force simp: life_ok_def life_eqs)
  have eq: "(\<exists>i<N. lfHand s i = Created v) \<longleftrightarrow> (\<exists>i. lfHand s i = Created v)" using lt by blast
  show ?thesis unfolding eq
    by (rule life_okI) (use assms in \<open>auto simp: life_ok_def life_eqs\<close>)
qed

lemma clear_ok:
  assumes "life_ok N own s" and "lfSweep s = Clearing L v"
  shows "life_ok N own (s\<lparr>lfCleanup := clearPendingDelete v (lfCleanup s), lfSweep := Purging L v 0\<rparr>)"
  by (rule life_okI) (use assms in \<open>auto simp: life_ok_def life_eqs clearPendingDelete_def\<close>)

lemma purge_ok:
  assumes "life_ok N own s" and "lfSweep s = Purging L v k" "k < N"
  shows "life_ok N own (s\<lparr>lfBridge := (lfBridge s)(k := PurgeActiveVM v (lfBridge s k)), lfSweep := Purging L v (Suc k)\<rparr>)"
proof -
  let ?s = "s\<lparr>lfSweep := Purging L v (Suc k)\<rparr>"
  have k: "keyed_by_name ?s" using assms(1) by (simp add: life_ok_def names_keyed)
  have eq: "s\<lparr>lfBridge := (lfBridge s)(k := PurgeActiveVM v (lfBridge s k)), lfSweep := Purging L v (Suc k)\<rparr> =
      with_active k (fmdrop v) ?s" by (simp add: with_active_def PurgeActiveVM_def)
  have v: "v |\<notin>| lfOrchard s" using assms by (auto simp: life_ok_def life_eqs)
  have g: "tracked s i x \<Longrightarrow> x |\<in>| lfOrchard s \<or> x |\<in>| lfGone s \<or> x = v \<and> k \<le> i" for i x
    using assms by (auto simp: life_ok_def life_eqs)
  show ?thesis unfolding eq
  proof (rule life_okI)
    show "ghosts_known (with_active k (fmdrop v) ?s)"
      using assms g by (force simp: life_ok_def ghosts_known_def tracked_drop(2) [OF k])
  qed (use assms v tracked_drop [OF k] in \<open>auto simp: life_ok_def life_eqs\<close>)
qed

lemma purged_ok:
  assumes "life_ok N own s" and "lfSweep s = Purging L v N"
  shows "life_ok N own (s\<lparr>lfSweep := Sweeping L\<rparr>)"
proof -
  have g: "tracked s i x \<Longrightarrow> x |\<in>| lfOrchard s \<or> x |\<in>| lfGone s" for i x
    using assms by (fastforce simp: life_ok_def names_fine_def ghosts_known_def place_def)
  show ?thesis
    by (rule life_okI) (use assms g in \<open>auto simp: life_ok_def names_fine_def accounted_def sweep_fine_def
        ghosts_known_def place_def\<close>)
qed

lemma recover_ok:
  assumes "life_ok N own s" and "lfSweep s = Purging L v k"
  shows "life_ok N own (s\<lparr>lfSweep := Sweeping L, lfGone := finsert v (lfGone s)\<rparr>)"
  by (rule life_okI) (use assms in \<open>auto simp: life_ok_def life_eqs\<close>)

lemma retain_ok:
  assumes "life_ok N own s" and "lfSweep s = Sweeping L"
  shows "life_ok N own (s\<lparr>lfCleanup := retainPendingDeletes L (lfCleanup s), lfSweep := Resting\<rparr>)"
  by (rule life_okI) (use assms in \<open>auto simp: life_ok_def life_eqs retainPendingDeletes_def\<close>)

lemma life_step_ok: "life_step N own s a t \<Longrightarrow> life_ok N own s \<Longrightarrow> life_ok N own t"
  by (induction rule: life_step.induct)
    (rule snapshot_ok hydrate_ok create_ok track_ok abort_ok complete_ok deleted_ok failed_ok mark_ok vanish_ok list_ok
      reap_ok clear_ok purge_ok purged_ok recover_ok retain_ok; assumption)+

lemma life_reach_ok: "life_reach N own s0 s \<Longrightarrow> life_init N own s0 \<Longrightarrow> life_ok N own s"
  by (induction rule: life_reach.induct) (auto intro: init_ok life_step_ok)

subsection \<open>Runs\<close>

inductive life_run :: "nat \<Rightarrow> (string \<Rightarrow> nat) \<Rightarrow> life \<Rightarrow> step_label list \<Rightarrow> life \<Rightarrow> bool" for N own where
  run_done: "life_run N own s [] s"
| run_step: "life_step N own s a t \<Longrightarrow> life_run N own t as u \<Longrightarrow> life_run N own s (a # as) u"

lemma run_append: "life_run N own s as t \<Longrightarrow> life_run N own t bs u \<Longrightarrow> life_run N own s (as @ bs) u"
  by (induction rule: life_run.induct) (auto intro: run_step)

lemma run_one: "life_step N own s a t \<Longrightarrow> life_run N own s [a] t"
  by (rule run_step [OF _ run_done])

lemma run_reach: "life_run N own s as t \<Longrightarrow> life_reach N own s0 s \<Longrightarrow> life_reach N own s0 t"
  by (induction rule: life_run.induct) (auto intro: life_next)

text \<open>The part of the manager's state the interleaved model follows.\<close>

definition matches :: "nat \<Rightarrow> life \<Rightarrow> 'o mgr \<Rightarrow> bool" where
  "matches N s w \<longleftrightarrow> map (lfBridge s) [0..<N] = map hBridge (mHandles w) \<and>
     pendingDeletes (lfCleanup s) = pendingDeletes (sysCleanup w)"

lemma matches_frame:
  assumes "matches N s w" and "map hBridge (mHandles w') = map hBridge (mHandles w)"
    and "pendingDeletes (sysCleanup w') = pendingDeletes (sysCleanup w)"
  shows "matches N s w'"
  using assms by (simp add: matches_def)

lemma purge_all:
  assumes "lfSweep s = Purging L v k" and "k \<le> N"
  shows "\<exists>s'. life_run N own s (replicate (N - k) SPurge) s' \<and> lfSweep s' = Purging L v N \<and> lfHand s' = lfHand s \<and>
    lfCleanup s' = lfCleanup s \<and> lfBridge s' = (\<lambda>i. if k \<le> i \<and> i < N then PurgeActiveVM v (lfBridge s i) else lfBridge s i)"
  using assms
proof (induction "N - k" arbitrary: k s)
  case 0
  then show ?case by (intro exI [of _ s]) (auto simp: fun_eq_iff intro: run_done)
next
  case (Suc d)
  let ?t = "s\<lparr>lfBridge := (lfBridge s)(k := PurgeActiveVM v (lfBridge s k)), lfSweep := Purging L v (Suc k)\<rparr>"
  have k: "k < N" using Suc.hyps(2) by simp
  have st: "life_step N own s SPurge ?t" by (rule life_purge [OF Suc.prems(1) k])
  have "\<exists>s'. life_run N own ?t (replicate (N - Suc k) SPurge) s' \<and> lfSweep s' = Purging L v N \<and> lfHand s' = lfHand ?t \<and>
    lfCleanup s' = lfCleanup ?t \<and> lfBridge s' = (\<lambda>i. if Suc k \<le> i \<and> i < N then PurgeActiveVM v (lfBridge ?t i) else lfBridge ?t i)"
    by (rule Suc.hyps(1)) (use Suc.hyps(2) k in simp_all)
  then obtain s' where s': "life_run N own ?t (replicate (N - Suc k) SPurge) s'" "lfSweep s' = Purging L v N"
    "lfHand s' = lfHand s" "lfCleanup s' = lfCleanup s"
    "lfBridge s' = (\<lambda>i. if Suc k \<le> i \<and> i < N then PurgeActiveVM v (lfBridge ?t i) else lfBridge ?t i)" by auto
  have b: "lfBridge s' = (\<lambda>i. if k \<le> i \<and> i < N then PurgeActiveVM v (lfBridge s i) else lfBridge s i)"
    using s'(5) k by (auto simp: fun_eq_iff)
  have "replicate (N - k) SPurge = SPurge # replicate (N - Suc k) SPurge" using k by (simp add: Suc_diff_Suc flip: replicate_Suc)
  then have "life_run N own s (replicate (N - k) SPurge) s'" using run_step [OF st s'(1)] by simp
  then show ?case using s'(2,3,4) b by blast
qed

lemma map_upt_upd: "i < N \<Longrightarrow> map (f(i := x)) [0..<N] = (map f [0..<N])[i := x]"
  by (rule nth_equalityI) auto

lemma matches_put:
  assumes "matches N s w" and "i < N" and "lfBridge s' = (lfBridge s)(i := b)"
    and "map hBridge (mHandles w2) = map hBridge (mHandles w)"
    and "pendingDeletes (lfCleanup s') = pendingDeletes (sysCleanup w2)"
  shows "matches N s' (put_bridge i b w2)"
proof -
  have "map hBridge (mHandles (put_bridge i b w2)) = (map hBridge (mHandles w))[i := b]"
    using assms(4) by (simp add: put_bridge_def map_update)
  then show ?thesis using assms(1-3,5) by (simp add: matches_def map_upt_upd put_bridge_def)
qed

lemma matches_sel:
  assumes "matches N s w"
  shows "length (mHandles w) = N" and "i < N \<Longrightarrow> lfBridge s i = hBridge (mHandles w ! i)"
proof -
  show len: "length (mHandles w) = N" using assms by (metis matches_def length_map length_upt diff_zero)
  show "lfBridge s i = hBridge (mHandles w ! i)" if "i < N"
    using assms that len unfolding matches_def by (metis add.left_neutral diff_zero length_upt nth_map nth_upt)
qed

lemma with_active_bridge: "lfBridge (with_active i f s) = (lfBridge s)(i := (lfBridge s i)\<lparr>activeVMs := f (activeVMs (lfBridge s i))\<rparr>)"
  by (simp add: with_active_def)

text \<open>Both sections of a hydration together are \<open>HydrateFromOrchard\<close>, if \<open>own\<close> is the owner the names give.\<close>

lemma adopt_names: "foldl (\<lambda>act vm. fmupd (vName vm) (vName vm) act) m vms = adopt_all (map vName vms) m"
  unfolding adopt_all_def by (induction vms arbitrary: m) simp_all

lemma hydrate_is_a_run:
  assumes i: "i < N" and joining: "lfHand s i = Joining"
    and own: "\<forall>v. nameForScaleSet (scaleSetName (lfBridge s i)) v \<longrightarrow> own v = i"
    and run: "HydrateFromOrchard E (lfBridge s i) w = (r, b', w')"
  shows "\<exists>vs s'. life_run N own s [SSnapshot i vs, SHydrate i] s' \<and> lfBridge s' = (lfBridge s)(i := b')"
proof -
  let ?b = "lfBridge s i"
  have "\<exists>vs. b' = ?b\<lparr>activeVMs := adopt_all vs (activeVMs ?b)\<rparr> \<and> (\<forall>v\<in>set vs. nameForScaleSet (scaleSetName ?b) v)"
  proof (cases "sysView w = None \<or> fst (fst (state_Get E w)) = None")
    case True
    then have "b' = ?b" using run by (auto simp: HydrateFromOrchard_def split: prod.splits option.splits if_splits)
    then show ?thesis by (intro exI [of _ "[]"]) (simp add: adopt_all_def)
  next
    case False
    then obtain v sn err w1 where v: "sysView w = Some v" and g: "state_Get E w = ((Some sn, err), w1)"
      by (metis not_None_eq prod.collapse)
    have "b' = ?b\<lparr>activeVMs := adopt_all (map vName (filter (\<lambda>vm. \<not> vm_terminal vm)
        (ManagedVMsForScaleSet sn (scaleSetName ?b)))) (activeVMs ?b)\<rparr>"
      using run by (simp add: HydrateFromOrchard_def v g hydrate_fold adopt_names)
    moreover have "\<forall>x\<in>set (map vName (filter (\<lambda>vm. \<not> vm_terminal vm) (ManagedVMsForScaleSet sn (scaleSetName ?b)))).
        nameForScaleSet (scaleSetName ?b) x"
      by (auto simp: ManagedVMsForScaleSet_def)
    ultimately show ?thesis by blast
  qed
  then obtain vs where b': "b' = ?b\<lparr>activeVMs := adopt_all vs (activeVMs ?b)\<rparr>" and
    vs: "\<forall>v\<in>set vs. nameForScaleSet (scaleSetName ?b) v" by blast
  have "v \<noteq> []" if "nameForScaleSet ss v" for ss v
    using nameForScaleSet_managed [OF that] by (auto simp: IsManagedVM_def has_prefix_def vmNamePrefix_def)
  then have vs: "\<forall>v\<in>set vs. own v = i \<and> v \<noteq> []" using vs own by blast
  let ?s1 = "s\<lparr>lfEver := lfEver s |\<union>| fset_of_list vs, lfHand := (lfHand s)(i := Hydrating vs)\<rparr>"
  have h: "lfHand ?s1 i = Hydrating vs" "lfBridge ?s1 = lfBridge s" by simp_all
  show ?thesis
    by (intro exI conjI, rule run_step [OF life_snapshot [OF i joining vs] run_one [OF life_hydrate [OF i h(1)]]])
      (simp add: with_active_bridge b')
qed

text \<open>A create is visible in Orchard before it is tracked; both sections together are \<open>createOneVM\<close>.\<close>

lemma create_is_a_run:
  assumes m: "matches N s w" and i: "i < N" and free: "lfHand s i = Free"
    and v: "v = VMName (scaleSetName (lfBridge s i)) (fst (uuid_New E (sysExt w)))" "own v = i" "v |\<notin>| lfEver s" "v \<noteq> []"
    and run: "createOneVM E gh cpu mem ls (hBridge (mHandles w ! i)) w = (err, b', w')"
  shows "\<exists>s'. life_run N own s (if err = None then [SCreate i v, STrack i] else []) s' \<and> matches N s' (put_bridge i b' w')"
proof (cases err)
  case (Some e)
  have b: "hBridge (mHandles w ! i) = lfBridge s i" using matches_sel(2) [OF m i] by simp
  have w': "b' = lfBridge s i" "mHandles w' = mHandles w" "sysCleanup w' = sysCleanup w"
    using run Some b by (auto simp: createOneVM_def Let_def split: prod.splits sum.splits)
  have "matches N s (put_bridge i b' w')"
    by (rule matches_put [OF m i]) (use m w' in \<open>simp_all add: matches_def\<close>)
  then show ?thesis using Some run_done by auto
next
  case None
  let ?s1 = "s\<lparr>lfOrchard := finsert v (lfOrchard s), lfEver := finsert v (lfEver s),
       lfHand := (lfHand s)(i := Created v),
       lfExposed := (if lfSweep s = Resting then lfExposed s else finsert v (lfExposed s))\<rparr>"
  let ?s2 = "with_active i (fmupd v v) (?s1\<lparr>lfHand := (lfHand ?s1)(i := Free)\<rparr>)"
  have b: "hBridge (mHandles w ! i) = lfBridge s i" using matches_sel(2) [OF m i] by simp
  have w': "b' = (lfBridge s i)\<lparr>activeVMs := fmupd v v (activeVMs (lfBridge s i))\<rparr>"
      "mHandles w' = mHandles w" "sysCleanup w' = sysCleanup w"
    using run None b unfolding v(1) by (auto simp: createOneVM_def Let_def split: prod.splits sum.splits)
  have "life_run N own s [SCreate i v, STrack i] ?s2"
    by (rule run_step [OF life_create [where own = own, OF i free v(2,4,3)] run_one [OF life_track [OF i]]]) simp
  moreover have "matches N ?s2 (put_bridge i b' w')"
    by (rule matches_put [OF m i]) (use m w' in \<open>simp_all add: matches_def with_active_bridge\<close>)
  ultimately show ?thesis using None by auto
qed

lemma removeRunner_mgr:
  fixes w :: "'o mgr"
  shows "removeRunner K nm w = (r, w') \<Longrightarrow> mHandles w' = mHandles w \<and> sysCleanup w' = sysCleanup w"
  by (auto simp: removeRunner_def split: option.splits prod.splits outcome.splits)

text \<open>
  The VMs a sweep reaps, in order: those that are due when the sweep comes to them and whose delete is accepted
  in the state of that moment; with each, whether deregistering the runner returned.
\<close>

fun reap_list :: "'o env \<Rightarrow> ('o, 'cb, ('o, 'cb, 'z) msys_scheme) wiring \<Rightarrow> gotime \<Rightarrow> VM list \<Rightarrow>
    ('o, 'cb, 'z) msys_scheme \<Rightarrow> (string \<times> bool) list" where
  "reap_list E K now [] w = []"
| "reap_list E K now (vm # vms) w =
     (if \<not> IsManagedVM (vName vm) then reap_list E K now vms w
      else (case DeleteVM E (vName vm) (sysExt w) of (q, st) \<Rightarrow>
         if fst (deletion_due (sysCleanup w) vm now) \<and> q = Return None
         then [(vName vm, fst (removeRunner K (vName vm)
             (w\<lparr>sysExt := st, sysCleanup := clearPendingDelete (vName vm) (sysCleanup w)\<rparr>)) = Return ())]
         else []) @ reap_list E K now vms (snd (processVM E K vm now w)))"

definition reap_sections :: "nat \<Rightarrow> string \<times> bool \<Rightarrow> step_label list" where
  "reap_sections N = (\<lambda>(v, ok). SReap v # SClear # (if ok then replicate N SPurge @ [SPurged] else [SRecover]))"

lemma process_is_a_run:
  fixes w :: "'o mgr"
  assumes m: "matches N s w" and sw: "lfSweep s = Sweeping L" and vL: "vName vm |\<in>| L"
    and man: "IsManagedVM (vName vm)" and run: "processVM E (mgr_wiring E cfg gh) vm now w = (d, w')"
  shows "\<exists>s'. life_run N own s (concat (map (reap_sections N) (reap_list E (mgr_wiring E cfg gh) now [vm] w))) s' \<and>
    matches N s' w' \<and> lfHand s' = lfHand s \<and> lfSweep s' = Sweeping L"
proof (cases "fst (deletion_due (sysCleanup w) vm now) \<and> fst (DeleteVM E (vName vm) (sysExt w)) = Return None")
  case False
  then have "reap_list E (mgr_wiring E cfg gh) now [vm] w = []" using man by (auto split: prod.split)
  moreover have "mHandles w' = mHandles w \<and> sysCleanup w' = sysCleanup w"
    using run False by (auto simp: processVM_def split: prod.splits if_splits outcome.splits option.splits)
  then have "matches N s w'" by (intro matches_frame [OF m]) simp_all
  ultimately show ?thesis using sw run_done by auto
next
  case True
  let ?v = "vName vm" and ?K = "mgr_wiring E cfg gh"
  obtain st where d: "DeleteVM E ?v (sysExt w) = (Return None, st)" using True by (metis prod.collapse)
  let ?w1 = "w\<lparr>sysExt := st, sysCleanup := clearPendingDelete ?v (sysCleanup w)\<rparr>"
  obtain q w2 where r: "removeRunner ?K ?v ?w1 = (q, w2)" by (metis surj_pair)
  note rr = removeRunner_mgr [OF r]
  have R: "reap_list E ?K now [vm] w = [(?v, q = Return ())]" using man True d r by simp
  let ?s1 = "s\<lparr>lfOrchard := lfOrchard s |-| {|?v|}, lfEver := finsert ?v (lfEver s), lfSweep := Clearing L ?v,
       lfGone := (if \<exists>i<N. lfHand s i = Created ?v then finsert ?v (lfGone s) else lfGone s)\<rparr>"
  let ?s2 = "?s1\<lparr>lfCleanup := clearPendingDelete ?v (lfCleanup ?s1), lfSweep := Purging L ?v 0\<rparr>"
  have r2: "life_run N own s [SReap ?v, SClear] ?s2"
    by (rule run_step [OF life_reap [OF sw vL] run_one [OF life_clear]]) simp
  have b2: "lfBridge ?s2 = lfBridge s" "lfHand ?s2 = lfHand s" "lfCleanup ?s2 = clearPendingDelete ?v (lfCleanup s)"
    "lfSweep ?s2 = Purging L ?v 0" by simp_all
  have c: "pendingDeletes (clearPendingDelete ?v (lfCleanup s)) = pendingDeletes (sysCleanup w2)"
    using m rr by (simp add: matches_def clearPendingDelete_def)
  show ?thesis
  proof (cases q)
    case Panic
    then have w': "w' = w2" using run True d r by (auto simp: processVM_def Let_def split: prod.splits)
    let ?s3 = "?s2\<lparr>lfSweep := Sweeping L, lfGone := finsert ?v (lfGone ?s2)\<rparr>"
    have "life_run N own s ([SReap ?v, SClear] @ [SRecover]) ?s3"
      by (rule run_append [OF r2 run_one [OF life_recover [OF b2(4)]]])
    moreover have "matches N ?s3 w'" using m rr c unfolding w' by (simp add: matches_def)
    ultimately show ?thesis using R Panic by (intro exI [of _ ?s3]) (simp add: reap_sections_def)
  next
    case (Return x)
    then have w': "w' = recomputeScaleSetShares E (purge_everywhere ?v w2)"
      using run True d r by (auto simp: processVM_def Let_def mgr_wiring_def split: prod.splits)
    obtain s3 where a: "life_run N own ?s2 (replicate (N - 0) SPurge) s3" "lfSweep s3 = Purging L ?v N" "lfHand s3 = lfHand ?s2"
      "lfCleanup s3 = lfCleanup ?s2"
      "lfBridge s3 = (\<lambda>i. if 0 \<le> i \<and> i < N then PurgeActiveVM ?v (lfBridge ?s2 i) else lfBridge ?s2 i)"
      using purge_all [OF b2(4) le0] by blast
    have s3: "lfHand s3 = lfHand s" "lfCleanup s3 = clearPendingDelete ?v (lfCleanup s)"
      "lfBridge s3 = (\<lambda>i. if i < N then PurgeActiveVM ?v (lfBridge s i) else lfBridge s i)"
      using a(3,4) a(5) [unfolded b2(1)] unfolding b2 by simp_all
    let ?s4 = "s3\<lparr>lfSweep := Sweeping L\<rparr>"
    have "life_run N own s (([SReap ?v, SClear] @ replicate (N - 0) SPurge) @ [SPurged]) ?s4"
      by (rule run_append [OF run_append [OF r2 a(1)] run_one [OF life_purged [OF a(2)]]])
    moreover have mb: "map (lfBridge s3) [0..<N] = map (PurgeActiveVM ?v) (map (lfBridge s) [0..<N])" by (simp add: s3(3))
    have mw: "map hBridge (mHandles w') = map (PurgeActiveVM ?v) (map hBridge (mHandles w))"
      using rr unfolding w' by (simp add: recompute_frame purge_everywhere_def comp_def)
    have "map (lfBridge s3) [0..<N] = map hBridge (mHandles w')" unfolding mb mw using m by (simp only: matches_def)
    then have "matches N ?s4 w'" using c s3(2) unfolding w' by (simp add: matches_def recompute_frame purge_everywhere_def)
    ultimately show ?thesis using s3(1) R Return by (intro exI [of _ ?s4]) (simp add: reap_sections_def)
  qed
qed

lemma reap_list_Cons:
  "IsManagedVM (vName vm) \<Longrightarrow> reap_list E K now (vm # vms) w =
    reap_list E K now [vm] w @ reap_list E K now vms (snd (processVM E K vm now w))"
  by (simp split: prod.split)

lemma sweep_loop_is_a_run:
  fixes w :: "'o mgr"
  assumes "matches N s w" and "lfSweep s = Sweeping L"
    and "\<forall>vm\<in>set vms. IsManagedVM (vName vm) \<longrightarrow> vName vm |\<in>| L"
    and "sweep_loop E (mgr_wiring E cfg gh) live now vms t w = (t', w')"
  shows "\<exists>s'. life_run N own s (concat (map (reap_sections N) (reap_list E (mgr_wiring E cfg gh) now vms w))) s' \<and>
    matches N s' w' \<and> lfHand s' = lfHand s \<and> lfSweep s' = Sweeping L"
  using assms
proof (induction vms arbitrary: s t w)
  case Nil
  then show ?case using run_done by auto
next
  case (Cons vm vms)
  let ?K = "mgr_wiring E cfg gh"
  show ?case
  proof (cases "IsManagedVM (vName vm)")
    case False
    then show ?thesis using Cons by simp
  next
    case True
    obtain d w1 where p: "processVM E ?K vm now w = (d, w1)" by (metis surj_pair)
    obtain t1 where l: "sweep_loop E ?K live now vms t1 w1 = (t', w')"
      using Cons.prems(4) True p by (cases d) (auto simp: Let_def split: if_splits)
    have "vName vm |\<in>| L" using Cons.prems(3) True by simp
    from process_is_a_run [OF Cons.prems(1,2) this True p] obtain s1
      where s1: "life_run N own s (concat (map (reap_sections N) (reap_list E ?K now [vm] w))) s1" "matches N s1 w1"
      "lfHand s1 = lfHand s" "lfSweep s1 = Sweeping L" by blast
    from Cons.IH [OF s1(2,4) _ l] Cons.prems(3) obtain s2
      where s2: "life_run N own s1 (concat (map (reap_sections N) (reap_list E ?K now vms w1))) s2" "matches N s2 w'"
      "lfHand s2 = lfHand s1" "lfSweep s2 = Sweeping L" by auto
    have "reap_list E ?K now (vm # vms) w = reap_list E ?K now [vm] w @ reap_list E ?K now vms w1"
      using reap_list_Cons [OF True, of E ?K now vms w] unfolding p by (simp only: snd_conv)
    then have "life_run N own s (concat (map (reap_sections N) (reap_list E ?K now (vm # vms) w))) s2"
      using run_append [OF s1(1) s2(1)] by (simp only: map_append concat_append)
    then show ?thesis using s2(2,3,4) s1(3) by auto
  qed
qed

text \<open>Apart from the reaping callback, no part of a sweep touches a bridge.\<close>

interpretation bridges_sweep: sweep_inv E "\<lambda>w. map hBridge (mHandles w) = bs" "(mgr_wiring E cfg gh)\<lparr>onVMCleaned := None\<rparr>"
  for E :: "'o env" and bs and cfg :: Config and gh :: "'o gh_client option"
proof unfold_locales
  let ?K = "(mgr_wiring E cfg gh)\<lparr>onVMCleaned := None\<rparr>"
  show "map hBridge (mHandles (callback ?K cb ws w)) = bs" if "map hBridge (mHandles w) = bs" for w cb ws
    using that by (cases cb) (simp add: mgr_wiring_def recompute_frame)
  show "map hBridge (mHandles w') = bs"
    if "map hBridge (mHandles w) = bs" "onSweep ?K = Some gn" "gn ws w = (r, w')" for w gn ws r w'
    using that observe_sets_frame [of "ScaleSets cfg" ws w r w'] by (auto simp: mgr_wiring_def observeAutoSizeEligibility_def)
qed (auto simp: state_Invalidate_def)

lemma sweep_reconcile_wiring: "sweep_reconcile (K\<lparr>onVMCleaned := f\<rparr>) st t w = sweep_reconcile K st t w"
  by (simp add: sweep_reconcile_def pushMaxCapacity_def Let_def)

lemma sweep_finish_bridges:
  assumes fin: "sweep_finish E (mgr_wiring E cfg gh) sw live t w = (Return (), w')"
  shows "map hBridge (mHandles w') = map hBridge (mHandles w)"
proof -
  let ?w3 = "sweep_reconcile (mgr_wiring E cfg gh) sw t w"
  obtain q w4 where p: "sweep_prune E sw live ?w3 = (q, w4)" by (metis surj_pair)
  have obs: "observe_sets (ScaleSets cfg) (stLive sw) w4 = (Return (), w')"
    using fin p by (cases q) (simp_all add: sweep_finish_def mgr_wiring_def observeAutoSizeEligibility_def)
  have "map hBridge (mHandles ?w3) = map hBridge (mHandles w)"
    using bridges_sweep.reconcile_inv [of w _ E cfg gh sw t] by (simp add: sweep_reconcile_wiring)
  then show ?thesis using bridges_sweep.sweep_prune_inv [OF p] observe_sets_frame [OF obs] by simp
qed

subsection \<open>Concrete runs\<close>

definition life_empty :: life where
  "life_empty = \<lparr>lfOrchard = {||}, lfEver = {||}, lfBridge = (\<lambda>_. NewBridge ''ci'' 7 ex_vmconfig),
     lfHand = (\<lambda>_. Free), lfCleanup = NewCleanup, lfSweep = Resting, lfExposed = {||}, lfGone = {||}\<rparr>"

lemma life_empty_init: "life_init 1 own life_empty"
  by (simp add: life_init_def life_empty_def tracked_def NewBridge_def)

definition life_of :: "'o mgr \<Rightarrow> life" where
  "life_of w = life_empty\<lparr>lfBridge := (\<lambda>i. hBridge (mHandles w ! i)), lfCleanup := sysCleanup w\<rparr>"

lemma life_empty_sel [simp]:
  "lfOrchard life_empty = {||}" "lfEver life_empty = {||}" "lfHand life_empty i = Free" "lfSweep life_empty = Resting"
  "lfExposed life_empty = {||}" "lfGone life_empty = {||}" "activeVMs (lfBridge life_empty i) = fmempty"
  "pendingDeletes (lfCleanup life_empty) = {||}"
  by (simp_all add: life_empty_def NewBridge_def NewCleanup_def)

lemma life_of_sel [simp]: "lfHand (life_of w) i = Free" "lfSweep (life_of w) = Resting"
  by (simp_all add: life_of_def)

lemma life_of_matches: "matches (length (mHandles w)) (life_of w) w"
  by (simp add: matches_def life_of_def map_nth flip: map_map [unfolded comp_def])

text \<open>A bridge that tracks a VM whose delete failed before.\<close>

definition ex_tracking :: "ex_world mgr" where
  "ex_tracking = (ex_retry False)\<lparr>mHandles := [\<lparr>hBridge = (NewBridge ''ci'' 7 ex_vmconfig)
     \<lparr>activeVMs := fmupd ''gha-orchard-ci-1'' ''gha-orchard-ci-1'' fmempty\<rparr>, hMaxRunners = 0, hStaticMaxRunners = 0\<rparr>]\<rparr>"

lemma ex_tracking_facts:
  "vName (ex_vm ''gha-orchard-ci-1'' ''running'' ''a'' []) = ''gha-orchard-ci-1''" "IsManagedVM ''gha-orchard-ci-1''"
  "sysExt ex_tracking = ex_state [ex_vm ''gha-orchard-ci-1'' ''running'' ''a'' []] ex_pool"
  "exFail (ex_state vms ws) = False" "exNow (ex_state vms ws) = 1000"
  "pendingDeletes (sysCleanup ex_tracking) = {|''gha-orchard-ci-1''|}"
  "activeVMs (hBridge (mHandles ex_tracking ! 0)) = fmupd ''gha-orchard-ci-1'' ''gha-orchard-ci-1'' fmempty"
  by (simp_all add: ex_tracking_def ex_retry_def Let_def ex_mgr_def ex_vm_def ex_state_def IsManagedVM_def
      vmNamePrefix_def has_prefix_def MarkForDeletion_def)

lemma ex_tracking_list:
  "listVMsAndWorkers ex_env ex_tracking =
    ((Some \<lparr>stVMs = [ex_vm ''gha-orchard-ci-1'' ''running'' ''a'' []], stLive = LiveWorkers ex_pool (2 * minute) 1000,
       stAll = ex_pool, stFetchedAt = 1000, stFresh = True\<rparr>, None), ex_tracking)"
  by (simp add: ex_tracking_def ex_retry_def Let_def listVMsAndWorkers_def state_Get_def Get_def fresh_snap_def newSnapshot_def
      NewStateView_def ex_mgr_def ex_state_def time_sub_def minute_def second_def)

text \<open>A VM created, tracked and completed during one sweep, whose delete failed.\<close>

lemma lost_run:
  assumes own: "own ''v'' = 0"
  shows "\<exists>s. life_reach 1 own life_empty s \<and> ''v'' |\<in>| lfOrchard s \<and> \<not> tracked s i ''v'' \<and> lfHand s = (\<lambda>_. Free) \<and>
     lfSweep s = Resting \<and> pendingDeletes (lfCleanup s) = {||}"
proof -
  let ?v = "''v''" and ?l = "Sweeping {||}"
  note i = less_one [THEN iffD2, OF refl]
  let ?s1 = "life_empty\<lparr>lfSweep := ?l, lfExposed := lfExposed life_empty |\<union>| (lfOrchard life_empty |-| {||})\<rparr>"
  have 1: "life_reach 1 own life_empty ?s1" by (rule life_next [OF life_start life_list]) simp
  obtain s2 where 2: "life_reach 1 own life_empty s2" "lfOrchard s2 = {|?v|}" "lfHand s2 0 = Created ?v" "\<forall>j. j \<noteq> 0 \<longrightarrow> lfHand s2 j = Free"
    "lfSweep s2 = ?l" "lfBridge s2 = lfBridge life_empty" "pendingDeletes (lfCleanup s2) = {||}"
    by (rule that [OF life_next [OF 1 life_create [where own = own, OF i _ own]]]) (simp_all)
  obtain s3 where 3: "life_reach 1 own life_empty s3" "lfOrchard s3 = {|?v|}" "lfHand s3 = (\<lambda>_. Free)" "lfSweep s3 = ?l"
    "\<forall>j. activeVMs (lfBridge s3 j) = (if j = 0 then fmupd ?v ?v fmempty else fmempty)" "pendingDeletes (lfCleanup s3) = {||}"
    by (rule that [OF life_next [OF 2(1) life_track [OF i 2(3)]]]) (use 2 in \<open>simp_all add: with_active_def fun_eq_iff\<close>)
  have a3: "fmlookup (activeVMs (lfBridge s3 0)) ?v = Some ?v" using 3 by simp
  have d: "fmdrop ?v (fmupd ?v ?v fmempty) = fmempty" by (rule fmap_ext) simp
  obtain s4 where 4: "life_reach 1 own life_empty s4" "lfOrchard s4 = {|?v|}" "lfHand s4 0 = Untracked ?v" "\<forall>j. j \<noteq> 0 \<longrightarrow> lfHand s4 j = Free"
    "lfSweep s4 = ?l" "\<forall>j. activeVMs (lfBridge s4 j) = fmempty" "pendingDeletes (lfCleanup s4) = {||}"
    by (rule that [OF life_next [OF 3(1) life_complete [OF i _ a3]]]) (use 3 d in \<open>simp_all add: with_active_def\<close>)
  obtain s5 where 5: "life_reach 1 own life_empty s5" "lfOrchard s5 = {|?v|}" "lfHand s5 0 = Undeleted ?v" "\<forall>j. j \<noteq> 0 \<longrightarrow> lfHand s5 j = Free"
    "lfSweep s5 = ?l" "\<forall>j. activeVMs (lfBridge s5 j) = fmempty"
    by (rule that [OF life_next [OF 4(1) life_failed [OF i 4(3)]]]) (use 4 in \<open>simp_all\<close>)
  obtain s6 where 6: "life_reach 1 own life_empty s6" "lfOrchard s6 = {|?v|}" "lfHand s6 = (\<lambda>_. Free)" "lfSweep s6 = ?l"
    "\<forall>j. activeVMs (lfBridge s6 j) = fmempty"
    by (rule that [OF life_next [OF 5(1) life_mark [OF i 5(3)]]]) (use 5 in \<open>simp_all add: fun_eq_iff\<close>)
  show ?thesis
    by (intro exI conjI, rule life_next [OF 6(1) life_retain [OF 6(4)]])
      (use 6 in \<open>simp_all add: tracked_def retainPendingDeletes_def\<close>)
qed

text \<open>A bridge that hydrates from a snapshot while a sweep reaps the VM it shows.\<close>

definition life_joining :: life where
  "life_joining = life_empty\<lparr>lfOrchard := {|''v''|}, lfEver := {|''v''|}, lfHand := (\<lambda>_. Joining), lfExposed := {|''v''|}\<rparr>"

lemma life_joining_init: "life_init 1 own life_joining"
  by (simp add: life_init_def life_joining_def life_empty_def tracked_def NewBridge_def)

lemma ghost_run:
  assumes own: "own ''v'' = 0"
  shows "\<exists>s. life_reach 1 own life_joining s \<and> tracked s 0 ''v'' \<and> ''v'' |\<notin>| lfOrchard s \<and> lfSweep s = Sweeping {|''v''|}"
proof -
  let ?v = "''v''" and ?l = "Sweeping {|''v''|}"
  note i = less_one [THEN iffD2, OF refl]
  have v: "?v |\<in>| {|?v|}" "\<forall>x\<in>set [?v]. own x = 0 \<and> x \<noteq> []" using own by simp_all
  have j: "lfHand life_joining 0 = Joining" "lfSweep life_joining = Resting" by (simp_all add: life_joining_def)
  obtain s2 where 2: "life_reach 1 own life_joining s2" "lfHand s2 0 = Hydrating [?v]" "lfSweep s2 = Resting"
    by (rule that [OF life_next [OF life_start life_snapshot [OF i j(1) v(2)]]]) (use j in simp_all)
  obtain s3 where 3: "life_reach 1 own life_joining s3" "lfHand s3 0 = Hydrating [?v]" "lfSweep s3 = ?l"
    by (rule that [OF life_next [OF 2(1) life_list [of _ _ _ "{|?v|}"]]]) (use 2 in \<open>simp_all\<close>)
  obtain s4 where 4: "life_reach 1 own life_joining s4" "lfHand s4 0 = Hydrating [?v]" "lfSweep s4 = Clearing {|?v|} ?v" "?v |\<notin>| lfOrchard s4"
    by (rule that [OF life_next [OF 3(1) life_reap [OF 3(3) v(1)]]]) (use 3 in \<open>simp_all\<close>)
  obtain s5 where 5: "life_reach 1 own life_joining s5" "lfHand s5 0 = Hydrating [?v]" "lfSweep s5 = Purging {|?v|} ?v 0" "?v |\<notin>| lfOrchard s5"
    by (rule that [OF life_next [OF 4(1) life_clear [OF 4(3)]]]) (use 4 in \<open>simp_all\<close>)
  obtain s6 where 6: "life_reach 1 own life_joining s6" "lfHand s6 0 = Hydrating [?v]" "lfSweep s6 = Purging {|?v|} ?v 1" "?v |\<notin>| lfOrchard s6"
    by (rule that [OF life_next [OF 5(1) life_purge [OF 5(3) i]]]) (use 5 in \<open>simp_all\<close>)
  obtain s7 where 7: "life_reach 1 own life_joining s7" "lfHand s7 0 = Hydrating [?v]" "lfSweep s7 = ?l" "?v |\<notin>| lfOrchard s7"
    by (rule that [OF life_next [OF 6(1) life_purged [OF 6(3)]]]) (use 6 in \<open>simp_all\<close>)
  show ?thesis
    by (intro exI conjI, rule life_next [OF 7(1) life_hydrate [OF i 7(2)]])
      (use 7 in \<open>simp_all add: tracked_def with_active_def adopt_all_def fmranI [of _ "''v''"]\<close>)
qed

subsection \<open>Properties\<close>

text \<open>C8. However the goroutines of the scale sets and the sweeps interleave, hydration at the start included, no
  VM is forgotten: a VM that exists in Orchard is tracked by a bridge, or in the hands of one of its handlers, or
  queued for deletion, unless it is exposed: created while a sweep was under way, not shown by the listing of a
  sweep, left by a create that reported an error, or not adopted yet. The witness is a run in which a VM created
  during a sweep is indeed lost: its delete fails, the sweep drops it from the queue, nothing knows it.\<close>

theorem no_VM_forgotten:
  assumes "life_init N own s0" and "life_reach N own s0 s" and "v |\<in>| lfOrchard s"
  shows "(\<exists>i<N. tracked s i v \<or> in_hand (lfHand s i) = Some v) \<or> v |\<in>| pendingDeletes (lfCleanup s) \<or> v |\<in>| lfExposed s"
proof -
  have ok: "life_ok N own s" by (rule life_reach_ok [OF assms(2,1)])
  then have "(\<exists>i. place s i v) \<or> v |\<in>| pendingDeletes (lfCleanup s) \<or> v |\<in>| lfExposed s"
    using assms(3) by (simp add: life_ok_def accounted_def)
  then show ?thesis using place_own [OF ok] place_def by blast
qed

theorem no_VM_forgotten_witness:
  "\<exists>s. ''v'' |\<in>| lfOrchard s \<and> \<not> tracked s 0 ''v'' \<and> lfHand s 0 = Free \<and> ''v'' |\<notin>| pendingDeletes (lfCleanup s) \<and>
     ''v'' |\<in>| lfExposed s"
proof -
  obtain s where s: "life_reach 1 (\<lambda>_. 0) life_empty s" "''v'' |\<in>| lfOrchard s" "\<not> tracked s 0 ''v''" "lfHand s = (\<lambda>_. Free)"
    "pendingDeletes (lfCleanup s) = {||}" using lost_run [of "\<lambda>_. 0" 0] by blast
  show ?thesis
    by (rule exI [of _ s]) (use no_VM_forgotten [OF life_empty_init s(1,2)] s in auto)
qed

text \<open>C9. Under the same interleavings a tracked VM exists, or the sweep that deleted it has not come to this
  bridge yet, or it is a known ghost: it disappeared without a sweep of this process (deleted by hand or
  with its worker), it was reaped between its creation and its tracking, it was gone before the bridge that
  had read it in a snapshot inserted it, or the deregistration of its runner panicked. The witness is a
  run with a ghost of the third kind: the sweep is past it, and nothing purges it.\<close>

theorem tracked_VMs_exist:
  assumes "life_init N own s0" and "life_reach N own s0 s" and "tracked s i v"
  shows "v |\<in>| lfOrchard s \<or> v |\<in>| lfGone s \<or> (\<exists>k. reaped (lfSweep s) = Some (v, k) \<and> k \<le> i)"
  using life_reach_ok [OF assms(2,1)] assms(3) by (simp add: life_ok_def ghosts_known_def)

theorem tracked_VMs_exist_witness:
  "\<exists>s. tracked s 0 ''v'' \<and> ''v'' |\<notin>| lfOrchard s \<and> ''v'' |\<in>| lfGone s"
proof -
  obtain s where s: "life_reach 1 (\<lambda>_. 0) life_joining s" "tracked s 0 ''v''" "''v'' |\<notin>| lfOrchard s" "lfSweep s = Sweeping {|''v''|}"
    using ghost_run [of "\<lambda>_. 0"] by blast
  show ?thesis
    by (rule exI [of _ s]) (use tracked_VMs_exist [OF life_joining_init s(1,2)] s in auto)
qed

text \<open>C10. The sequential sweep is this run of the interleaved model: it lists the managed VMs of the
  listing; it reaps, in order, exactly the VMs that are due when it comes to them and whose delete is accepted
  at that moment, and each of them it clears from the queue and purges from every bridge (unless deregistering
  its runner panicked); and at the end it drops the queued names it has not seen. After that run the tracking map of
  every bridge and the queue are those the sweep leaves; what the handlers hold is untouched.\<close>

theorem sweep_is_a_run:
  assumes m: "matches N s w" and idle: "lfSweep s = Resting"
    and l: "listVMsAndWorkers E w = ((Some sw, None), w1)" and now: "time_Now E (sysExt w1) = (now, st)"
    and run: "on_tick E cfg gh w = (Return (), w')"
  shows "\<exists>s'. life_run N own s
      (SList (fset_of_list (map vName (filter (\<lambda>vm. IsManagedVM (vName vm)) (stVMs sw)))) #
       concat (map (reap_sections N) (reap_list E (mgr_wiring E cfg gh) now (stVMs sw) (w1\<lparr>sysExt := st\<rparr>))) @ [SRetain]) s' \<and>
    matches N s' w' \<and> lfHand s' = lfHand s \<and> lfSweep s' = Resting"
proof -
  let ?K = "mgr_wiring E cfg gh" and ?L = "fset_of_list (map vName (filter (\<lambda>vm. IsManagedVM (vName vm)) (stVMs sw)))"
  let ?t0 = "\<lparr>managedCount = 0, deleted = 0, orphaned = 0, seen = {||}\<rparr>" and ?live = "fset_of_list (map wName (stLive sw))"
  obtain t w2 where lp: "sweep_loop E ?K ?live now (stVMs sw) ?t0 (w1\<lparr>sysExt := st\<rparr>) = (t, w2)" by (metis surj_pair)
  have fin: "sweep_finish E ?K sw ?live t w2 = (Return (), w')"
    using run l now lp by (simp add: on_tick_def sweep_def Let_def)
  let ?s1 = "s\<lparr>lfSweep := Sweeping ?L, lfExposed := lfExposed s |\<union>| (lfOrchard s |-| ?L)\<rparr>"
  have "mHandles w1 = mHandles w" using listVMsAndWorkers_msys [of E w] l by auto
  then have m1: "matches N ?s1 (w1\<lparr>sysExt := st\<rparr>)"
    using m listVMsAndWorkers_frame(2) [OF l] by (simp add: matches_def)
  have "\<forall>vm\<in>set (stVMs sw). IsManagedVM (vName vm) \<longrightarrow> vName vm |\<in>| ?L" by (simp add: fset_of_list_elem)
  from sweep_loop_is_a_run [OF m1 _ this lp] obtain s2
    where s2: "life_run N own ?s1 (concat (map (reap_sections N) (reap_list E ?K now (stVMs sw) (w1\<lparr>sysExt := st\<rparr>)))) s2"
    "matches N s2 w2" "lfHand s2 = lfHand s" "lfSweep s2 = Sweeping ?L" by auto
  let ?s3 = "s2\<lparr>lfCleanup := retainPendingDeletes ?L (lfCleanup s2), lfSweep := Resting\<rparr>"
  have seen: "seen t = ?L" using sweep_loop_tally [OF lp] by simp
  have "matches N ?s3 w'"
    using s2(2) sweep_finish_bridges [OF fin] mgr_sweep.sweep_finish_books(2) [OF fin]
    by (simp add: matches_def retainPendingDeletes_def seen)
  then show ?thesis
    using run_step [OF life_list [OF idle] run_append [OF s2(1) run_one [OF life_retain [OF s2(4)]]]] s2(3)
    by (intro exI [of _ ?s3]) simp
qed

theorem sweep_is_a_run_witness:
  "\<exists>s' w'. on_tick ex_env (ex_config [] []) None ex_tracking = (Return (), w') \<and> matches 1 s' w' \<and>
     life_run 1 (\<lambda>_. 0) (life_of ex_tracking) [SList {|''gha-orchard-ci-1''|}, SReap ''gha-orchard-ci-1'', SClear,
       SPurge, SPurged, SRetain] s'"
proof -
  let ?K = "mgr_wiring ex_env (ex_config [] []) None"
  have "refs_ok ex_tracking" by (simp add: refs_ok_def ref_ok_def ex_tracking_def ex_retry_def Let_def ex_mgr_def MarkForDeletion_def)
  then obtain w' where w: "on_tick ex_env (ex_config [] []) None ex_tracking = (Return (), w')"
    using sweep_returns [of ex_tracking ex_env "ex_config [] []" None] unfolding on_tick_def by blast
  have m: "matches 1 (life_of ex_tracking) ex_tracking"
    using life_of_matches [of ex_tracking] by (simp add: ex_tracking_def)
  have R: "reap_list ex_env ?K 1000 [ex_vm ''gha-orchard-ci-1'' ''running'' ''a'' []] ex_tracking = [(''gha-orchard-ci-1'', True)]"
    by (simp add: ex_tracking_facts removeRunner_def mgr_wiring_def deletion_due_def isPendingDelete_def)
  have n: "time_Now ex_env (sysExt ex_tracking) = (1000, sysExt ex_tracking)" by (simp add: ex_tracking_facts)
  have e: "ex_tracking\<lparr>sysExt := sysExt ex_tracking\<rparr> = ex_tracking" by simp
  have L: "fset_of_list (map vName (filter (\<lambda>vm. IsManagedVM (vName vm)) [ex_vm ''gha-orchard-ci-1'' ''running'' ''a'' []]))
      = {|''gha-orchard-ci-1''|}" by (simp add: ex_tracking_facts)
  show ?thesis
    using sweep_is_a_run [OF m life_of_sel(2) ex_tracking_list n w, of "\<lambda>_. 0", unfolded sweepState.simps e R L] w
    by (auto simp: reap_sections_def)
qed

text \<open>C11. The sequential completion of a job is this run of the interleaved model: nothing for an
  unknown runner; otherwise the VM is untracked, and then either its delete is accepted, or the delete
  is refused and the VM handed to the cleanup queue. After that run the tracking maps and the queue are those
  \<open>HandleJobCompleted\<close> leaves, whatever a sweep is doing at that moment.\<close>

theorem completion_is_a_run:
  assumes m: "matches N s w" and i: "i < N" and free: "lfHand s i = Free"
    and run: "on_completed E gh i r rid w = (Return x, w')"
  shows "\<exists>s'. life_run N own s
      (case fmlookup (activeVMs (hBridge (mHandles w ! i))) r of None \<Rightarrow> []
       | Some v \<Rightarrow> SComplete i r # (if fst (DeleteVM E v (sysExt w)) = Return None then [SDeleted i] else [SFailed i, SMark i])) s' \<and>
    matches N s' w' \<and> lfHand s' = lfHand s \<and> lfSweep s' = lfSweep s"
proof (cases "fmlookup (activeVMs (lfBridge s i)) r")
  case None
  then have w': "w' = put_bridge i (lfBridge s i) w"
    using run matches_sel(2) [OF m i] by (simp add: on_completed_def HandleJobCompleted_def)
  have "matches N s w'" unfolding w' using m by (intro matches_put [OF m i]) (simp_all add: matches_def)
  then show ?thesis using None matches_sel(2) [OF m i] run_done by auto
next
  case (Some v)
  let ?b = "(lfBridge s i)\<lparr>activeVMs := fmdrop r (activeVMs (lfBridge s i))\<rparr>"
  let ?s1 = "with_active i (fmdrop r) (s\<lparr>lfHand := (lfHand s)(i := Untracked v)\<rparr>)"
  have h: "lfHand ?s1 i = Untracked v" "lfBridge ?s1 = (lfBridge s)(i := ?b)" by (simp_all add: with_active_bridge)
  have hand: "(lfHand s)(i := Free) = lfHand s" using free by (simp add: fun_upd_idem)
  have look: "fmlookup (activeVMs (hBridge (mHandles w ! i))) r = Some v" using Some matches_sel(2) [OF m i] by simp
  obtain q st1 where d: "DeleteVM E v (sysExt w) = (q, st1)" by (metis surj_pair)
  have q: "q \<noteq> Panic" using run look d by (auto simp: on_completed_def HandleJobCompleted_def Let_def)
  show ?thesis
  proof (cases "q = Return None")
    case True
    let ?s2 = "?s1\<lparr>lfOrchard := lfOrchard ?s1 |-| {|v|}, lfHand := (lfHand ?s1)(i := Free)\<rparr>"
    obtain st2 where w': "w' = put_bridge i ?b (recomputeScaleSetShares E (state_Invalidate
        (w\<lparr>sysExt := st2, sysCap := Release 1 (sysCap w)\<rparr>)))"
      using run look d True matches_sel(2) [OF m i]
      by (auto simp: on_completed_def HandleJobCompleted_def Let_def notifyChange_def mgr_hooks_def split: prod.splits outcome.splits)
    have "life_run N own s [SComplete i r, SDeleted i] ?s2"
      by (rule run_step [OF life_complete [OF i free Some] run_one [OF life_deleted [OF i h(1)]]])
    moreover have "matches N ?s2 w'" unfolding w' using m h(2)
      by (intro matches_put [OF m i]) (simp_all add: recompute_frame state_Invalidate_def matches_def)
    ultimately show ?thesis using hand look d True by (intro exI [of _ ?s2]) simp
  next
    case False
    then obtain e where e: "q = Return (Some e)" using q by (cases q) auto
    let ?s2 = "?s1\<lparr>lfHand := (lfHand ?s1)(i := Undeleted v)\<rparr>"
    let ?s3 = "?s2\<lparr>lfHand := (lfHand ?s2)(i := Free), lfCleanup := MarkForDeletion v (lfCleanup ?s2)\<rparr>"
    have w': "w' = put_bridge i ?b (w\<lparr>sysExt := st1, sysCleanup := MarkForDeletion v (sysCleanup w)\<rparr>)"
      using run look d e matches_sel(2) [OF m i]
      by (auto simp: on_completed_def HandleJobCompleted_def Let_def mgr_hooks_def)
    have "life_run N own s [SComplete i r, SFailed i, SMark i] ?s3"
      by (rule run_step [OF life_complete [OF i free Some] run_step [OF life_failed [OF i h(1)] run_one [OF life_mark [OF i]]]]) simp
    moreover have "matches N ?s3 w'" unfolding w' using m h(2)
      by (intro matches_put [OF m i]) (simp_all add: matches_def MarkForDeletion_def)
    ultimately show ?thesis using hand look d False by (intro exI [of _ ?s3]) simp
  qed
qed

theorem completion_is_a_run_witness:
  "\<exists>s' x w'. on_completed ex_env ex_gh 0 ''gha-orchard-ci-1'' 1 ex_tracking = (Return x, w') \<and> matches 1 s' w' \<and>
     life_run 1 (\<lambda>_. 0) (life_of ex_tracking) [SComplete 0 ''gha-orchard-ci-1'', SDeleted 0] s'"
proof -
  obtain x w' where w: "on_completed ex_env ex_gh 0 ''gha-orchard-ci-1'' 1 ex_tracking = (Return x, w')"
    by (simp add: on_completed_def HandleJobCompleted_def ex_tracking_facts Let_def)
  have m: "matches 1 (life_of ex_tracking) ex_tracking"
    using life_of_matches [of ex_tracking] by (simp add: ex_tracking_def)
  show ?thesis using completion_is_a_run [OF m _ _ w, of "\<lambda>_. 0"] w by (auto simp: ex_tracking_facts)
qed

end
