(* ===== verification/Spec2Isabelle.thy ===== *)
theory Spec2Isabelle
  imports Main_Model State_View_Conc Sweep_Race VM_Lifecycle
begin

text \<open>
  \<^bold>\<open>A verification development for orchard-gh-bridge.\<close>

  \<^bold>\<open>The program.\<close> The bridge turns GitHub Actions job demand into ephemeral macOS VMs on Orchard. One
  process holds: a manager (\<^verbatim>\<open>manager/manager.go\<close>) that registers each scale set of the
  configuration with GitHub and starts one listener per scale set; a bridge per scale set
  (\<^verbatim>\<open>bridge/bridge.go\<close>) whose handlers the listener calls with the desired runner count, job
  starts and job completions; a slot counter shared by all bridges (\<^verbatim>\<open>bridge/capacity.go\<close>); a
  cached view of Orchard shared by all (\<^verbatim>\<open>bridge/stateview.go\<close>); a cleanup goroutine
  (\<^verbatim>\<open>bridge/cleanup.go\<close>) that reaps VMs, prunes worker records, and rebuilds the counter and its
  limit; an eligibility monitor (\<^verbatim>\<open>bridge/eligibility.go\<close>) that explains which workers an
  AutoSize scale set cannot use; a metrics registry (\<^verbatim>\<open>metrics/metrics.go\<close>); the configuration
  (\<^verbatim>\<open>config/config.go\<close>); the Orchard client (\<^verbatim>\<open>orchard/\<close>); the probes
  (\<^verbatim>\<open>health/health.go\<close>) and \<^verbatim>\<open>main.go\<close>.

  A bridge acquires slots from the counter, creates VMs, tells the manager (which recomputes every
  scale set's share) and gives back what it did not use. A completion deletes the VM and gives its
  slot back, or hands the VM to the cleanup loop when the delete fails. A sweep lists Orchard through
  the view, reaps, overwrites the counter with the VMs that are left, pushes the new limit (whose
  callback again recomputes the shares), prunes, and observes eligibility.

  \<^bold>\<open>Theories.\<close> Each definition has the name of the Go function, method or type it models; a name that
  clashes in HOL carries a suffix. Records have one selector per struct field.

  \<^item> \<open>Go_Prelude\<close>: Go's \<open>int\<close> (\<open>wrap64\<close>), saturating time differences, maps, string helpers, errors as
    wrap chains (\<open>gerror\<close>), panics (\<open>outcome\<close>), and the collection \<open>go_arith\<close>.
  \<^item> \<open>Capacity_Model\<close>: the counter; locale \<open>slot_pool\<close> with interpretation \<open>cap\<close>; any number of goroutines
    over one pool.
  \<^item> \<open>Orchard_Client\<close>: VMs, workers, the client interface and the client over the Orchard library.
  \<^item> \<open>Worker_Model\<close>: worker liveness, the three copies of the label test, slot counts.
  \<^item> \<open>VM_Naming\<close>: names, their attribution to scale sets, the startup script (\<^verbatim>\<open>bridge/vm.go\<close>).
  \<^item> \<open>Autosize_Model\<close>: pins, eligibility, free workers, whole-host sizing (\<^verbatim>\<open>bridge/autosize.go\<close>).
  \<^item> \<open>State_View\<close>: the view as one sequential call; \<open>State_View_Conc\<close>: the same code cut at its critical
    sections, with any number of goroutines inside, and its weakly fair runs.
  \<^item> \<open>Config_Model\<close>: loading, defaults, overrides, validation, durations.
  \<^item> \<open>Bridge_Model\<close>: the bridge's operations; \<open>Bridge_Spec\<close>: their specification, with hooks that may do
    anything they promise not to.
  \<^item> \<open>Metrics_Model\<close>: the exporter; \<open>Metrics_Text\<close>: a reader of its text format, and that it reads back what
    the exporter wrote; \<open>Eligibility_Model\<close>: the monitor and what its gauges show.
  \<^item> \<open>Cleanup_Model\<close>: the sweep and its parts, over a wiring of callbacks.
  \<^item> \<open>Manager_Model\<close>: \<open>New\<close>, \<open>Run\<close>, \<open>runScaleSet\<close>, the shares, and the real hooks and wiring;
    \<open>Manager_Spec\<close>: the bridge and cleanup results on those, and the properties that span components.
  \<^item> \<open>Manager_Reach\<close>: the whole process as steps (an event on any bridge, a sweep, a new scale set,
    a change of the outside world) and the invariant of its reachable states; \<open>Manager_Safety\<close>: sweeps
    never panic and the cleanup loop ends with the context; \<open>Manager_Metrics\<close>: the metrics registry of
    every reachable state is well formed.
  \<^item> \<open>Sweep_Race\<close>: sweeps that overwrite the counter and change the limit while bridges acquire and release.
  \<^item> \<open>VM_Lifecycle\<close>: hydration, handlers and sweeps cut at their critical sections and remote calls, and where a
    VM is under every interleaving; the sequential hydration, create, completion and sweep are labelled
    runs of it.
  \<^item> \<open>Main_Model\<close>: the start of the process, the probes and the metrics handler.

  \<^bold>\<open>State.\<close> One record is passed through every operation: the external state (\<open>sysExt\<close>), counter, view and
  metrics (\<open>sys\<close>), extended by the cleanup loop's fields (\<open>msys\<close>) and the manager's (\<open>mgr\<close>). An operation
  returns its result and the new state; \<open>Panic\<close> is a Go panic, \<open>Inl\<close> or \<open>Some\<close> an error.

  \<^bold>\<open>Interfaces.\<close> Each locale states what a client relies on, and is interpreted on the model's own
  definitions: the counter (\<open>slot_pool\<close>), the view, the bridge's hooks, the cleanup loop's wiring, and the
  three invariant schemes \<open>world_inv\<close>, \<open>job_inv\<close> and \<open>sweep_inv\<close> of \<open>Manager_Reach\<close>, which carry an
  invariant through every operation once, for the fleet invariant, the number of handles, the
  shape and the content of the metrics registry, and the bridges during a sweep alike.

  \<^bold>\<open>What is shown.\<close> Scaling: an event accounts for every slot it takes on every path, never exceeds the free
  matching slots, and an AutoSize scale-up places VMs on distinct free workers. Completion: the slot
  comes back, or the VM is queued and the queue is retried until the delete lands. Cleanup: which VMs
  are reaped and which worker records pruned, exactly; the counter and limit after a sweep. Shares:
  each listener is told the pool minus what others use. Restart: a bridge tracks again what it
  tracked. Concurrency: the counter never
  overcommits among bridges, and by a bounded amount when sweeps overwrite it; the view has one refresh in flight and
  releases every waiter. Whole process: in every reachable state the books are in range, no
  desired-count event and no sweep panics, no tracked VM is lost, and a metrics scrape reads back as exactly
  the recorded series. Interleaving: a VM is always tracked, in a handler's hands, or queued, and a tracked
  VM exists, but for the exceptions the theorems name. Configuration: what is accepted, and
  that accepted thresholds fit together in the running process. Text: names are label-safe and
  attributed to the right scale set, and what the exporter writes is read back.

  \<^bold>\<open>Bounds.\<close> \<open>cap_ok\<close> keeps the counter within \<open>[0, 2 ^ 62)\<close> and the limit below \<open>2 ^ 62\<close>, so 64-bit sums of two
  of them do not wrap. The reachability theorems take a bound \<open>B\<close> of at most \<open>2 ^ 31\<close> on the VMs and slots
  Orchard lists and on the count GitHub asks for, at most \<open>2 ^ 30\<close> steps and \<open>2 ^ 20\<close> scale sets; the
  product stays below \<open>2 ^ 62\<close>. They are far beyond any fleet and are needed: the Go code does not check
  for overflow. There is no fuel: \<open>session_loop\<close> and the parsers terminate by a measure, and
  \<open>wait_for_workers\<close> and \<open>Cleanup_Run\<close>, which may run forever, are partial functions whose return is
  a theorem.

  \<^bold>\<open>Arguments of the model.\<close> What is not in the repository is an argument: the Orchard library (\<open>v1_api\<close>,
  \<open>v1_consts\<close>, its constructor), the GitHub scale-set library and the listener (\<open>gh_client\<close>,
  \<open>scaleset_client\<close>, \<open>outside\<close>), the clock, UUIDs, files, the environment, YAML, JSON, the result of the
  fractional part of a duration in Go's floating point, and the wait for tickers and contexts. No
  hypothesis is put on them beyond the bounds above and, for single properties, what the property names.

  \<^bold>\<open>Atomicity.\<close> A handler, a sweep and the registration of a scale set are single steps of \<open>Manager_Reach\<close>,
  though the Go code releases its locks between their parts. The finer interleavings are modelled
  where they matter: bridges on the counter (\<open>pool_step\<close>), sweeps against bridges on the counter
  (\<open>race_step\<close>), callers in the view (\<open>conc_step\<close>), and hydration and handlers against sweeps on the VMs, the tracking
  maps and the deletion queue (\<open>life_step\<close>).

  \<^bold>\<open>Not modelled.\<close> The HTTP servers' routing and listening; signal handling, \<open>errgroup\<close>'s choice of the
  first error and closing a GitHub session; log records, except the eligibility monitor's, which
  are its purpose; the quotation marks of \<^verbatim>\<open>%q\<close> in error texts; the test hook of the
  bridge and its one-line getters. The Helm chart, container image, workflows and tests hold no
  program logic.
\<close>

end
